(* ===== verification/Prelude.thy ===== *)
theory Prelude
  imports Main "HOL-Library.Word"
begin

text \<open>
  Shared vocabulary of the development: the C integer types of \<^verbatim>\<open>types.h\<close>, the
  constants of \<^verbatim>\<open>param.h\<close>, \<^verbatim>\<open>fs.h\<close> and \<^verbatim>\<open>mmu.h\<close> the components use,
  the outcomes a kernel routine can have, the sequencing of routines, the table scans
  that many components share, and the proof collections.
\<close>

unbundle bit_operations_syntax

section \<open>Integers and constants\<close>

type_synonym byte = "8 word"
type_synonym ushort = "16 word"
type_synonym uint = "32 word"

abbreviation (input) NPROC :: nat where "NPROC \<equiv> 64"
abbreviation (input) NOFILE :: nat where "NOFILE \<equiv> 16"
abbreviation (input) NFILE :: nat where "NFILE \<equiv> 100"
abbreviation (input) NINODE :: nat where "NINODE \<equiv> 50"
abbreviation (input) NBUF :: nat where "NBUF \<equiv> 30"
abbreviation (input) LOGSIZE :: nat where "LOGSIZE \<equiv> 30"
abbreviation (input) MAXOPBLOCKS :: nat where "MAXOPBLOCKS \<equiv> 10"
abbreviation (input) BSIZE :: nat where "BSIZE \<equiv> 512"
abbreviation (input) PGSIZE :: nat where "PGSIZE \<equiv> 4096"

section \<open>Outcomes of kernel routines\<close>

text \<open>
  A kernel routine started in a state either returns a value in a new state, calls
  \<^verbatim>\<open>panic\<close>, gives up the processor through \<^verbatim>\<open>sched\<close> in some state, loops
  forever on a lock, or does something the C language leaves undefined (a null
  dereference, an access outside an array).
\<close>

datatype ('a, 's) outcome =
    Ret 'a 's
  | Panic string
  | Sched 's
  | Spin
  | Undef

type_synonym ('s, 'a) kernel = "'s \<Rightarrow> ('a, 's) outcome"

definition ret :: "'a \<Rightarrow> ('s, 'a) kernel" where
  "ret a = (\<lambda>s. Ret a s)"

definition panic :: "string \<Rightarrow> ('s, 'a) kernel" where
  "panic msg = (\<lambda>s. Panic msg)"

definition undef :: "('s, 'a) kernel" where
  "undef = (\<lambda>s. Undef)"

definition gets :: "('s \<Rightarrow> 'a) \<Rightarrow> ('s, 'a) kernel" where
  "gets f = (\<lambda>s. Ret (f s) s)"

definition modify :: "('s \<Rightarrow> 's) \<Rightarrow> ('s, unit) kernel" where
  "modify f = (\<lambda>s. Ret () (f s))"

definition bnd :: "('s, 'a) kernel \<Rightarrow> ('a \<Rightarrow> ('s, 'b) kernel) \<Rightarrow> ('s, 'b) kernel" where
  "bnd m f = (\<lambda>s. case m s of
       Ret a s' \<Rightarrow> f a s'
     | Panic msg \<Rightarrow> Panic msg
     | Sched s' \<Rightarrow> Sched s'
     | Spin \<Rightarrow> Spin
     | Undef \<Rightarrow> Undef)"

definition thn :: "('s, 'a) kernel \<Rightarrow> ('s, 'b) kernel \<Rightarrow> ('s, 'b) kernel" where
  "thn m m' = bnd m (\<lambda>_. m')"

text \<open>A statement executed under a condition, and a counted loop over a list of indices.\<close>

definition whenk :: "bool \<Rightarrow> ('s, unit) kernel \<Rightarrow> ('s, unit) kernel" where
  "whenk b m = (if b then m else ret ())"

fun forM :: "'b list \<Rightarrow> ('b \<Rightarrow> ('s, unit) kernel) \<Rightarrow> ('s, unit) kernel" where
  "forM [] f = ret ()"
| "forM (x # xs) f = thn (f x) (forM xs f)"

text \<open>
  A loop that may return early with a value, and a loop that collects a value per iteration.
\<close>

fun scanM :: "'b list \<Rightarrow> ('b \<Rightarrow> ('s, 'a option) kernel) \<Rightarrow> ('s, 'a option) kernel" where
  "scanM [] f = ret None"
| "scanM (x # xs) f = bnd (f x) (\<lambda>r. case r of Some a \<Rightarrow> ret (Some a) | None \<Rightarrow> scanM xs f)"

fun mapM :: "'b list \<Rightarrow> ('b \<Rightarrow> ('s, 'a) kernel) \<Rightarrow> ('s, 'a list) kernel" where
  "mapM [] f = ret []"
| "mapM (x # xs) f = bnd (f x) (\<lambda>a. bnd (mapM xs f) (\<lambda>as. ret (a # as)))"

section \<open>Total correctness of a run\<close>

text \<open>
  \<open>runs m s Q\<close>: started in \<open>s\<close>, the routine \<open>m\<close> returns (it does not
  panic, block, spin or run into undefined behaviour) and its value and final state
  satisfy \<open>Q\<close>.
\<close>

definition runs :: "('s, 'a) kernel \<Rightarrow> 's \<Rightarrow> ('a \<Rightarrow> 's \<Rightarrow> bool) \<Rightarrow> bool" where
  "runs m s Q = (case m s of Ret a s' \<Rightarrow> Q a s' | _ \<Rightarrow> False)"

named_theorems kstep \<open>one-step evaluation of kernel routines\<close>

lemma ret_run [kstep]: "ret a s = Ret a s"
  by (simp add: ret_def)

lemma panic_run [kstep]: "panic msg s = Panic msg"
  by (simp add: panic_def)

lemma undef_run [kstep]: "undef s = Undef"
  by (simp add: undef_def)

lemma gets_run [kstep]: "gets f s = Ret (f s) s"
  by (simp add: gets_def)

lemma modify_run [kstep]: "modify f s = Ret () (f s)"
  by (simp add: modify_def)

lemma bnd_run [kstep]:
  "bnd m f s = (case m s of Ret a s' \<Rightarrow> f a s' | Panic msg \<Rightarrow> Panic msg
     | Sched s' \<Rightarrow> Sched s' | Spin \<Rightarrow> Spin | Undef \<Rightarrow> Undef)"
  by (simp add: bnd_def)

lemma thn_run [kstep]:
  "thn m m' s = (case m s of Ret a s' \<Rightarrow> m' s' | Panic msg \<Rightarrow> Panic msg
     | Sched s' \<Rightarrow> Sched s' | Spin \<Rightarrow> Spin | Undef \<Rightarrow> Undef)"
  by (simp add: thn_def bnd_def)

lemma whenk_run [kstep]: "whenk b m s = (if b then m s else Ret () s)"
  by (simp add: whenk_def ret_def)

lemma runs_iff: "runs m s Q \<longleftrightarrow> (\<exists>a s'. m s = Ret a s' \<and> Q a s')"
  by (simp add: runs_def split: outcome.split)

lemma runs_Ret: "m s = Ret a s' \<Longrightarrow> runs m s Q = Q a s'"
  by (simp add: runs_def)

lemma runs_bnd: "runs (bnd m f) s Q = runs m s (\<lambda>a s'. runs (f a) s' Q)"
  by (simp add: runs_def bnd_def split: outcome.split)

lemma runs_thn: "runs (thn m m') s Q = runs m s (\<lambda>_ s'. runs m' s' Q)"
  by (simp add: thn_def runs_bnd)

lemma runs_ret: "runs (ret a) s Q = Q a s"
  by (simp add: runs_def ret_def)

lemma runs_gets: "runs (gets f) s Q = Q (f s) s"
  by (simp add: runs_def gets_def)

lemma runs_modify: "runs (modify f) s Q = Q () (f s)"
  by (simp add: runs_def modify_def)

lemma runs_panic: "\<not> runs (panic msg) s Q"
  by (simp add: runs_def panic_def)

lemma runs_undef: "\<not> runs undef s Q"
  by (simp add: runs_def undef_def)

lemma runs_whenk: "runs (whenk b m) s Q = (if b then runs m s Q else Q () s)"
  by (simp add: whenk_def runs_ret)

lemmas runs_simps [simp] =
  runs_bnd runs_thn runs_ret runs_gets runs_modify runs_panic runs_undef runs_whenk

lemma runs_mono:
  assumes "runs m s P" and "\<And>a s'. P a s' \<Longrightarrow> Q a s'"
  shows "runs m s Q"
  using assms by (auto simp: runs_iff)

lemma runs_conj: "runs m s P \<Longrightarrow> runs m s Q \<Longrightarrow> runs m s (\<lambda>a s'. P a s' \<and> Q a s')"
  by (auto simp: runs_iff)

text \<open>A counted loop keeps an invariant indexed by the iterations already done.\<close>

lemma runs_forM_upt:
  assumes "I i s"
    and "\<And>k s. i \<le> k \<Longrightarrow> k < n \<Longrightarrow> I k s \<Longrightarrow> runs (f k) s (\<lambda>_. I (Suc k))"
    and "i \<le> n"
  shows "runs (forM [i..<n] f) s (\<lambda>_. I n)"
  using assms
proof (induction "n - i" arbitrary: i s)
  case 0
  then show ?case by simp
next
  case (Suc d)
  then have "i < n" by simp
  then have ix: "[i..<n] = i # [Suc i..<n]" by (rule upt_conv_Cons)
  have "runs (f i) s (\<lambda>_. I (Suc i))"
    using Suc.prems(1,2) \<open>i < n\<close> by simp
  then have "runs (f i) s (\<lambda>_ s'. runs (forM [Suc i..<n] f) s' (\<lambda>_. I n))"
  proof (rule runs_mono)
    fix a s' assume "I (Suc i) s'"
    then show "runs (forM [Suc i..<n] f) s' (\<lambda>_. I n)"
      using Suc.hyps(1)[of "Suc i" s'] Suc.hyps(2) Suc.prems(2) \<open>i < n\<close> by simp
  qed
  then show ?case by (simp add: ix)
qed

text \<open>A loop that may leave early, and one that collects values.\<close>

lemma runs_scanM:
  assumes "I [] s"
    and "\<And>ys x zs t. xs = ys @ x # zs \<Longrightarrow> I ys t \<Longrightarrow>
      runs (f x) t (\<lambda>r t'. case r of Some a \<Rightarrow> Q (Some a) t' | None \<Rightarrow> I (ys @ [x]) t')"
    and "\<And>t. I xs t \<Longrightarrow> Q None t"
  shows "runs (scanM xs f) s Q"
proof -
  have "runs (scanM zs f) t Q" if "xs = ys @ zs" "I ys t" for ys zs t
    using that
  proof (induction zs arbitrary: ys t)
    case Nil
    then show ?case using assms(3) by simp
  next
    case (Cons x zs)
    have "runs (f x) t (\<lambda>r t'. case r of Some a \<Rightarrow> Q (Some a) t' | None \<Rightarrow> I (ys @ [x]) t')"
      using assms(2)[of ys x zs t] Cons.prems by simp
    then have "runs (f x) t (\<lambda>r t'. runs (case r of Some a \<Rightarrow> ret (Some a) | None \<Rightarrow> scanM zs f) t' Q)"
      by (rule runs_mono) (use Cons.IH[of "ys @ [x]"] Cons.prems in \<open>auto split: option.splits\<close>)
    then show ?case by simp
  qed
  from this[of "[]" xs s] show ?thesis using assms(1) by simp
qed

lemma runs_mapM:
  assumes "I s" and "\<And>x t. x \<in> set xs \<Longrightarrow> I t \<Longrightarrow> runs (f x) t (\<lambda>r t'. r = g x \<and> I t')"
  shows "runs (mapM xs f) s (\<lambda>rs t. rs = map g xs \<and> I t)"
  using assms
proof (induction xs arbitrary: s)
  case (Cons x xs)
  have "runs (f x) s (\<lambda>r t. r = g x \<and> I t)" using Cons.prems by simp
  then have "runs (f x) s (\<lambda>r t. runs (mapM xs f) t (\<lambda>rs u. r # rs = map g (x # xs) \<and> I u))"
    by (rule runs_mono) (use Cons.prems(2) in \<open>auto intro!: runs_mono[OF Cons.IH]\<close>)
  then show ?case by simp
qed simp

lemma runs_forM:
  assumes "I [] s" and "\<And>ys x zs t. xs = ys @ x # zs \<Longrightarrow> I ys t \<Longrightarrow> runs (f x) t (\<lambda>_. I (ys @ [x]))"
  shows "runs (forM xs f) s (\<lambda>_. I xs)"
proof -
  have "runs (forM zs f) t (\<lambda>_. I xs)" if "xs = ys @ zs" "I ys t" for ys zs t
    using that
  proof (induction zs arbitrary: ys t)
    case (Cons x zs)
    have "runs (f x) t (\<lambda>_. I (ys @ [x]))" using assms(2)[of ys x zs t] Cons.prems by simp
    then have "runs (f x) t (\<lambda>_ t'. runs (forM zs f) t' (\<lambda>_. I xs))"
      by (rule runs_mono) (use Cons.IH[of "ys @ [x]"] Cons.prems in simp)
    then show ?case by simp
  qed simp
  from this[of "[]" xs s] show ?thesis using assms(1) by simp
qed

section \<open>Table scans\<close>

text \<open>
  Many routines look for the first entry of a table with some property:
  \<^verbatim>\<open>for(p = tab; p < &tab[N]; p++) if(cond(p)) goto found\<close>.
  The scan is \<^term>\<open>find P [0..<n]\<close>.
\<close>

lemma find_upt_Some:
  "find P [0..<n] = Some i \<longleftrightarrow> i < n \<and> P i \<and> (\<forall>j<i. \<not> P j)"
proof
  assume "find P [0..<n] = Some i"
  then obtain k where k: "k < length [0..<n]" "P ([0..<n] ! k)" "i = [0..<n] ! k"
      "\<forall>j<k. \<not> P ([0..<n] ! j)"
    by (auto simp: find_Some_iff)
  then show "i < n \<and> P i \<and> (\<forall>j<i. \<not> P j)" by auto
next
  assume a: "i < n \<and> P i \<and> (\<forall>j<i. \<not> P j)"
  then have "i < length [0..<n] \<and> P ([0..<n] ! i) \<and> i = [0..<n] ! i
      \<and> (\<forall>j<i. \<not> P ([0..<n] ! j))"
    by auto
  then show "find P [0..<n] = Some i" unfolding find_Some_iff by blast
qed

lemma find_upt_None: "find P [0..<n] = None \<longleftrightarrow> (\<forall>i<n. \<not> P i)"
  by (auto simp: find_None_iff)

lemma find_upt_cong:
  "(\<And>i. i < n \<Longrightarrow> P i = Q i) \<Longrightarrow> find P [0..<n] = find Q [0..<n]"
  by (rule find_cong) auto

section \<open>Words\<close>

lemma unat_lt32: "unat (x :: uint) < 2 ^ 32"
  using unsigned_less[of x, where ?'a = nat] by simp

lemma unat_of_nat32: "n < 2 ^ 32 \<Longrightarrow> unat (of_nat n :: uint) = n"
  by (simp add: unat_of_nat)

end
