(* ===== verification/Spinlock.thy ===== *)
theory Spinlock
  imports Prelude
begin

text \<open>
  Model of \<^verbatim>\<open>spinlock.c\<close>: \<^verbatim>\<open>pushcli\<close>, \<^verbatim>\<open>popcli\<close>,
  \<^verbatim>\<open>holding\<close>, \<^verbatim>\<open>acquire\<close> and \<^verbatim>\<open>release\<close> on any number of processors,
  first as whole routines and then split into the atomic steps of which other
  processors see the effects one by one.  The list of locks a processor holds is the
  abstract view that the other components use (\<open>acq\<close>, \<open>rel\<close>); \<open>acquire\<close> and
  \<open>release\<close> refine it.  The fields \<^verbatim>\<open>name\<close> and \<^verbatim>\<open>pcs\<close> of a lock serve
  debugging only and are left out.
\<close>

section \<open>State\<close>

datatype lockid =
    KmemLock | PtableLock | FtableLock | IcacheLock | BcacheLock | LogLock
  | ConsLock | TicksLock | IdeLock | PipeLock uint

record cpu =
  ncli :: int
  intena :: bool
  eflags_if :: bool

record spinlock =
  locked :: uint
  lk_cpu :: "nat option"

record smp =
  cpus :: "nat \<Rightarrow> cpu"
  spinlocks :: "lockid \<Rightarrow> spinlock"

definition upd_cpu :: "nat \<Rightarrow> (cpu \<Rightarrow> cpu) \<Rightarrow> (smp, unit) kernel" where
  "upd_cpu c f = modify (\<lambda>s. s\<lparr>cpus := (cpus s)(c := f (cpus s c))\<rparr>)"

definition upd_lock :: "lockid \<Rightarrow> (spinlock \<Rightarrow> spinlock) \<Rightarrow> (smp, unit) kernel" where
  "upd_lock l f = modify (\<lambda>s. s\<lparr>spinlocks := (spinlocks s)(l := f (spinlocks s l))\<rparr>)"

section \<open>The routines of spinlock.c\<close>

definition initlock :: "lockid \<Rightarrow> (smp, unit) kernel" where
  "initlock l = upd_lock l (\<lambda>k. k\<lparr>locked := 0, lk_cpu := None\<rparr>)"

definition pushcli :: "nat \<Rightarrow> (smp, unit) kernel" where
  "pushcli c =
     bnd (gets (\<lambda>s. eflags_if (cpus s c))) (\<lambda>eflags.
     thn (upd_cpu c (\<lambda>k. k\<lparr>eflags_if := False\<rparr>)) (
     bnd (gets (\<lambda>s. ncli (cpus s c))) (\<lambda>n.
     thn (upd_cpu c (\<lambda>k. k\<lparr>ncli := n + 1\<rparr>)) (
     whenk (n = 0) (upd_cpu c (\<lambda>k. k\<lparr>intena := eflags\<rparr>))))))"

definition popcli :: "nat \<Rightarrow> (smp, unit) kernel" where
  "popcli c =
     bnd (gets (\<lambda>s. cpus s c)) (\<lambda>k0.
     if eflags_if k0 then panic ''popcli - interruptible'' else
     thn (upd_cpu c (\<lambda>k. k\<lparr>ncli := ncli k - 1\<rparr>)) (
     bnd (gets (\<lambda>s. cpus s c)) (\<lambda>k1.
     if ncli k1 < 0 then panic ''popcli'' else
     whenk (ncli k1 = 0 \<and> intena k1) (upd_cpu c (\<lambda>k. k\<lparr>eflags_if := True\<rparr>)))))"

definition holding :: "nat \<Rightarrow> lockid \<Rightarrow> (smp, bool) kernel" where
  "holding c l =
     gets (\<lambda>s. locked (spinlocks s l) \<noteq> 0 \<and> lk_cpu (spinlocks s l) = Some c)"

text \<open>The atomic exchange instruction on the lock word.\<close>

definition xchg_locked :: "lockid \<Rightarrow> uint \<Rightarrow> (smp, uint) kernel" where
  "xchg_locked l v =
     bnd (gets (\<lambda>s. locked (spinlocks s l))) (\<lambda>old.
     thn (upd_lock l (\<lambda>k. k\<lparr>locked := v\<rparr>)) (ret old))"

definition acquire :: "nat \<Rightarrow> lockid \<Rightarrow> (smp, unit) kernel" where
  "acquire c l =
     thn (pushcli c) (
     bnd (holding c l) (\<lambda>h.
     if h then panic ''acquire'' else
     bnd (xchg_locked l 1) (\<lambda>old.
     if old \<noteq> 0 then (\<lambda>s. Spin) else
     upd_lock l (\<lambda>k. k\<lparr>lk_cpu := Some c\<rparr>))))"

definition release :: "nat \<Rightarrow> lockid \<Rightarrow> (smp, unit) kernel" where
  "release c l =
     bnd (holding c l) (\<lambda>h.
     if \<not> h then panic ''release'' else
     thn (upd_lock l (\<lambda>k. k\<lparr>lk_cpu := None\<rparr>)) (
     bnd (xchg_locked l 0) (\<lambda>_.
     popcli c)))"

section \<open>Interleaving: the atomic steps of every processor\<close>

text \<open>
  A processor outside (\<open>Out\<close>) may call \<^verbatim>\<open>acquire\<close>; one in the critical section
  (\<open>Crit\<close>) may call \<^verbatim>\<open>release\<close>.  Each step below is one statement of the
  routine; \<open>AcqXchg\<close> is the body of the spinning loop.
\<close>

datatype pc = Out | AcqCheck | AcqXchg | AcqSet | Crit | RelClear | RelXchg | RelPop

fun micro :: "lockid \<Rightarrow> nat \<Rightarrow> pc \<Rightarrow> (smp, pc) kernel" where
  "micro l c Out = thn (pushcli c) (ret AcqCheck)"
| "micro l c AcqCheck = bnd (holding c l) (\<lambda>h. if h then panic ''acquire'' else ret AcqXchg)"
| "micro l c AcqXchg = bnd (xchg_locked l 1) (\<lambda>old. ret (if old \<noteq> 0 then AcqXchg else AcqSet))"
| "micro l c AcqSet = thn (upd_lock l (\<lambda>k. k\<lparr>lk_cpu := Some c\<rparr>)) (ret Crit)"
| "micro l c Crit = bnd (holding c l) (\<lambda>h. if \<not> h then panic ''release'' else ret RelClear)"
| "micro l c RelClear = thn (upd_lock l (\<lambda>k. k\<lparr>lk_cpu := None\<rparr>)) (ret RelXchg)"
| "micro l c RelXchg = bnd (xchg_locked l 0) (\<lambda>_. ret RelPop)"
| "micro l c RelPop = thn (popcli c) (ret Out)"

inductive lstep :: "lockid \<Rightarrow> smp \<times> (nat \<Rightarrow> pc) \<Rightarrow> smp \<times> (nat \<Rightarrow> pc) \<Rightarrow> bool" for l where
  cpu_moves: "micro l c (pcs c) s = Ret p s' \<Longrightarrow> lstep l (s, pcs) (s', pcs(c := p))"
| irq_flag: "pcs c = Out \<Longrightarrow> ncli (cpus s c) = 0 \<Longrightarrow>
     lstep l (s, pcs) (s\<lparr>cpus := (cpus s)(c := (cpus s c)\<lparr>eflags_if := b\<rparr>)\<rparr>, pcs)"

definition lock_start :: "lockid \<Rightarrow> smp \<times> (nat \<Rightarrow> pc) \<Rightarrow> bool" where
  "lock_start l st \<longleftrightarrow>
     locked (spinlocks (fst st) l) = 0 \<and> lk_cpu (spinlocks (fst st) l) = None
     \<and> (\<forall>c. snd st c = Out)
     \<and> (\<forall>c. 0 \<le> ncli (cpus (fst st) c) \<and> (0 < ncli (cpus (fst st) c) \<longrightarrow> \<not> eflags_if (cpus (fst st) c)))"

inductive lreach :: "lockid \<Rightarrow> smp \<times> (nat \<Rightarrow> pc) \<Rightarrow> bool" for l where
  start: "lock_start l st \<Longrightarrow> lreach l st"
| step: "lreach l st \<Longrightarrow> lstep l st st' \<Longrightarrow> lreach l st'"

definition owns :: "pc \<Rightarrow> bool" where
  "owns p \<longleftrightarrow> p \<in> {AcqSet, Crit, RelClear, RelXchg}"

text \<open>
  The invariant names the owner \<open>w\<close>: the lock word is set exactly while some
  processor owns the lock, and the lock records the owner exactly while it is in its
  critical section.
\<close>

definition own_inv :: "spinlock \<Rightarrow> (nat \<Rightarrow> pc) \<Rightarrow> nat option \<Rightarrow> bool" where
  "own_inv k pcs w \<longleftrightarrow>
     (\<forall>c. owns (pcs c) \<longleftrightarrow> w = Some c)
     \<and> (locked k \<noteq> 0 \<longleftrightarrow> w \<noteq> None)
     \<and> (\<forall>c. lk_cpu k = Some c \<longleftrightarrow> pcs c \<in> {Crit, RelClear})"

definition cli_ok :: "cpu \<Rightarrow> bool" where
  "cli_ok k \<longleftrightarrow> 0 \<le> ncli k \<and> (0 < ncli k \<longrightarrow> \<not> eflags_if k)"

definition lock_inv :: "lockid \<Rightarrow> smp \<times> (nat \<Rightarrow> pc) \<Rightarrow> bool" where
  "lock_inv l st \<longleftrightarrow>
     (\<exists>w. own_inv (spinlocks (fst st) l) (snd st) w)
     \<and> (\<forall>c. cli_ok (cpus (fst st) c) \<and> (snd st c \<noteq> Out \<longrightarrow> 0 < ncli (cpus (fst st) c)))"

section \<open>The abstract view: the locks a processor holds\<close>

record lkst =
  held :: "lockid list"

definition acq :: "lockid \<Rightarrow> ('x lkst_scheme, unit) kernel" where
  "acq l = bnd (gets held) (\<lambda>h.
     if l \<in> set h then panic ''acquire'' else modify (\<lambda>s. s\<lparr>held := l # h\<rparr>))"

definition rel :: "lockid \<Rightarrow> ('x lkst_scheme, unit) kernel" where
  "rel l = bnd (gets held) (\<lambda>h.
     if l \<notin> set h then panic ''release'' else modify (\<lambda>s. s\<lparr>held := remove1 l h\<rparr>))"

text \<open>Processor \<open>c\<close> of the machine state holds exactly the locks of the list.\<close>

definition lrep :: "nat \<Rightarrow> smp \<Rightarrow> lkst \<Rightarrow> bool" where
  "lrep c s h \<longleftrightarrow>
     distinct (held h)
     \<and> (\<forall>l. l \<in> set (held h) \<longleftrightarrow> lk_cpu (spinlocks s l) = Some c)
     \<and> (\<forall>l \<in> set (held h). locked (spinlocks s l) \<noteq> 0)
     \<and> ncli (cpus s c) = int (length (held h))
     \<and> (held h \<noteq> [] \<longrightarrow> \<not> eflags_if (cpus s c))"

definition refines ::
    "('s \<Rightarrow> 't \<Rightarrow> bool) \<Rightarrow> ('a, 's) outcome \<Rightarrow> ('a, 't) outcome \<Rightarrow> bool" where
  "refines R x y = (case x of
       Ret a s \<Rightarrow> (case y of Ret b t \<Rightarrow> a = b \<and> R s t | _ \<Rightarrow> False)
     | Panic m \<Rightarrow> y = Panic m
     | _ \<Rightarrow> False)"

section \<open>Lemmas\<close>

lemmas spin_defs = initlock_def pushcli_def popcli_def holding_def xchg_locked_def
  acquire_def release_def upd_cpu_def upd_lock_def

lemma lock_inv_start: "lock_start l st \<Longrightarrow> lock_inv l st"
  by (auto simp: lock_start_def lock_inv_def own_inv_def cli_ok_def owns_def
      intro: exI[of _ None])

lemma lock_inv_irq:
  assumes "lock_inv l (s, pcs)" "pcs c = Out" "ncli (cpus s c) = 0"
  shows "lock_inv l (s\<lparr>cpus := (cpus s)(c := (cpus s c)\<lparr>eflags_if := b\<rparr>)\<rparr>, pcs)"
  using assms by (auto simp: lock_inv_def cli_ok_def)

text \<open>The effect of one atomic step on the lock, and on the processor's interrupt state.\<close>

lemma micro_lock:
  assumes "micro l c q s = Ret p s'"
  shows "(spinlocks s' l, p) = (case q of
      Out \<Rightarrow> (spinlocks s l, AcqCheck)
    | AcqCheck \<Rightarrow> (spinlocks s l, AcqXchg)
    | AcqXchg \<Rightarrow> ((spinlocks s l)\<lparr>locked := 1\<rparr>,
        if locked (spinlocks s l) \<noteq> 0 then AcqXchg else AcqSet)
    | AcqSet \<Rightarrow> ((spinlocks s l)\<lparr>lk_cpu := Some c\<rparr>, Crit)
    | Crit \<Rightarrow> (spinlocks s l, RelClear)
    | RelClear \<Rightarrow> ((spinlocks s l)\<lparr>lk_cpu := None\<rparr>, RelXchg)
    | RelXchg \<Rightarrow> ((spinlocks s l)\<lparr>locked := 0\<rparr>, RelPop)
    | RelPop \<Rightarrow> (spinlocks s l, Out))"
  using assms by (cases q) (auto simp: spin_defs kstep split: if_splits)

lemma micro_cpu:
  assumes "micro l c q s = Ret p s'"
  shows "cpus s' = (case q of
      Out \<Rightarrow> (cpus s)(c := (cpus s c)\<lparr>eflags_if := False, ncli := ncli (cpus s c) + 1,
        intena := (if ncli (cpus s c) = 0 then eflags_if (cpus s c) else intena (cpus s c))\<rparr>)
    | RelPop \<Rightarrow> (cpus s)(c := (cpus s c)\<lparr>ncli := ncli (cpus s c) - 1,
        eflags_if := (ncli (cpus s c) = 1 \<and> intena (cpus s c))\<rparr>)
    | _ \<Rightarrow> cpus s)"
  using assms by (cases q) (auto simp: spin_defs kstep fun_eq_iff split: if_splits)

lemma micro_own:
  assumes inv: "own_inv (spinlocks s l) pcs w" and m: "micro l c (pcs c) s = Ret p s'"
  shows "\<exists>w'. own_inv (spinlocks s' l) (pcs(c := p)) w'"
proof -
  note eff = micro_lock[OF m]
  note [simp] = own_inv_def owns_def
  have wc: "owns (pcs c) \<longleftrightarrow> w = Some c" using inv by (simp del: owns_def)
  show ?thesis
  proof (cases "pcs c")
    case AcqXchg
    show ?thesis
    proof (cases "locked (spinlocks s l) = 0")
      case True
      then have "own_inv (spinlocks s' l) (pcs(c := p)) (Some c)"
        using inv eff AcqXchg by auto
      then show ?thesis ..
    next
      case False
      then have "own_inv (spinlocks s' l) (pcs(c := p)) w"
        using inv eff AcqXchg wc by auto
      then show ?thesis ..
    qed
  next
    case RelXchg
    then have "own_inv (spinlocks s' l) (pcs(c := p)) None"
      using inv eff wc by auto
    then show ?thesis ..
  qed (use inv eff wc in \<open>auto intro!: exI[of _ w]\<close>)
qed

lemma micro_cli:
  assumes "\<forall>c. cli_ok (cpus s c) \<and> (pcs c \<noteq> Out \<longrightarrow> 0 < ncli (cpus s c))"
    and "micro l c (pcs c) s = Ret p s'"
  shows "\<forall>d. cli_ok (cpus s' d) \<and> ((pcs(c := p)) d \<noteq> Out \<longrightarrow> 0 < ncli (cpus s' d))"
  using assms(1) micro_cpu[OF assms(2)] micro_lock[OF assms(2)]
  by (cases "pcs c") (auto simp: cli_ok_def split: if_splits)

lemma lock_inv_step: "lstep l st st' \<Longrightarrow> lock_inv l st \<Longrightarrow> lock_inv l st'"
proof (induction rule: lstep.induct)
  case (cpu_moves c pcs s p s')
  then show ?case
    using micro_own micro_cli unfolding lock_inv_def fst_conv snd_conv by blast
next
  case (irq_flag pcs c s b)
  then show ?case by (simp add: lock_inv_irq)
qed

lemma lreach_inv: "lreach l st \<Longrightarrow> lock_inv l st"
  by (induction rule: lreach.induct) (auto intro: lock_inv_start lock_inv_step)

lemma lreachE:
  assumes "lreach l (s, pcs)"
  obtains w where "own_inv (spinlocks s l) pcs w"
    and "\<And>c. cli_ok (cpus s c)" and "\<And>c. pcs c \<noteq> Out \<Longrightarrow> 0 < ncli (cpus s c)"
  using lreach_inv[OF assms] by (auto simp: lock_inv_def)

text \<open>Matched \<^verbatim>\<open>pushcli\<close>/\<^verbatim>\<open>popcli\<close> calls.\<close>

fun pushes :: "nat \<Rightarrow> nat \<Rightarrow> (smp, unit) kernel" where
  "pushes c 0 = ret ()"
| "pushes c (Suc n) = thn (pushcli c) (pushes c n)"

fun pops :: "nat \<Rightarrow> nat \<Rightarrow> (smp, unit) kernel" where
  "pops c 0 = ret ()"
| "pops c (Suc n) = thn (popcli c) (pops c n)"

lemma pushcli_effect:
  "pushcli c s = Ret () (s\<lparr>cpus := (cpus s)(c := (cpus s c)\<lparr>eflags_if := False,
     ncli := ncli (cpus s c) + 1,
     intena := (if ncli (cpus s c) = 0 then eflags_if (cpus s c) else intena (cpus s c))\<rparr>)\<rparr>)"
  by (simp add: spin_defs kstep)

lemma popcli_effect:
  assumes "\<not> eflags_if (cpus s c)" and "0 < ncli (cpus s c)"
  shows "popcli c s = Ret () (s\<lparr>cpus := (cpus s)(c := (cpus s c)\<lparr>ncli := ncli (cpus s c) - 1,
     eflags_if := (ncli (cpus s c) = 1 \<and> intena (cpus s c))\<rparr>)\<rparr>)"
  using assms by (cases "cpus s c") (auto simp: spin_defs kstep)

lemma runs_pushes:
  assumes "0 \<le> ncli (cpus s c)" and "0 < n"
  shows "runs (pushes c n) s (\<lambda>_ s'. \<not> eflags_if (cpus s' c)
     \<and> ncli (cpus s' c) = ncli (cpus s c) + int n
     \<and> intena (cpus s' c) =
         (if ncli (cpus s c) = 0 then eflags_if (cpus s c) else intena (cpus s c)))"
  using assms
proof (induction n arbitrary: s)
  case (Suc n)
  show ?case
  proof (cases "n = 0")
    case True
    then show ?thesis by (simp add: runs_Ret[OF pushcli_effect])
  next
    case False
    define s1 where "s1 = s\<lparr>cpus := (cpus s)(c := (cpus s c)\<lparr>eflags_if := False,
      ncli := ncli (cpus s c) + 1,
      intena := (if ncli (cpus s c) = 0 then eflags_if (cpus s c) else intena (cpus s c))\<rparr>)\<rparr>"
    have "runs (pushes c n) s1 (\<lambda>_ s'. \<not> eflags_if (cpus s' c)
       \<and> ncli (cpus s' c) = ncli (cpus s1 c) + int n
       \<and> intena (cpus s' c) =
           (if ncli (cpus s1 c) = 0 then eflags_if (cpus s1 c) else intena (cpus s1 c)))"
      using Suc.prems False by (intro Suc.IH) (simp_all add: s1_def)
    then have "runs (pushes c n) s1 (\<lambda>_ s'. \<not> eflags_if (cpus s' c)
       \<and> ncli (cpus s' c) = ncli (cpus s c) + int (Suc n)
       \<and> intena (cpus s' c) =
           (if ncli (cpus s c) = 0 then eflags_if (cpus s c) else intena (cpus s c)))"
      using Suc.prems by (elim runs_mono) (auto simp: s1_def)
    then show ?thesis by (simp add: runs_Ret[OF pushcli_effect] s1_def)
  qed
qed simp

lemma runs_pops:
  assumes "\<not> eflags_if (cpus s c)" and "int n \<le> ncli (cpus s c)" and "0 < n"
  shows "runs (pops c n) s (\<lambda>_ s'. ncli (cpus s' c) = ncli (cpus s c) - int n
     \<and> eflags_if (cpus s' c) = (ncli (cpus s c) = int n \<and> intena (cpus s c)))"
  using assms
proof (induction n arbitrary: s)
  case (Suc n)
  have pop: "runs (popcli c) s Q = Q () (s\<lparr>cpus := (cpus s)(c := (cpus s c)
      \<lparr>ncli := ncli (cpus s c) - 1, eflags_if := (ncli (cpus s c) = 1 \<and> intena (cpus s c))\<rparr>)\<rparr>)" for Q
    using Suc.prems by (intro runs_Ret popcli_effect) auto
  show ?case
  proof (cases "n = 0")
    case True
    then show ?thesis by (simp add: pop)
  next
    case False
    define s1 where "s1 = s\<lparr>cpus := (cpus s)(c := (cpus s c)
      \<lparr>ncli := ncli (cpus s c) - 1, eflags_if := (ncli (cpus s c) = 1 \<and> intena (cpus s c))\<rparr>)\<rparr>"
    have "runs (pops c n) s1 (\<lambda>_ s'. ncli (cpus s' c) = ncli (cpus s1 c) - int n
       \<and> eflags_if (cpus s' c) = (ncli (cpus s1 c) = int n \<and> intena (cpus s1 c)))"
      using Suc.prems False by (intro Suc.IH) (simp_all add: s1_def)
    then have "runs (pops c n) s1 (\<lambda>_ s'. ncli (cpus s' c) = ncli (cpus s c) - int (Suc n)
       \<and> eflags_if (cpus s' c) = (ncli (cpus s c) = int (Suc n) \<and> intena (cpus s c)))"
      by (elim runs_mono) (auto simp: s1_def)
    then show ?thesis by (simp add: pop s1_def)
  qed
qed simp

text \<open>Running the atomic steps of one processor without interruption gives the routine.\<close>

lemma acquire_micro:
  "acquire c l = bnd (micro l c Out) (\<lambda>p. bnd (micro l c p) (\<lambda>p. bnd (micro l c p) (\<lambda>p.
     if p = AcqXchg then (\<lambda>s. Spin) else bnd (micro l c p) (\<lambda>_. ret ()))))"
  by (rule ext) (simp add: acquire_def spin_defs kstep)

lemma release_micro:
  "release c l = bnd (micro l c Crit) (\<lambda>p. bnd (micro l c p) (\<lambda>p. bnd (micro l c p) (\<lambda>p.
     bnd (micro l c p) (\<lambda>_. ret ()))))"
  by (rule ext) (simp add: release_def spin_defs kstep split: outcome.split)

section \<open>The lock interface\<close>

text \<open>
  What a client of the locks relies on: a lock that is not held can be acquired, one that
  is held can be released, and the two are inverse on the locks held and change nothing
  else of the client's state.
\<close>

locale lock_interface =
  fixes lock unlock :: "'l \<Rightarrow> ('s, unit) kernel"
    and holds :: "'s \<Rightarrow> 'l \<Rightarrow> bool"
    and lwf :: "'s \<Rightarrow> bool"
    and same :: "'s \<Rightarrow> 's \<Rightarrow> bool"
  assumes lock_ok: "lwf s \<Longrightarrow> \<not> holds s l \<Longrightarrow> runs (lock l) s
      (\<lambda>_ s'. lwf s' \<and> same s s' \<and> (\<forall>k. holds s' k \<longleftrightarrow> k = l \<or> holds s k))"
    and unlock_ok: "lwf s \<Longrightarrow> holds s l \<Longrightarrow> runs (unlock l) s
      (\<lambda>_ s'. lwf s' \<and> same s s' \<and> (\<forall>k. holds s' k \<longleftrightarrow> k \<noteq> l \<and> holds s k))"
    and lock_twice: "holds s l \<Longrightarrow> lock l s = Panic ''acquire''"
    and unlock_free: "\<not> holds s l \<Longrightarrow> unlock l s = Panic ''release''"
begin

text \<open>A critical section: the body runs with the lock and the lock is given back.\<close>

lemma critical_section:
  assumes "lwf s" and "\<not> holds s l"
    and body: "\<And>s1. lwf s1 \<Longrightarrow> same s s1 \<Longrightarrow> (\<forall>k. holds s1 k \<longleftrightarrow> k = l \<or> holds s k) \<Longrightarrow>
      runs m s1 (\<lambda>a s2. lwf s2 \<and> Q a s2 \<and> (\<forall>k. holds s2 k \<longleftrightarrow> holds s1 k))"
    and keep: "\<And>a s2 s3. Q a s2 \<Longrightarrow> same s2 s3 \<Longrightarrow> Q a s3"
  shows "runs (thn (lock l) (bnd m (\<lambda>a. thn (unlock l) (ret a)))) s
    (\<lambda>a s3. lwf s3 \<and> Q a s3 \<and> (\<forall>k. holds s3 k \<longleftrightarrow> holds s k))"
proof -
  have unl: "runs (unlock l) s2 (\<lambda>_ s3. lwf s3 \<and> Q a s3 \<and> (\<forall>k. holds s3 k \<longleftrightarrow> holds s k))"
    if q: "lwf s2" "Q a s2" and h: "\<forall>k. holds s2 k \<longleftrightarrow> k = l \<or> holds s k" for a s2
  proof -
    have "holds s2 l" using h by simp
    from unlock_ok[OF q(1) this] show ?thesis
      by (rule runs_mono) (use q h assms(2) keep in auto)
  qed
  have "runs m s1 (\<lambda>a s2. runs (unlock l) s2
      (\<lambda>_ s3. lwf s3 \<and> Q a s3 \<and> (\<forall>k. holds s3 k \<longleftrightarrow> holds s k)))"
    if "lwf s1" "same s s1" "\<forall>k. holds s1 k \<longleftrightarrow> k = l \<or> holds s k" for s1
    using body[OF that] by (rule runs_mono) (use unl that in auto)
  then show ?thesis
    unfolding runs_thn runs_bnd runs_ret
    by (intro runs_mono[OF lock_ok[OF assms(1,2)]]) blast
qed

text \<open>A lock taken inside its own critical section is reported.\<close>

lemma no_recursive_lock:
  assumes "lwf s" and "\<not> holds s l"
  shows "bnd (lock l) (\<lambda>_. lock l) s = Panic ''acquire''"
  using lock_ok[OF assms] by (auto simp: runs_iff kstep lock_twice)

end

text \<open>The held-lock list provides the interface.\<close>

lemma acq_run [kstep]:
  "acq l s = (if l \<in> set (held s) then Panic ''acquire'' else Ret () (s\<lparr>held := l # held s\<rparr>))"
  by (simp add: acq_def kstep)

lemma rel_run [kstep]:
  "rel l s = (if l \<in> set (held s) then Ret () (s\<lparr>held := remove1 l (held s)\<rparr>) else Panic ''release'')"
  by (simp add: rel_def kstep)

lemma runs_acq [simp]:
  "runs (acq l) s Q = (l \<notin> set (held s) \<and> Q () (s\<lparr>held := l # held s\<rparr>))"
  by (simp add: runs_def kstep)

lemma runs_rel [simp]:
  "runs (rel l) s Q = (l \<in> set (held s) \<and> Q () (s\<lparr>held := remove1 l (held s)\<rparr>))"
  by (simp add: runs_def kstep)

definition lks_holds :: "'x lkst_scheme \<Rightarrow> lockid \<Rightarrow> bool" where
  "lks_holds s l \<longleftrightarrow> l \<in> set (held s)"

definition lks_wf :: "'x lkst_scheme \<Rightarrow> bool" where
  "lks_wf s \<longleftrightarrow> distinct (held s)"

text \<open>States that differ in the locks held only.\<close>

definition same_but_locks :: "'x lkst_scheme \<Rightarrow> 'x lkst_scheme \<Rightarrow> bool" where
  "same_but_locks s s' \<longleftrightarrow> s\<lparr>held := []\<rparr> = s'\<lparr>held := []\<rparr>"

interpretation lk: lock_interface acq rel lks_holds lks_wf same_but_locks
  by unfold_locales (auto simp: lks_holds_def lks_wf_def same_but_locks_def kstep)

lemma lrep_acquire:
  assumes "lrep c s h" and "locked (spinlocks s l) = 0 \<or> l \<in> set (held h)"
  shows "refines (lrep c) (acquire c l s) (acq l h)"
  using assms
  by (auto simp: refines_def lrep_def acquire_def pushcli_effect holding_def xchg_locked_def
      upd_lock_def kstep)

lemma lrep_release:
  assumes "lrep c s h"
  shows "refines (lrep c) (release c l s) (rel l h)"
proof (cases "l \<in> set (held h)")
  case False
  with assms show ?thesis
    by (auto simp: refines_def lrep_def release_def holding_def kstep)
next
  case True
  define s1 where "s1 = s\<lparr>spinlocks := (spinlocks s)(l := (spinlocks s l)\<lparr>lk_cpu := None, locked := 0\<rparr>)\<rparr>"
  have len: "length (held h) = Suc (length (remove1 l (held h)))"
    using True length_pos_if_in_set[OF True] by (simp add: length_remove1)
  have "release c l s = popcli c s1"
    using assms True by (simp add: lrep_def release_def holding_def xchg_locked_def
      upd_lock_def kstep s1_def)
  moreover have "\<not> eflags_if (cpus s1 c)" "0 < ncli (cpus s1 c)"
    using assms True len by (auto simp: lrep_def s1_def)
  ultimately show ?thesis
    using assms True len
    by (auto simp: refines_def lrep_def popcli_effect kstep s1_def)
qed

section \<open>Properties\<close>

text \<open>
  C9 (mutual exclusion): in every reachable interleaving of any number of processors
  calling \<^verbatim>\<open>acquire\<close> and \<^verbatim>\<open>release\<close> on one lock, two processors that are both
  between the successful exchange and the clearing exchange are the same processor, and
  interrupts are off on it.
\<close>

theorem spinlock_mutual_exclusion:
  assumes "lreach l (s, pcs)" and "owns (pcs c)" and "owns (pcs d)"
  shows "c = d \<and> \<not> eflags_if (cpus s c)"
proof -
  from assms(1) obtain w where w: "own_inv (spinlocks s l) pcs w"
    and cli: "\<And>c. cli_ok (cpus s c)" "\<And>c. pcs c \<noteq> Out \<Longrightarrow> 0 < ncli (cpus s c)"
    by (rule lreachE) blast
  have "w = Some c" "w = Some d" using w assms(2,3) by (auto simp: own_inv_def)
  moreover have "pcs c \<noteq> Out" using assms(2) by (auto simp: owns_def)
  ultimately show ?thesis using cli(1)[of c] cli(2)[of c] by (auto simp: cli_ok_def)
qed

definition one_lock :: smp where
  "one_lock = \<lparr>cpus = (\<lambda>c. \<lparr>ncli = 0, intena = False, eflags_if = True\<rparr>),
     spinlocks = (\<lambda>l. \<lparr>locked = 0, lk_cpu = None\<rparr>)\<rparr>"

definition in_crit :: "smp \<times> (nat \<Rightarrow> pc)" where
  "in_crit = (one_lock
     \<lparr>cpus := (cpus one_lock)(1 := \<lparr>ncli = 1, intena = True, eflags_if = False\<rparr>),
      spinlocks := (spinlocks one_lock)(KmemLock := \<lparr>locked = 1, lk_cpu = Some 1\<rparr>)\<rparr>,
     (\<lambda>_. Out)(1 := Crit))"

lemma in_crit_reachable: "lreach KmemLock in_crit"
proof -
  let ?k = KmemLock
  have 0: "lreach ?k (one_lock, \<lambda>_. Out)"
    by (rule lreach.start) (simp add: lock_start_def one_lock_def)
  note move = lreach.step[OF _ lstep.cpu_moves[where c = 1]]
  have 1: "lreach ?k (one_lock
      \<lparr>cpus := (cpus one_lock)(1 := \<lparr>ncli = 1, intena = True, eflags_if = False\<rparr>)\<rparr>,
      (\<lambda>_. Out)(1 := AcqCheck))"
    by (rule move[OF 0]) (simp add: pushcli_effect kstep one_lock_def)
  have 2: "lreach ?k (one_lock
      \<lparr>cpus := (cpus one_lock)(1 := \<lparr>ncli = 1, intena = True, eflags_if = False\<rparr>)\<rparr>,
      (\<lambda>_. Out)(1 := AcqXchg))"
    using move[OF 1, of AcqXchg] by (simp add: spin_defs kstep one_lock_def)
  have 3: "lreach ?k (one_lock
      \<lparr>cpus := (cpus one_lock)(1 := \<lparr>ncli = 1, intena = True, eflags_if = False\<rparr>),
       spinlocks := (spinlocks one_lock)(?k := \<lparr>locked = 1, lk_cpu = None\<rparr>)\<rparr>,
      (\<lambda>_. Out)(1 := AcqSet))"
    using move[OF 2, of AcqSet] by (simp add: spin_defs kstep one_lock_def)
  show ?thesis
    using move[OF 3, of Crit] by (simp add: spin_defs kstep one_lock_def in_crit_def)
qed

theorem spinlock_mutual_exclusion_witness:
  "lreach KmemLock in_crit \<and> \<not> eflags_if (cpus (fst in_crit) 1)"
  using in_crit_reachable
    spinlock_mutual_exclusion[of KmemLock "fst in_crit" "snd in_crit" 1 1]
  by (simp add: owns_def in_crit_def)





text \<open>
  C29 (refinement of the lock interface): on a processor that holds the locks of the list
  \<open>h\<close>, \<^verbatim>\<open>acquire\<close> of a free or already held lock and \<^verbatim>\<open>release\<close> of any
  lock do what \<open>acq\<close> and \<open>rel\<close> do on the list, including their panics; in
  between the list again says exactly which locks the processor holds, how deep
  \<^verbatim>\<open>pushcli\<close> is nested and that interrupts are off.
\<close>

theorem acquire_release_refine:
  assumes "lrep c s h" and "locked (spinlocks s l) = 0 \<or> l \<in> set (held h)"
  shows "refines (lrep c) (acquire c l s) (acq l h) \<and> refines (lrep c) (release c k s) (rel k h)"
  using lrep_acquire[OF assms] lrep_release[OF assms(1)] by blast

theorem acquire_release_refine_witness:
  "refines (lrep 0) (acquire 0 PtableLock one_lock) (acq PtableLock \<lparr>held = []\<rparr>)
   \<and> refines (lrep 0) (release 0 PtableLock one_lock) (rel PtableLock \<lparr>held = []\<rparr>)"
  using acquire_release_refine[of 0 one_lock "\<lparr>held = []\<rparr>" PtableLock PtableLock]
  by (simp add: lrep_def one_lock_def)

end
