(* ===== verification/Cstring.thy ===== *)
theory Cstring
  imports Prelude "HOL-Library.Signed_Division"
begin

text \<open>
  Model of \<^verbatim>\<open>string.c\<close>.  Memory is a function from 32-bit addresses to bytes, so
  that \<^verbatim>\<open>memset\<close> and \<^verbatim>\<open>memmove\<close> see aliasing and wrap-around.  A routine that
  only reads through a pointer takes the bytes at and after it (\<open>nat \<Rightarrow> byte\<close>); a routine
  that fills a character array takes the array as a list.
\<close>

type_synonym memory = "uint \<Rightarrow> byte"

section \<open>Words in memory\<close>

definition load32 :: "memory \<Rightarrow> uint \<Rightarrow> uint" where
  "load32 m a = ucast (m a) OR push_bit 8 (ucast (m (a + 1)))
     OR push_bit 16 (ucast (m (a + 2))) OR push_bit 24 (ucast (m (a + 3)))"

definition store32 :: "memory \<Rightarrow> uint \<Rightarrow> uint \<Rightarrow> memory" where
  "store32 m a v = m(a := ucast v, a + 1 := ucast (drop_bit 8 v),
     a + 2 := ucast (drop_bit 16 v), a + 3 := ucast (drop_bit 24 v))"

section \<open>memset\<close>

text \<open>The string instructions \<^verbatim>\<open>rep stosb\<close> and \<^verbatim>\<open>rep stosl\<close> of \<^verbatim>\<open>x86.h\<close>.\<close>

fun stosb :: "memory \<Rightarrow> uint \<Rightarrow> uint \<Rightarrow> nat \<Rightarrow> memory" where
  "stosb m addr dat 0 = m"
| "stosb m addr dat (Suc cnt) = stosb (m(addr := ucast dat)) (addr + 1) dat cnt"

fun stosl :: "memory \<Rightarrow> uint \<Rightarrow> uint \<Rightarrow> nat \<Rightarrow> memory" where
  "stosl m addr dat 0 = m"
| "stosl m addr dat (Suc cnt) = stosl (store32 m addr dat) (addr + 4) dat cnt"

definition memset :: "memory \<Rightarrow> uint \<Rightarrow> uint \<Rightarrow> uint \<Rightarrow> memory" where
  "memset m dst c n =
     (if sint dst smod 4 = 0 \<and> n mod 4 = 0 then
        let c = c AND 0xFF in
        stosl m dst (push_bit 24 c OR push_bit 16 c OR push_bit 8 c OR c) (unat (n div 4))
      else stosb m dst c (unat n))"

section \<open>memcmp, memmove\<close>

fun memcmp_loop :: "(nat \<Rightarrow> byte) \<Rightarrow> (nat \<Rightarrow> byte) \<Rightarrow> nat \<Rightarrow> nat \<Rightarrow> int" where
  "memcmp_loop s1 s2 i 0 = 0"
| "memcmp_loop s1 s2 i (Suc n) =
     (if s1 i \<noteq> s2 i then uint (s1 i) - uint (s2 i) else memcmp_loop s1 s2 (Suc i) n)"

definition memcmp :: "(nat \<Rightarrow> byte) \<Rightarrow> (nat \<Rightarrow> byte) \<Rightarrow> uint \<Rightarrow> int" where
  "memcmp v1 v2 n = memcmp_loop v1 v2 0 (unat n)"

fun copy_up :: "memory \<Rightarrow> uint \<Rightarrow> uint \<Rightarrow> nat \<Rightarrow> memory" where
  "copy_up m d s 0 = m"
| "copy_up m d s (Suc n) = copy_up (m(d := m s)) (d + 1) (s + 1) n"

fun copy_down :: "memory \<Rightarrow> uint \<Rightarrow> uint \<Rightarrow> nat \<Rightarrow> memory" where
  "copy_down m d s 0 = m"
| "copy_down m d s (Suc n) = copy_down (m(d - 1 := m (s - 1))) (d - 1) (s - 1) n"

definition memmove :: "memory \<Rightarrow> uint \<Rightarrow> uint \<Rightarrow> uint \<Rightarrow> memory" where
  "memmove m dst src n =
     (if src < dst \<and> dst < src + n then copy_down m (dst + n) (src + n) (unat n)
      else copy_up m dst src (unat n))"

definition memcpy :: "memory \<Rightarrow> uint \<Rightarrow> uint \<Rightarrow> uint \<Rightarrow> memory" where
  "memcpy m dst src n = memmove m dst src n"

section \<open>Strings\<close>

fun strncmp_loop :: "(nat \<Rightarrow> byte) \<Rightarrow> (nat \<Rightarrow> byte) \<Rightarrow> nat \<Rightarrow> nat \<Rightarrow> int" where
  "strncmp_loop p q i 0 = 0"
| "strncmp_loop p q i (Suc n) =
     (if p i \<noteq> 0 \<and> p i = q i then strncmp_loop p q (Suc i) n
      else uint (p i) - uint (q i))"

definition strncmp :: "(nat \<Rightarrow> byte) \<Rightarrow> (nat \<Rightarrow> byte) \<Rightarrow> nat \<Rightarrow> int" where
  "strncmp p q n = strncmp_loop p q 0 n"

text \<open>
  The two loops of \<^verbatim>\<open>strncpy\<close>: copy up to and including the terminating zero, then
  pad with zeros.  \<open>i\<close> is the number of bytes already written, \<open>n\<close> how many of the
  array are left.
\<close>

fun zero_fill :: "byte list \<Rightarrow> nat \<Rightarrow> nat \<Rightarrow> byte list" where
  "zero_fill s i 0 = s"
| "zero_fill s i (Suc n) = zero_fill (s[i := 0]) (Suc i) n"

fun strncpy_loop :: "byte list \<Rightarrow> (nat \<Rightarrow> byte) \<Rightarrow> nat \<Rightarrow> nat \<Rightarrow> byte list" where
  "strncpy_loop s t i 0 = s"
| "strncpy_loop s t i (Suc n) =
     (if t i \<noteq> 0 then strncpy_loop (s[i := t i]) t (Suc i) n
      else zero_fill (s[i := 0]) (Suc i) n)"

definition strncpy :: "byte list \<Rightarrow> (nat \<Rightarrow> byte) \<Rightarrow> nat \<Rightarrow> byte list" where
  "strncpy s t n = strncpy_loop s t 0 n"

fun safestrcpy_loop :: "byte list \<Rightarrow> (nat \<Rightarrow> byte) \<Rightarrow> nat \<Rightarrow> nat \<Rightarrow> byte list" where
  "safestrcpy_loop s t i 0 = s[i := 0]"
| "safestrcpy_loop s t i (Suc n) =
     (if t i \<noteq> 0 then safestrcpy_loop (s[i := t i]) t (Suc i) n
      else (s[i := 0])[Suc i := 0])"

definition safestrcpy :: "byte list \<Rightarrow> (nat \<Rightarrow> byte) \<Rightarrow> nat \<Rightarrow> byte list" where
  "safestrcpy s t n = (if n = 0 then s else safestrcpy_loop s t 0 (n - 1))"

text \<open>\<^verbatim>\<open>strlen\<close> runs until it meets a zero byte; without one it does not return.\<close>

partial_function (option) strlen_loop :: "(nat \<Rightarrow> byte) \<Rightarrow> nat \<Rightarrow> nat option" where
  "strlen_loop s n = (if s n \<noteq> 0 then strlen_loop s (Suc n) else Some n)"

definition strlen :: "(nat \<Rightarrow> byte) \<Rightarrow> nat option" where
  "strlen s = strlen_loop s 0"

text \<open>The bytes of a string literal, with its terminating zero, and the reader of an array.\<close>

definition lit :: "string \<Rightarrow> byte list" where
  "lit xs = map of_char xs @ [0]"

definition rd :: "byte list \<Rightarrow> nat \<Rightarrow> byte" where
  "rd xs i = (if i < length xs then xs ! i else 0)"

section \<open>Lemmas\<close>

lemma load32_store32: "load32 (store32 m a v) a = v"
proof (rule bit_word_eqI)
  fix n assume "n < LENGTH(32)"
  then show "bit (load32 (store32 m a v) a) n = bit v n"
    by (cases "n < 8"; cases "n < 16"; cases "n < 24")
      (auto simp: load32_def store32_def bit_simps)
qed

lemma store32_apply:
  "store32 m a v x = (if x = a then ucast v else if x = a + 1 then ucast (drop_bit 8 v)
     else if x = a + 2 then ucast (drop_bit 16 v) else if x = a + 3 then ucast (drop_bit 24 v)
     else m x)"
  by (auto simp: store32_def)

lemma unat_pred_less:
  assumes "x \<noteq> (0::uint)"
  shows "unat (x - 1) < n \<longleftrightarrow> unat x < Suc n"
proof -
  have "0 < unat x" using assms by (simp add: unat_gt_0)
  moreover have "unat (x - 1) = unat x - 1" using assms by (rule unat_minus_one)
  ultimately show ?thesis by arith
qed

lemma stosb_apply:
  "cnt \<le> 2 ^ 32 \<Longrightarrow> stosb m addr dat cnt a = (if unat (a - addr) < cnt then ucast dat else m a)"
proof (induction cnt arbitrary: m addr)
  case (Suc cnt)
  then have IH: "stosb (m(addr := ucast dat)) (addr + 1) dat cnt a =
      (if unat (a - addr - 1) < cnt then ucast dat else (m(addr := ucast dat)) a)"
    by (simp add: diff_diff_add)
  show ?case
  proof (cases "a = addr")
    case True
    with IH show ?thesis by simp
  next
    case False
    then have "a - addr \<noteq> 0" by simp
    from unat_pred_less[OF this] False IH show ?thesis by simp
  qed
qed simp

text \<open>The replicated byte of the aligned branch.\<close>

lemma store32_rep:
  "store32 m a (push_bit 24 c OR push_bit 16 c OR push_bit 8 c OR c) x =
     (if unat (x - a) < 4 then ucast c else m x)" if "c = c AND 0xFF" for c :: uint
proof -
  have c8: "bit c n \<Longrightarrow> n < 8" for n
  proof -
    assume "bit c n"
    then have "bit (c AND mask 8) n" using that by (simp add: mask_eq_exp_minus_1)
    then show "n < 8" by (simp add: bit_simps)
  qed
  let ?v = "push_bit 24 c OR push_bit 16 c OR push_bit 8 c OR c"
  have b: "(ucast ?v :: byte) = ucast c" "(ucast (drop_bit 8 ?v) :: byte) = ucast c"
    "(ucast (drop_bit 16 ?v) :: byte) = ucast c" "(ucast (drop_bit 24 ?v) :: byte) = ucast c"
    by (rule bit_word_eqI, use c8 in \<open>force simp: bit_simps\<close>)+
  have "unat (x - a) < 4 \<longleftrightarrow> unat (x - a) = 0 \<or> unat (x - a) = 1 \<or> unat (x - a) = 2 \<or> unat (x - a) = 3"
    by arith
  also have "\<dots> \<longleftrightarrow> x - a = 0 \<or> x - a = 1 \<or> x - a = 2 \<or> x - a = 3"
    by (simp add: word_unat_eq_iff)
  also have "\<dots> \<longleftrightarrow> x = a \<or> x = a + 1 \<or> x = a + 2 \<or> x = a + 3"
    by (auto simp: diff_eq_eq add.commute)
  finally show ?thesis unfolding store32_apply b by auto
qed

lemma unat_minus_small:
  assumes "unat (k :: uint) \<le> unat x"
  shows "unat (x - k) = unat x - unat k"
  using assms by (simp add: unat_sub word_le_nat_alt)

lemma stosl_rep:
  assumes "c = c AND 0xFF" and "4 * cnt \<le> 2 ^ 32"
  shows "stosl m addr (push_bit 24 c OR push_bit 16 c OR push_bit 8 c OR c) cnt a =
    (if unat (a - addr) < 4 * cnt then ucast c else m a)"
  using assms(2)
proof (induction cnt arbitrary: m addr)
  case (Suc cnt)
  let ?v = "push_bit 24 c OR push_bit 16 c OR push_bit 8 c OR c"
  have IH: "stosl (store32 m addr ?v) (addr + 4) ?v cnt a =
      (if unat (a - addr - 4) < 4 * cnt then ucast c else store32 m addr ?v a)"
    using Suc by (simp add: diff_diff_add)
  show ?case
  proof (cases "unat (a - addr) < 4")
    case True
    then show ?thesis using IH by (simp add: store32_rep[OF assms(1)])
  next
    case False
    then have "unat (a - addr - 4) = unat (a - addr) - 4"
      using unat_minus_small[of 4 "a - addr"] by simp
    with False show ?thesis using IH by (auto simp: store32_rep[OF assms(1)])
  qed
qed simp

lemma memset_apply: "memset m dst c n a = (if unat (a - dst) < unat n then ucast c else m a)"
proof (cases "sint dst smod 4 = 0 \<and> n mod 4 = 0")
  case True
  have "unat n mod 4 = unat (n mod 4)" by (simp add: unat_mod_distrib)
  then have "4 * (unat n div 4) = unat n" using True by auto
  moreover have "unat (n div 4) = unat n div 4" by (simp add: unat_div_distrib)
  ultimately have n4: "4 * unat (n div 4) = unat n" by simp
  then have le: "4 * unat (n div 4) \<le> 2 ^ 32" using unat_lt32[of n] by simp
  have uc: "ucast (c AND 0xFF) = (ucast c :: byte)"
  proof -
    have "c AND 0xFF = take_bit 8 c" by (simp add: take_bit_eq_mask mask_eq_exp_minus_1)
    then show ?thesis by (simp only:) (rule bit_word_eqI, simp add: bit_simps)
  qed
  have idem: "(c AND 0xFF) = (c AND 0xFF) AND 0xFF" by (simp add: and.assoc)
  show ?thesis
    unfolding memset_def if_P[OF True] Let_def stosl_rep[OF idem le] n4 uc ..
next
  case False
  then show ?thesis
    using stosb_apply[of "unat n" m dst c a] unat_lt32[of n]
    by (auto simp: memset_def)
qed

text \<open>
  Copying upwards is right unless an earlier write hits a byte still to be read; copying
  downwards unless a later one does.
\<close>

lemma copy_up_apply:
  assumes "n \<le> 2 ^ 32"
    and "\<And>i j. j < i \<Longrightarrow> i < n \<Longrightarrow> s + of_nat i \<noteq> d + of_nat j"
  shows "copy_up m d s n a = (if unat (a - d) < n then m (s + (a - d)) else m a)"
  using assms
proof (induction n arbitrary: m d s)
  case (Suc n)
  have "s + 1 + of_nat i \<noteq> d + 1 + of_nat j" if "j < i" "i < n" for i j
    using Suc.prems(2)[of "Suc j" "Suc i"] that by (simp add: algebra_simps)
  then have IH: "copy_up (m(d := m s)) (d + 1) (s + 1) n a =
      (if unat (a - (d + 1)) < n then (m(d := m s)) (s + 1 + (a - (d + 1))) else (m(d := m s)) a)"
    using Suc.prems(1) by (intro Suc.IH) auto
  show ?case
  proof (cases "a = d")
    case True
    with IH show ?thesis by auto
  next
    case False
    then have ne: "a - d \<noteq> 0" by simp
    have lt: "unat (a - (d + 1)) < n \<longleftrightarrow> unat (a - d) < Suc n"
      using unat_pred_less[OF ne] by (simp add: diff_diff_add)
    have "s + (a - d) \<noteq> d" if "unat (a - d) < Suc n"
      using Suc.prems(2)[of 0 "unat (a - d)"] that ne by (auto simp: unat_gt_0)
    with IH lt False show ?thesis by (auto simp: algebra_simps)
  qed
qed simp

lemma copy_down_apply:
  assumes "n \<le> 2 ^ 32"
    and "\<And>i j. i < j \<Longrightarrow> j < n \<Longrightarrow> s + of_nat i \<noteq> d + of_nat j"
  shows "copy_down m (d + of_nat n) (s + of_nat n) n a =
    (if unat (a - d) < n then m (s + (a - d)) else m a)"
  using assms
proof (induction n arbitrary: m)
  case (Suc n)
  let ?m = "m(d + of_nat n := m (s + of_nat n))"
  have IH: "copy_down ?m (d + of_nat n) (s + of_nat n) n a =
      (if unat (a - d) < n then ?m (s + (a - d)) else ?m a)"
    using Suc.prems by (intro Suc.IH) auto
  have un: "unat (of_nat n :: uint) = n" using Suc.prems(1) by (simp add: unat_of_nat32)
  have eqn: "a = d + of_nat n \<longleftrightarrow> unat (a - d) = n"
  proof
    assume "unat (a - d) = n"
    from this[symmetric] have "a - d = of_nat n" by simp
    then show "a = d + of_nat n" by (simp add: diff_eq_eq add.commute)
  qed (use un in simp)
  have "s + (a - d) \<noteq> d + of_nat n" if "unat (a - d) < n"
    using Suc.prems(2)[of "unat (a - d)" n] that by simp
  with IH eqn show ?case by (auto simp: algebra_simps)
qed simp

text \<open>Offsets from two addresses that do not wrap around.\<close>

lemma unat_add_of_nat:
  assumes "unat (a :: uint) + k < 2 ^ 32"
  shows "unat (a + of_nat k) = unat a + k"
  using assms by (simp add: unat_word_ariths unat_of_nat)

lemma offsets_differ:
  assumes "unat s + i < 2 ^ 32" and "unat d + j < 2 ^ 32" and "unat s + i \<noteq> unat d + j"
  shows "s + of_nat i \<noteq> (d + of_nat j :: uint)"
  using assms unat_add_of_nat by metis

section \<open>Strings as lists\<close>

text \<open>The bytes of a string of at most \<open>n\<close> bytes, without the terminating zero.\<close>

definition cprefix :: "(nat \<Rightarrow> byte) \<Rightarrow> nat \<Rightarrow> byte list" where
  "cprefix p n = takeWhile (\<lambda>b. b \<noteq> 0) (map p [0..<n])"

lemma upt_split_first: "[i..<i + Suc n] = i # [Suc i..<Suc i + n]"
  by (simp add: upt_conv_Cons del: upt_Suc)

lemma strncmp_loop_iff:
  "strncmp_loop p q i n = 0 \<longleftrightarrow>
     takeWhile (\<lambda>b. b \<noteq> 0) (map p [i..<i + n]) = takeWhile (\<lambda>b. b \<noteq> 0) (map q [i..<i + n])"
proof (induction n arbitrary: i)
  case (Suc n)
  from Suc[of "Suc i"] show ?case
    unfolding upt_split_first
    by (auto simp: word_uint_eq_iff)
qed simp

lemma zero_fill_eq:
  "i + n \<le> length s \<Longrightarrow> zero_fill s i n = take i s @ replicate n 0 @ drop (i + n) s"
proof (induction n arbitrary: s i)
  case (Suc n)
  then have "zero_fill (s[i := 0]) (Suc i) n
      = take (Suc i) (s[i := 0]) @ replicate n 0 @ drop (Suc i + n) (s[i := 0])"
    by simp
  moreover have "take (Suc i) (s[i := 0]) = take i s @ [0]"
    using Suc.prems by (simp add: take_Suc_conv_app_nth)
  ultimately show ?case by simp
qed simp

lemma strncpy_loop_eq:
  assumes "i + n \<le> length s"
  shows "strncpy_loop s t i n =
    (let c = takeWhile (\<lambda>b. b \<noteq> 0) (map t [i..<i + n])
     in take i s @ c @ replicate (n - length c) 0 @ drop (i + n) s)"
  using assms
proof (induction n arbitrary: s i)
  case (Suc n)
  have tk: "take (Suc i) (s[i := b]) = take i s @ [b]" for b
    using Suc.prems by (simp add: take_Suc_conv_app_nth)
  show ?case
  proof (cases "t i = 0")
    case True
    then show ?thesis
      using Suc.prems zero_fill_eq[of "Suc i" n "s[i := 0]"] tk
      unfolding upt_split_first by simp
  next
    case False
    then show ?thesis
      using Suc.prems Suc.IH[of "Suc i" "s[i := t i]"] tk
      unfolding upt_split_first by (simp add: Let_def)
  qed
qed simp

lemma safestrcpy_loop_length [simp]: "length (safestrcpy_loop s t i n) = length s"
  by (induction n arbitrary: s i) auto

lemma safestrcpy_loop_drop:
  "i + n < k \<Longrightarrow> drop k (safestrcpy_loop s t i n) = drop k s"
  by (induction n arbitrary: s i) auto

lemma safestrcpy_loop_take:
  assumes "i + n < length s"
  shows "takeWhile (\<lambda>b. b \<noteq> 0) (drop i (safestrcpy_loop s t i n))
      = takeWhile (\<lambda>b. b \<noteq> 0) (map t [i..<i + n])
    \<and> take i (safestrcpy_loop s t i n) = take i s
    \<and> 0 \<in> set (take (Suc n) (drop i (safestrcpy_loop s t i n)))"
  using assms
proof (induction n arbitrary: s i)
  case 0
  then show ?case by (simp add: drop_update_swap drop_Suc_Cons Cons_nth_drop_Suc[symmetric])
next
  case (Suc n)
  show ?case
  proof (cases "t i = 0")
    case True
    let ?r = "s[i := 0, Suc i := 0]"
    have "drop i ?r = 0 # drop (Suc i) ?r"
      using Suc.prems by (simp flip: Cons_nth_drop_Suc)
    then show ?thesis using True unfolding upt_split_first by simp
  next
    case False
    let ?r = "safestrcpy_loop (s[i := t i]) t (Suc i) n"
    have IH: "takeWhile (\<lambda>b. b \<noteq> 0) (drop (Suc i) ?r)
          = takeWhile (\<lambda>b. b \<noteq> 0) (map t [Suc i..<Suc i + n])"
        "take (Suc i) ?r = take (Suc i) (s[i := t i])"
        "0 \<in> set (take (Suc n) (drop (Suc i) ?r))"
      using Suc.IH[of "Suc i" "s[i := t i]"] Suc.prems by auto
    have "?r ! i = t i"
      using arg_cong[OF IH(2), of "\<lambda>xs. xs ! i"] Suc.prems by simp
    then have d: "drop i ?r = t i # drop (Suc i) ?r"
      using Suc.prems by (simp flip: Cons_nth_drop_Suc)
    have "take i ?r = take i s"
      using arg_cong[OF IH(2), of "take i"] by (simp add: min_def)
    then show ?thesis using False d IH unfolding upt_split_first by simp
  qed
qed

lemma strlen_loop_Some: "s (n + k) = 0 \<Longrightarrow> (\<And>j. j < k \<Longrightarrow> s (n + j) \<noteq> 0) \<Longrightarrow>
  strlen_loop s n = Some (n + k)"
proof (induction k arbitrary: n)
  case 0
  then show ?case by (subst strlen_loop.simps) simp
next
  case (Suc k)
  have "s n \<noteq> 0" using Suc.prems(2)[of 0] by simp
  moreover have "strlen_loop s (Suc n) = Some (Suc n + k)"
    using Suc.prems(1) Suc.prems(2)[of "Suc j" for j] by (intro Suc.IH) auto
  ultimately show ?case by (subst strlen_loop.simps) simp
qed

lemma strlen_cprefix:
  assumes "s k = 0"
  shows "strlen s = Some (length (cprefix s k))"
proof -
  define j where "j = (LEAST j. s j = 0)"
  have z: "s j = 0" unfolding j_def by (rule LeastI[of _ k]) (rule assms)
  have nz: "s i \<noteq> 0" if "i < j" for i using not_less_Least that unfolding j_def by blast
  have le: "j \<le> k" unfolding j_def by (rule Least_le) (rule assms)
  have "strlen s = Some j"
    unfolding strlen_def using strlen_loop_Some[of s 0 j] z nz by simp
  moreover have "takeWhile (\<lambda>b. b \<noteq> 0) (map s [0..<k]) = take j (map s [0..<k])"
    using z nz by (intro takeWhile_eq_take_P_nth) auto
  then have "length (cprefix s k) = j" using le by (simp add: cprefix_def)
  ultimately show ?thesis by simp
qed

lemma cprefix_rd_append:
  assumes "length xs \<le> n" and "\<forall>b \<in> set xs. b \<noteq> 0"
  shows "cprefix (rd (xs @ replicate (n - length xs) 0 @ ys)) n = xs"
proof -
  let ?l = "xs @ replicate (n - length xs) 0 @ ys"
  have "takeWhile (\<lambda>b. b \<noteq> 0) (map (rd ?l) [0..<n]) = take (length xs) (map (rd ?l) [0..<n])"
  proof (rule takeWhile_eq_take_P_nth)
    fix i assume "i < length xs" "i < length (map (rd ?l) [0..<n])"
    then show "map (rd ?l) [0..<n] ! i \<noteq> 0" using assms by (auto simp: rd_def nth_append)
  next
    assume "length xs < length (map (rd ?l) [0..<n])"
    then show "\<not> map (rd ?l) [0..<n] ! length xs \<noteq> 0" by (auto simp: rd_def nth_append)
  qed
  also have "\<dots> = xs"
    by (rule nth_equalityI) (use assms in \<open>auto simp: rd_def nth_append\<close>)
  finally show ?thesis by (simp add: cprefix_def)
qed

lemma cprefix_bounds: "length (cprefix p n) \<le> n" "\<forall>b \<in> set (cprefix p n). b \<noteq> 0"
  using length_takeWhile_le[of "\<lambda>b. b \<noteq> 0" "map p [0..<n]"] set_takeWhileD[of _ "\<lambda>b. b \<noteq> 0"]
  by (auto simp: cprefix_def)

section \<open>Properties\<close>

text \<open>
  Memset: whichever of its two branches it takes (long words for an aligned block,
  bytes otherwise), \<^verbatim>\<open>memset\<close> stores the low byte of \<^verbatim>\<open>c\<close> into the
  \<^verbatim>\<open>n\<close> bytes from \<^verbatim>\<open>dst\<close> on and changes no other byte.
\<close>

theorem memset_correct:
  "memset m dst c n = (\<lambda>a. if unat (a - dst) < unat n then ucast c else m a)"
  by (rule ext) (rule memset_apply)

text \<open>
  Memmove: the destination receives the bytes the source had before the call, also
  when the two areas overlap, and no other byte changes.  The areas must not wrap around
  the address space, and the source must end below its last address (its end is compared
  as a 32-bit address).
\<close>

theorem memmove_correct:
  assumes "unat src + unat n < 2 ^ 32" and "unat dst + unat n \<le> 2 ^ 32"
  shows "memmove m dst src n =
    (\<lambda>a. if unat (a - dst) < unat n then m (src + (a - dst)) else m a)"
proof (rule ext)
  fix a
  have n32: "unat n \<le> 2 ^ 32" using assms(1) by simp
  have end_src: "unat (src + n) = unat src + unat n"
    using unat_add_of_nat[of src "unat n"] assms(1) by simp
  show "memmove m dst src n a = (if unat (a - dst) < unat n then m (src + (a - dst)) else m a)"
  proof (cases "src < dst \<and> dst < src + n")
    case True
    then have "src + of_nat i \<noteq> dst + of_nat j" if "i < j" "j < unat n" for i j
      using that assms by (intro offsets_differ) (auto simp: word_less_nat_alt)
    from copy_down_apply[OF n32 this, of m a] True show ?thesis
      by (simp add: memmove_def)
  next
    case False
    then have "src + of_nat i \<noteq> dst + of_nat j" if "j < i" "i < unat n" for i j
      using that assms end_src by (intro offsets_differ) (auto simp: word_less_nat_alt)
    from copy_up_apply[OF n32 this, of m a] show ?thesis
      unfolding memmove_def if_not_P[OF False] .
  qed
qed

theorem memmove_correct_witness:
  "memmove (\<lambda>a. ucast a) 12 10 4 =
    (\<lambda>a. if unat (a - 12) < unat (4 :: uint) then ucast (10 + (a - 12)) else ucast a)"
  by (rule memmove_correct) simp_all

text \<open>
  String comparison: \<^verbatim>\<open>strncmp\<close> returns zero exactly when the two strings agree
  up to their terminating zero or up to \<open>n\<close> bytes, whichever comes first.
\<close>

theorem strncmp_zero_iff: "strncmp p q n = 0 \<longleftrightarrow> cprefix p n = cprefix q n"
  using strncmp_loop_iff[of p q 0 n] by (simp add: strncmp_def cprefix_def)

text \<open>
  String copies: into an array of at least \<open>n\<close> bytes, \<^verbatim>\<open>strncpy\<close> writes the
  string, pads the rest of the \<open>n\<close> bytes with zeros and leaves what follows alone, so
  that \<^verbatim>\<open>strncmp\<close> finds the copy equal to the original; \<^verbatim>\<open>safestrcpy\<close> writes at
  most \<open>n - 1\<close> bytes of the string, always leaves a terminating zero among the first
  \<open>n\<close> bytes, and leaves what follows alone.
\<close>

theorem string_copies:
  assumes "0 < n" and "n \<le> length s"
  shows "strncpy s t n = cprefix t n @ replicate (n - length (cprefix t n)) 0 @ drop n s
    \<and> strncmp (rd (strncpy s t n)) t n = 0
    \<and> takeWhile (\<lambda>b. b \<noteq> 0) (safestrcpy s t n) = cprefix t (n - 1)
    \<and> 0 \<in> set (take n (safestrcpy s t n))
    \<and> drop n (safestrcpy s t n) = drop n s"
proof -
  have cpy: "strncpy s t n = cprefix t n @ replicate (n - length (cprefix t n)) 0 @ drop n s"
    using assms strncpy_loop_eq[of 0 n s t] by (simp add: strncpy_def cprefix_def Let_def)
  then have "cprefix (rd (strncpy s t n)) n = cprefix t n"
    using cprefix_rd_append cprefix_bounds by simp
  then have cmp: "strncmp (rd (strncpy s t n)) t n = 0"
    using strncmp_loop_iff[of "rd (strncpy s t n)" t 0 n] by (simp add: strncmp_def cprefix_def)
  obtain m where m: "n = Suc m" using assms(1) by (cases n) auto
  have "takeWhile (\<lambda>b. b \<noteq> 0) (safestrcpy s t n) = cprefix t (n - 1)
      \<and> 0 \<in> set (take n (safestrcpy s t n))"
    using safestrcpy_loop_take[of 0 m s t] assms m by (simp add: safestrcpy_def cprefix_def)
  moreover have "drop n (safestrcpy s t n) = drop n s"
    using safestrcpy_loop_drop[of 0 m n s t] m by (simp add: safestrcpy_def)
  ultimately show ?thesis using cpy cmp by blast
qed

theorem string_copies_witness:
  "strncmp (rd (strncpy (replicate 6 7) (rd (lit ''ab'')) 4)) (rd (lit ''ab'')) 4 = 0
   \<and> takeWhile (\<lambda>b. b \<noteq> 0) (safestrcpy (replicate 6 7) (rd (lit ''ab'')) 4) = cprefix (rd (lit ''ab'')) (4 - 1)
   \<and> 0 \<in> set (take 4 (safestrcpy (replicate 6 (7 :: byte)) (rd (lit ''ab'')) 4))"
proof -
  have "(0 :: nat) < 4" "4 \<le> length (replicate 6 (7 :: byte))" by simp_all
  from string_copies[OF this, of "rd (lit ''ab'')"] show ?thesis by blast
qed

end
