(* ===== verification/Kalloc.thy ===== *)
theory Kalloc
  imports Spinlock Cstring
begin

text \<open>
  Model of \<^verbatim>\<open>kalloc.c\<close>, the physical page allocator.  The free list runs through the
  free pages themselves: the first word of a free page is the address of the next one.
  The state holds physical memory as the kernel sees it, the head of the list, the flag
  \<^verbatim>\<open>use_lock\<close> and the link-time address \<^verbatim>\<open>end\<close> after the kernel image.
\<close>

section \<open>Addresses (memlayout.h, mmu.h)\<close>

abbreviation (input) KERNBASE :: uint where "KERNBASE \<equiv> 0x80000000"
abbreviation (input) PHYSTOP :: uint where "PHYSTOP \<equiv> 0xE000000"

definition v2p :: "uint \<Rightarrow> uint" where
  "v2p a = a - KERNBASE"

definition p2v :: "uint \<Rightarrow> uint" where
  "p2v a = a + KERNBASE"

definition PGROUNDUP :: "uint \<Rightarrow> uint" where
  "PGROUNDUP sz = (sz + 4096 - 1) AND NOT (4096 - 1)"

definition PGROUNDDOWN :: "uint \<Rightarrow> uint" where
  "PGROUNDDOWN a = a AND NOT (4096 - 1)"

section \<open>State and routines\<close>

record kmem_st = lkst +
  mem :: memory
  use_lock :: bool
  freelist :: uint
  kend :: uint

definition kfree :: "uint \<Rightarrow> ('x kmem_st_scheme, unit) kernel" where
  "kfree v =
     bnd (gets kend) (\<lambda>e.
     if v mod 4096 \<noteq> 0 \<or> v < e \<or> PHYSTOP \<le> v2p v then panic ''kfree'' else
     thn (modify (\<lambda>s. s\<lparr>mem := memset (mem s) v 1 4096\<rparr>)) (
     bnd (gets use_lock) (\<lambda>l.
     thn (whenk l (acq KmemLock)) (
     thn (modify (\<lambda>s. s\<lparr>mem := store32 (mem s) v (freelist s)\<rparr>)) (
     thn (modify (\<lambda>s. s\<lparr>freelist := v\<rparr>)) (
     whenk l (rel KmemLock)))))))"

definition kalloc :: "('x kmem_st_scheme, uint) kernel" where
  "kalloc =
     bnd (gets use_lock) (\<lambda>l.
     thn (whenk l (acq KmemLock)) (
     bnd (gets freelist) (\<lambda>r.
     thn (whenk (r \<noteq> 0) (modify (\<lambda>s. s\<lparr>freelist := load32 (mem s) r\<rparr>))) (
     thn (whenk l (rel KmemLock)) (
     ret r)))))"

text \<open>
  The loop of \<^verbatim>\<open>freerange\<close>.  It ends because \<^verbatim>\<open>kfree\<close> panics on an address above
  the physical memory, before the pointer can wrap around.
\<close>

lemma kfree_returns:
  assumes "kfree v s = Ret u s'"
  shows "v mod 4096 = 0" and "kend s \<le> v" and "v2p v < PHYSTOP"
  using assms by (auto simp: kfree_def kstep not_le not_less split: if_splits)

lemma v2p_low: "v2p v < PHYSTOP \<Longrightarrow> unat v + 4096 < 2 ^ 32"
  by (simp add: v2p_def) unat_arith

function freerange_loop :: "uint \<Rightarrow> uint \<Rightarrow> ('x kmem_st_scheme, unit) kernel" where
  "freerange_loop p vend s =
     (if p + 4096 \<le> vend then
        (case kfree p s of
           Ret u s' \<Rightarrow> freerange_loop (p + 4096) vend s'
         | Panic msg \<Rightarrow> Panic msg
         | Sched s' \<Rightarrow> Sched s'
         | Spin \<Rightarrow> Spin
         | Undef \<Rightarrow> Undef)
      else Ret () s)"
  by pat_completeness auto
termination
proof (relation "measure (\<lambda>(p, vend, s). unat vend - unat p)", goal_cases)
  case (2 p vend s u s')
  from kfree_returns(3)[OF 2(2)] have "unat p + 4096 < 2 ^ 32" by (rule v2p_low)
  then have "unat (p + 4096) = unat p + 4096"
    using unat_add_of_nat[of p 4096] by simp
  with 2(1) show ?case by (simp add: word_le_nat_alt)
qed simp

declare freerange_loop.simps [simp del]

definition freerange :: "uint \<Rightarrow> uint \<Rightarrow> ('x kmem_st_scheme, unit) kernel" where
  "freerange vstart vend = freerange_loop (PGROUNDUP vstart) vend"

text \<open>Initialising a lock leaves it free.\<close>

definition initlk :: "lockid \<Rightarrow> ('x lkst_scheme, unit) kernel" where
  "initlk l = modify (\<lambda>s. s\<lparr>held := removeAll l (held s)\<rparr>)"

definition kinit1 :: "uint \<Rightarrow> uint \<Rightarrow> ('x kmem_st_scheme, unit) kernel" where
  "kinit1 vstart vend =
     thn (initlk KmemLock) (
     thn (modify (\<lambda>s. s\<lparr>use_lock := False\<rparr>)) (
     freerange vstart vend))"

definition kinit2 :: "uint \<Rightarrow> uint \<Rightarrow> ('x kmem_st_scheme, unit) kernel" where
  "kinit2 vstart vend =
     thn (freerange vstart vend) (
     modify (\<lambda>s. s\<lparr>use_lock := True\<rparr>))"

section \<open>Invariant\<close>

text \<open>The chain of pages from \<open>p\<close> on is \<open>xs\<close>.\<close>

primrec chain :: "memory \<Rightarrow> uint \<Rightarrow> uint list \<Rightarrow> bool" where
  "chain m p [] = (p = 0)"
| "chain m p (x # xs) = (p = x \<and> x \<noteq> 0 \<and> chain m (load32 m x) xs)"

definition pg_aligned :: "uint \<Rightarrow> bool" where
  "pg_aligned v \<longleftrightarrow> v mod 4096 = 0"

definition page_ok :: "uint \<Rightarrow> uint \<Rightarrow> bool" where
  "page_ok e v \<longleftrightarrow> pg_aligned v \<and> e \<le> v \<and> v2p v < PHYSTOP"

definition in_page :: "uint \<Rightarrow> uint \<Rightarrow> bool" where
  "in_page v a \<longleftrightarrow> unat (a - v) < 4096"

definition kmem_inv :: "'x kmem_st_scheme \<Rightarrow> uint list \<Rightarrow> bool" where
  "kmem_inv s xs \<longleftrightarrow>
     chain (mem s) (freelist s) xs \<and> distinct xs \<and> (\<forall>x \<in> set xs. page_ok (kend s) x)"

text \<open>The allocator can take its lock when it uses one.\<close>

definition kmem_free :: "'x kmem_st_scheme \<Rightarrow> bool" where
  "kmem_free s \<longleftrightarrow> use_lock s \<longrightarrow> KmemLock \<notin> set (held s)"

text \<open>
  The contract of a page allocator, as its clients use it: \<open>pool s xs\<close> says that the
  allocator owns exactly the pages \<open>xs\<close>, the next one first.
\<close>

locale page_allocator =
  fixes alloc :: "('s, uint) kernel"
    and free :: "uint \<Rightarrow> ('s, unit) kernel"
    and pool :: "'s \<Rightarrow> uint list \<Rightarrow> bool"
    and good :: "'s \<Rightarrow> uint \<Rightarrow> bool"
  assumes alloc_empty: "pool s [] \<Longrightarrow> runs alloc s (\<lambda>r s'. r = 0 \<and> pool s' [])"
    and alloc_page: "pool s (x # xs) \<Longrightarrow>
      runs alloc s (\<lambda>r s'. r = x \<and> pool s' xs \<and> (\<forall>v. good s v \<longrightarrow> good s' v))"
    and free_page: "pool s xs \<Longrightarrow> good s v \<Longrightarrow> v \<notin> set xs \<Longrightarrow>
      runs (free v) s (\<lambda>_ s'. pool s' (v # xs))"
    and pool_distinct: "pool s xs \<Longrightarrow> distinct xs"
    and pool_good: "pool s xs \<Longrightarrow> x \<in> set xs \<Longrightarrow> good s x"
    and good_nonzero: "good s x \<Longrightarrow> x \<noteq> 0"
begin

lemma alloc_free:
  assumes "pool s (x # xs)"
  shows "runs alloc s (\<lambda>r s'. runs (free r) s' (\<lambda>_ s''. pool s'' (x # xs)))"
  using alloc_page[OF assms]
proof (rule runs_mono)
  fix r s' assume r: "r = x \<and> pool s' xs \<and> (\<forall>v. good s v \<longrightarrow> good s' v)"
  have "good s x" using pool_good[OF assms] by simp
  moreover have "x \<notin> set xs" using pool_distinct[OF assms] by simp
  ultimately show "runs (free r) s' (\<lambda>_ s''. pool s'' (x # xs))"
    using free_page[of s' xs x] r by simp
qed

lemma alloc_two:
  assumes "pool s (x # y # xs)"
  shows "runs alloc s (\<lambda>r s'. runs alloc s' (\<lambda>r' s''.
      r \<noteq> 0 \<and> r' \<noteq> 0 \<and> r \<noteq> r' \<and> pool s'' xs))"
  using alloc_page[OF assms]
proof (rule runs_mono)
  fix r s' assume r: "r = x \<and> pool s' (y # xs) \<and> (\<forall>v. good s v \<longrightarrow> good s' v)"
  then have p: "pool s' (y # xs)" by simp
  have "x \<noteq> y" using pool_distinct[OF assms] by simp
  moreover have "x \<noteq> 0" by (rule good_nonzero[OF pool_good[OF assms]]) simp
  moreover have "y \<noteq> 0" by (rule good_nonzero[OF pool_good[OF p]]) simp
  ultimately show "runs alloc s' (\<lambda>r' s''. r \<noteq> 0 \<and> r' \<noteq> 0 \<and> r \<noteq> r' \<and> pool s'' xs)"
    using r by (auto intro!: runs_mono[OF alloc_page[OF p]])
qed

end

section \<open>Lemmas\<close>

lemma pg_aligned_iff: "pg_aligned x \<longleftrightarrow> unat x mod 4096 = 0"
  using unat_mod_distrib[of x 4096] by (simp add: pg_aligned_def word_unat_eq_iff)

lemma aligned_unat: "pg_aligned x \<Longrightarrow> \<exists>k. unat x = 4096 * k"
  by (auto simp: pg_aligned_iff elim: dvdE)

lemma aligned_offset:
  fixes a x :: uint
  assumes "pg_aligned x" and "unat (a - x) < 4096"
  shows "unat a div 4096 = unat x div 4096"
proof -
  obtain k where k: "unat x = 4096 * k" using aligned_unat[OF assms(1)] by blast
  then have "k < 2 ^ 20" using unat_lt32[of x] by simp
  then have "unat x + unat (a - x) < 2 ^ 32" using assms(2) k by simp
  then have "unat (x + (a - x)) = unat x + unat (a - x)"
    using unat_add_lem[of x "a - x"] by simp
  then have "unat a = unat x + unat (a - x)" by simp
  then show ?thesis using k assms(2) by simp
qed

lemma pages_disjoint:
  assumes "pg_aligned x" and "pg_aligned v" and "in_page x a" and "in_page v a"
  shows "x = v"
proof -
  have "unat x div 4096 = unat v div 4096"
    using aligned_offset[OF assms(1), of a] aligned_offset[OF assms(2), of a] assms(3,4)
    by (simp add: in_page_def)
  moreover obtain k where "unat x = 4096 * k" using aligned_unat[OF assms(1)] by blast
  moreover obtain j where "unat v = 4096 * j" using aligned_unat[OF assms(2)] by blast
  ultimately have "unat x = unat v" by simp
  then show ?thesis by (simp add: word_unat_eq_iff)
qed

lemma in_page_word [simp]:
  "in_page v v" "in_page v (v + 1)" "in_page v (v + 2)" "in_page v (v + 3)"
  by (simp_all add: in_page_def)

lemma load32_cong:
  "(\<And>a. in_page x a \<Longrightarrow> m' a = m a) \<Longrightarrow> load32 m' x = load32 m x"
  by (simp add: load32_def)

lemma chain_cong:
  assumes "chain m p xs" and "\<And>x a. x \<in> set xs \<Longrightarrow> in_page x a \<Longrightarrow> m' a = m a"
  shows "chain m' p xs"
  using assms
proof (induction xs arbitrary: p)
  case (Cons x xs)
  have "load32 m' x = load32 m x" by (rule load32_cong) (rule Cons.prems(2), simp_all)
  moreover have "chain m' (load32 m x) xs"
    by (rule Cons.IH) (use Cons.prems in \<open>auto\<close>)
  ultimately show ?case using Cons.prems(1) by simp
qed simp

lemma page_ok_nonzero: "page_ok e v \<Longrightarrow> v \<noteq> 0"
  by (auto simp: page_ok_def v2p_def)

lemma freed_page_outside:
  "\<not> in_page v a \<Longrightarrow> store32 (memset m v 1 4096) v w a = m a"
  by (auto simp: store32_apply memset_apply in_page_def)

lemma freed_page_chain:
  assumes "chain m p xs" and "\<forall>x \<in> set xs. page_ok e x" and "page_ok e v" and "v \<notin> set xs"
  shows "chain (store32 (memset m v 1 4096) v p) v (v # xs)"
proof -
  have "chain (store32 (memset m v 1 4096) v p) p xs"
  proof (rule chain_cong[OF assms(1)])
    fix x a assume x: "x \<in> set xs" "in_page x a"
    have "\<not> in_page v a"
      using pages_disjoint[of x v a] x assms(2-4) by (auto simp: page_ok_def)
    then show "store32 (memset m v 1 4096) v p a = m a" by (rule freed_page_outside)
  qed
  then show ?thesis using page_ok_nonzero[OF assms(3)] by (simp add: load32_store32)
qed

lemma kfree_eq:
  assumes "page_ok (kend s) v" and "kmem_free s"
  shows "kfree v s =
    Ret () (s\<lparr>mem := store32 (memset (mem s) v 1 4096) v (freelist s), freelist := v\<rparr>)"
  using assms by (simp add: kfree_def kstep page_ok_def pg_aligned_def kmem_free_def not_le not_less)

lemma kfree_panic: "\<not> page_ok (kend s) v \<Longrightarrow> kfree v s = Panic ''kfree''"
  by (simp add: kfree_def kstep page_ok_def pg_aligned_def not_le not_less imp_disjL)

lemma kfree_runs:
  assumes "kmem_inv s xs" and "kmem_free s" and "page_ok (kend s) v" and "v \<notin> set xs"
  shows "runs (kfree v) s (\<lambda>_ s'. kmem_inv s' (v # xs) \<and> kmem_free s'
    \<and> kend s' = kend s \<and> (\<forall>a. \<not> in_page v a \<longrightarrow> mem s' a = mem s a))"
proof -
  have "chain (store32 (memset (mem s) v 1 4096) v (freelist s)) v (v # xs)"
    using freed_page_chain[of "mem s" "freelist s" xs "kend s" v] assms by (simp add: kmem_inv_def)
  with assms show ?thesis
    by (auto simp: runs_def kfree_eq[OF assms(3,2)] kmem_inv_def kmem_free_def
        freed_page_outside)
qed

lemma kalloc_eq:
  assumes "kmem_free s"
  shows "kalloc s = Ret (freelist s)
    (if freelist s = 0 then s else s\<lparr>freelist := load32 (mem s) (freelist s)\<rparr>)"
  using assms by (cases s) (auto simp: kalloc_def kstep kmem_free_def)

lemma kalloc_runs:
  assumes "kmem_inv s xs" and "kmem_free s"
  shows "runs kalloc s (\<lambda>r s'. kmem_free s' \<and> mem s' = mem s \<and> kend s' = kend s
    \<and> (case xs of [] \<Rightarrow> r = 0 \<and> s' = s
        | x # ys \<Rightarrow> r = x \<and> x \<noteq> 0 \<and> x \<notin> set ys \<and> kmem_inv s' ys))"
  using assms
  by (cases xs) (auto simp: runs_def kalloc_eq[OF assms(2)] kmem_inv_def kmem_free_def)

definition kpool :: "'x kmem_st_scheme \<Rightarrow> uint list \<Rightarrow> bool" where
  "kpool s xs \<longleftrightarrow> kmem_inv s xs \<and> kmem_free s"

interpretation pg: page_allocator kalloc kfree kpool "\<lambda>s. page_ok (kend s)"
proof unfold_locales
  fix s :: "'x kmem_st_scheme" and x xs
  assume "kpool s (x # xs)"
  then show "runs kalloc s (\<lambda>r s'. r = x \<and> kpool s' xs
      \<and> (\<forall>v. page_ok (kend s) v \<longrightarrow> page_ok (kend s') v))"
    by (auto simp: kpool_def intro: runs_mono[OF kalloc_runs[of s "x # xs"]])
next
  fix s :: "'x kmem_st_scheme"
  assume "kpool s []"
  then show "runs kalloc s (\<lambda>r s'. r = 0 \<and> kpool s' [])"
    by (auto simp: kpool_def intro: runs_mono[OF kalloc_runs[of s "[]"]])
next
  fix s :: "'x kmem_st_scheme" and xs v
  assume "kpool s xs" "page_ok (kend s) v" "v \<notin> set xs"
  then show "runs (kfree v) s (\<lambda>_ s'. kpool s' (v # xs))"
    by (auto simp: kpool_def intro: runs_mono[OF kfree_runs[of s xs v]])
next
  fix s :: "'x kmem_st_scheme" and xs
  assume "kpool s xs"
  then show "distinct xs" by (simp add: kpool_def kmem_inv_def)
next
  fix s :: "'x kmem_st_scheme" and xs x
  assume "kpool s xs" "x \<in> set xs"
  then show "page_ok (kend s) x" by (simp add: kpool_def kmem_inv_def)
next
  fix s :: "'x kmem_st_scheme" and x
  assume "page_ok (kend s) x"
  then show "x \<noteq> 0" by (rule page_ok_nonzero)
qed

lemma clear_low_bits: "unat ((x :: uint) AND NOT 4095) = unat x div 4096 * 4096"
proof -
  have m: "(4095 :: uint) = mask 12" by (simp add: mask_eq_exp_minus_1)
  have "NOT x AND take_bit 12 x = 0" by (rule bit_word_eqI) (auto simp: bit_simps)
  then have "x - take_bit 12 x = x AND NOT (take_bit 12 x)"
    by (rule disjunctive_diff_eq_and_not)
  also have "\<dots> = x AND NOT 4095" unfolding m by (rule bit_word_eqI) (auto simp: bit_simps)
  finally have "x AND NOT 4095 = x - take_bit 12 x" ..
  moreover have "take_bit 12 x \<le> x" by (simp add: take_bit_eq_mask word_and_le2)
  moreover have "unat (take_bit 12 x) = unat x mod 4096"
    by (simp add: take_bit_eq_mod unat_mod_distrib)
  ultimately show ?thesis by (simp only: unat_sub minus_mod_eq_div_mult)
qed

lemma pgroundup_unat:
  assumes "unat v + 4095 < 2 ^ 32"
  shows "unat (PGROUNDUP v) = (unat v + 4095) div 4096 * 4096"
proof -
  have "unat (v + 4095) = unat v + 4095"
    using assms unat_add_lem[of v 4095] by simp
  moreover have "PGROUNDUP v = (v + 4095) AND NOT 4095"
    unfolding PGROUNDUP_def by (simp add: ac_simps)
  ultimately show ?thesis using clear_low_bits[of "v + 4095"] by simp
qed

text \<open>The whole pages between two addresses.\<close>

definition whole_pages :: "uint \<Rightarrow> uint \<Rightarrow> uint set" where
  "whole_pages v vend = {x. pg_aligned x \<and> v \<le> x \<and> unat x + 4096 \<le> unat vend}"

lemma whole_pages_step:
  assumes "pg_aligned p" and "unat p + 4096 \<le> unat vend"
  shows "whole_pages p vend = insert p (whole_pages (p + 4096) vend)"
proof -
  have p4: "unat (p + 4096) = unat p + 4096"
    using assms(2) unat_lt32[of vend] unat_add_lem[of p 4096] by simp
  obtain k where k: "unat p = 4096 * k" using aligned_unat[OF assms(1)] by blast
  have "p + 4096 \<le> x \<longleftrightarrow> p \<le> x \<and> x \<noteq> p" if x: "pg_aligned x" for x
  proof -
    obtain j where "unat x = 4096 * j" using aligned_unat[OF x] by blast
    then show ?thesis using k p4 by (auto simp: word_le_nat_alt word_unat_eq_iff)
  qed
  then show ?thesis using assms by (auto simp: whole_pages_def)
qed

lemma freerange_loop_runs:
  fixes s :: "'x kmem_st_scheme"
  assumes "kmem_inv s xs" and "kmem_free s" and "pg_aligned p" and "kend s \<le> p"
    and "KERNBASE \<le> p" and "p \<le> KERNBASE + PHYSTOP" and "vend \<le> KERNBASE + PHYSTOP"
    and "set xs \<inter> whole_pages p vend = {}"
  shows "runs (freerange_loop p vend) s (\<lambda>_ s'. kmem_free s' \<and> kend s' = kend s
    \<and> (\<exists>ys. kmem_inv s' ys \<and> set ys = set xs \<union> whole_pages p vend))"
  using assms
proof (induction "unat vend - unat p" arbitrary: p s xs rule: less_induct)
  case less
  show ?case
  proof (cases "unat p + 4096 \<le> unat vend")
    case True
    have p4: "unat (p + 4096) = unat p + 4096"
      using True unat_lt32[of vend] unat_add_lem[of p 4096] by simp
    have step: "whole_pages p vend = insert p (whole_pages (p + 4096) vend)"
      using whole_pages_step[OF less.prems(3) True] .
    have "v2p p < PHYSTOP"
      using True less.prems(5-7) by (simp add: v2p_def) unat_arith
    then have ok: "page_ok (kend s) p" using less.prems by (simp add: page_ok_def)
    have new: "p \<notin> set xs" using less.prems(8) step by auto
    have "runs (kfree p) s (\<lambda>_ s1. runs (freerange_loop (p + 4096) vend) s1
        (\<lambda>_ s'. kmem_free s' \<and> kend s' = kend s
          \<and> (\<exists>ys. kmem_inv s' ys \<and> set ys = set xs \<union> whole_pages p vend)))"
    proof (rule runs_mono[OF kfree_runs[OF less.prems(1,2) ok new]])
      fix s1 :: "'x kmem_st_scheme"
      assume s1: "kmem_inv s1 (p # xs) \<and> kmem_free s1 \<and> kend s1 = kend s
         \<and> (\<forall>a. \<not> in_page p a \<longrightarrow> mem s1 a = mem s a)"
      show "runs (freerange_loop (p + 4096) vend) s1 (\<lambda>_ s'. kmem_free s' \<and> kend s' = kend s
          \<and> (\<exists>ys. kmem_inv s' ys \<and> set ys = set xs \<union> whole_pages p vend))"
      proof -
        have p: "p \<le> p + 4096" using p4 by (simp add: word_le_nat_alt)
        have "p \<notin> whole_pages (p + 4096) vend"
          using p4 by (simp add: whole_pages_def word_le_nat_alt)
        then have "set (p # xs) \<inter> whole_pages (p + 4096) vend = {}"
          using less.prems(8) step by auto
        moreover have "pg_aligned (p + 4096)"
          using less.prems(3) p4 by (simp add: pg_aligned_iff)
        ultimately have "runs (freerange_loop (p + 4096) vend) s1 (\<lambda>_ s'. kmem_free s'
            \<and> kend s' = kend s1
            \<and> (\<exists>ys. kmem_inv s' ys \<and> set ys = set (p # xs) \<union> whole_pages (p + 4096) vend))"
          using s1 less.prems(4-7) p p4 True
          by (intro less.hyps[of "p + 4096" s1 "p # xs"]) (auto simp: word_le_nat_alt)
        then show ?thesis using s1 step by simp
      qed
    qed
    then show ?thesis
      using True p4 by (auto simp: runs_iff freerange_loop.simps[of p vend s] word_le_nat_alt)
  next
    case False
    then have "whole_pages p vend = {}"
      by (auto simp: whole_pages_def word_le_nat_alt)
    moreover have "\<not> p + 4096 \<le> vend"
    proof -
      have "unat p \<le> 2382364672" using less.prems(6) by (simp add: word_le_nat_alt)
      then have "unat (p + 4096) = unat p + 4096" using unat_add_lem[of p 4096] by simp
      then show ?thesis using False by (simp add: word_le_nat_alt)
    qed
    ultimately show ?thesis
      using less.prems(1,2) by (auto simp: runs_def freerange_loop.simps[of p vend s])
  qed
qed

lemma pgroundup_props:
  assumes "unat v + 4095 < 2 ^ 32"
  shows "pg_aligned (PGROUNDUP v)" and "v \<le> PGROUNDUP v"
    and "whole_pages (PGROUNDUP v) vend = whole_pages v vend"
proof -
  note up = pgroundup_unat[OF assms]
  then show "pg_aligned (PGROUNDUP v)" by (simp add: pg_aligned_iff)
  show le: "v \<le> PGROUNDUP v" by (simp add: word_le_nat_alt up) 
  have "PGROUNDUP v \<le> x" if x: "pg_aligned x" "v \<le> x" for x
  proof -
    obtain k where "unat x = 4096 * k" using aligned_unat[OF x(1)] by blast
    then show ?thesis using x(2) by (simp add: word_le_nat_alt up)
  qed
  then show "whole_pages (PGROUNDUP v) vend = whole_pages v vend"
    using le by (auto simp: whole_pages_def intro: order_trans)
qed

lemma freerange_runs:
  fixes s :: "'x kmem_st_scheme"
  assumes "kmem_inv s xs" and "kmem_free s" and "kend s \<le> vstart" and "KERNBASE \<le> vstart"
    and "vstart \<le> KERNBASE + PHYSTOP" and "vend \<le> KERNBASE + PHYSTOP"
    and "set xs \<inter> whole_pages vstart vend = {}"
  shows "runs (freerange vstart vend) s (\<lambda>_ s'. kmem_free s' \<and> kend s' = kend s
    \<and> (\<exists>ys. kmem_inv s' ys \<and> set ys = set xs \<union> whole_pages vstart vend))"
proof -
  have v: "unat vstart + 4095 < 2 ^ 32" using assms(5) by unat_arith
  have "unat vstart \<le> 2382364672" using assms(5) by (simp add: word_le_nat_alt)
  then have "(unat vstart + 4095) div 4096 \<le> (2382364672 + 4095) div 4096"
    by (intro div_le_mono) simp
  then have "(unat vstart + 4095) div 4096 * 4096 \<le> 2382364672" by simp
  then have "PGROUNDUP vstart \<le> KERNBASE + PHYSTOP"
    by (simp add: word_le_nat_alt pgroundup_unat[OF v])
  then show ?thesis
    using freerange_loop_runs[OF assms(1,2) pgroundup_props(1)[OF v], of vend]
      assms(3-7) order_trans[OF _ pgroundup_props(2)[OF v]]
    by (simp add: freerange_def pgroundup_props(3)[OF v])
qed

lemma whole_pages_split:
  assumes "pg_aligned a" and "v \<le> a" and "a \<le> b"
  shows "whole_pages v a \<union> whole_pages a b = whole_pages v b"
proof -
  obtain k where k: "unat a = 4096 * k" using aligned_unat[OF assms(1)] by blast
  have "unat x + 4096 \<le> unat a \<or> a \<le> x" if x: "pg_aligned x" for x
  proof -
    obtain j where "unat x = 4096 * j" using aligned_unat[OF x] by blast
    then show ?thesis using k by (auto simp: word_le_nat_alt)
  qed
  then show ?thesis using assms(2,3)
    by (auto simp: whole_pages_def word_le_nat_alt intro: order_trans)
qed

section \<open>Properties\<close>

text \<open>
  Kalloc: with free pages \<open>xs\<close> the allocator returns the first one, which is not
  null and not free any more, without touching memory; with none it returns null and changes
  nothing.  It never blocks or panics.
\<close>

theorem kalloc_correct:
  assumes "kmem_inv s xs" and "kmem_free s"
  shows "runs kalloc s (\<lambda>r s'. held s' = held s \<and> mem s' = mem s
    \<and> (case xs of [] \<Rightarrow> r = 0 \<and> s' = s
        | x # ys \<Rightarrow> r = x \<and> x \<noteq> 0 \<and> x \<notin> set ys \<and> kmem_inv s' ys))"
  using kalloc_runs[OF assms] by (auto simp: runs_def kalloc_eq[OF assms(2)] split: list.splits)

theorem kalloc_correct_witness:
  "\<exists>s :: kmem_st. kmem_inv s [0x80400000] \<and> runs kalloc s (\<lambda>r s'. r = 0x80400000 \<and> kmem_inv s' [])"
proof -
  let ?s = "\<lparr>held = [], mem = (\<lambda>_. 0), use_lock = True, freelist = 0x80400000,
    kend = 0x80110000\<rparr> :: kmem_st"
  have i: "kmem_inv ?s [0x80400000]"
    by (simp add: kmem_inv_def load32_def page_ok_def pg_aligned_def v2p_def)
  have "runs kalloc ?s (\<lambda>r s'. r = 0x80400000 \<and> kmem_inv s' [])"
    by (rule runs_mono[OF kalloc_correct[OF i]]) (simp_all add: kmem_free_def)
  with i show ?thesis by blast
qed

text \<open>
  Kfree: freeing a page that is not free puts it at the head of the pool and changes no
  byte outside the page; any address that is not a page of physical memory above the kernel
  makes it panic.
\<close>

theorem kfree_correct:
  assumes "kmem_inv s xs" and "kmem_free s" and "v \<notin> set xs"
  shows "if page_ok (kend s) v
    then runs (kfree v) s (\<lambda>_ s'. kmem_inv s' (v # xs) \<and> held s' = held s
      \<and> (\<forall>a. \<not> in_page v a \<longrightarrow> mem s' a = mem s a))
    else kfree v s = Panic ''kfree''"
  using kfree_runs[OF assms(1,2) _ assms(3)] kfree_panic[of s v]
  by (auto simp: runs_def kfree_eq[OF _ assms(2)])

theorem kfree_correct_witness:
  "\<exists>s :: kmem_st. runs (kfree 0x80400000) s (\<lambda>_ s'. kmem_inv s' [0x80400000])
     \<and> kfree 0x80000000 s = Panic ''kfree''"
proof -
  let ?s = "\<lparr>held = [], mem = (\<lambda>_. 0), use_lock = True, freelist = 0,
    kend = 0x80110000\<rparr> :: kmem_st"
  have i: "kmem_inv ?s []" "kmem_free ?s" by (simp_all add: kmem_inv_def kmem_free_def)
  have "page_ok (kend ?s) 0x80400000" "\<not> page_ok (kend ?s) 0x80000000"
    by (simp_all add: page_ok_def pg_aligned_def v2p_def)
  then have "runs (kfree 0x80400000) ?s (\<lambda>_ s'. kmem_inv s' [0x80400000])"
    "kfree 0x80000000 ?s = Panic ''kfree''"
    using kfree_correct[of ?s "[]" "0x80400000"] kfree_correct[of ?s "[]" "0x80000000"] i
    by (auto elim: runs_mono)
  then show ?thesis by blast
qed

text \<open>
  C37 (boot): the two initialisation calls of \<^verbatim>\<open>main\<close>, \<^verbatim>\<open>kinit1(end, P2V(4MB))\<close> and
  \<^verbatim>\<open>kinit2(P2V(4MB), P2V(PHYSTOP))\<close>, end and leave exactly the whole pages between the
  kernel image and the top of physical memory in the pool, with locking switched on.
\<close>

theorem kinit_pool:
  fixes s :: "'x kmem_st_scheme"
  assumes "freelist s = 0" and "KERNBASE \<le> kend s" and "kend s \<le> p2v 0x400000"
    and "held s = []"
  shows "runs (thn (kinit1 (kend s) (p2v 0x400000)) (kinit2 (p2v 0x400000) (p2v PHYSTOP))) s
    (\<lambda>_ s'. use_lock s' \<and> (\<exists>ys. kmem_inv s' ys \<and> set ys = whole_pages (kend s) (p2v PHYSTOP)))"
proof -
  have a: "pg_aligned (p2v 0x400000)" "p2v 0x400000 = 0x80400000" "p2v PHYSTOP = 0x8E000000"
    by (simp_all add: pg_aligned_def p2v_def)
  let ?s = "s\<lparr>use_lock := False\<rparr>"
  have i: "kmem_inv ?s []" "kmem_free ?s" using assms by (simp_all add: kmem_inv_def kmem_free_def)
  have "kend s \<le> 0x8E000000" using assms(3) a(2) by (simp add: word_le_nat_alt)
  then have "runs (freerange (kend s) (p2v 0x400000)) ?s
    (\<lambda>_ s1. kmem_free s1 \<and> kend s1 = kend s
       \<and> (\<exists>ys. kmem_inv s1 ys \<and> set ys = whole_pages (kend s) (p2v 0x400000)))"
    using freerange_runs[OF i, of "kend s" "p2v 0x400000"] assms(2,3) a by simp
  then have "runs (freerange (kend s) (p2v 0x400000)) ?s (\<lambda>_ s1.
      runs (freerange (p2v 0x400000) (p2v PHYSTOP)) s1 (\<lambda>_ s'.
        \<exists>ys. kmem_inv s' ys \<and> set ys = whole_pages (kend s) (p2v PHYSTOP)))"
  proof (rule runs_mono, elim conjE exE)
    fix s1 :: "'x kmem_st_scheme" and xs
    assume s1: "kmem_free s1" "kend s1 = kend s" "kmem_inv s1 xs"
      "set xs = whole_pages (kend s) (p2v 0x400000)"
    have "set xs \<inter> whole_pages (p2v 0x400000) (p2v PHYSTOP) = {}"
      unfolding s1(4) by (auto simp: whole_pages_def word_le_nat_alt)
    from freerange_runs[OF s1(3,1) _ _ _ _ this] whole_pages_split[OF a(1) assms(3)]
    show "runs (freerange (p2v 0x400000) (p2v PHYSTOP)) s1 (\<lambda>_ s'.
        \<exists>ys. kmem_inv s' ys \<and> set ys = whole_pages (kend s) (p2v PHYSTOP))"
      using assms(3) a by (auto simp: s1 elim!: runs_mono)
  qed
  moreover have "initlk KmemLock s = Ret () s" using assms(4) by (cases s) (simp add: initlk_def kstep)
  ultimately show ?thesis
    by (auto simp: kinit1_def kinit2_def runs_def kstep kmem_inv_def split: outcome.splits)
qed

theorem kinit_pool_witness:
  "\<exists>s :: kmem_st. 0x80400000 \<in> whole_pages (kend s) (p2v PHYSTOP)
    \<and> runs (thn (kinit1 (kend s) (p2v 0x400000)) (kinit2 (p2v 0x400000) (p2v PHYSTOP))) s
    (\<lambda>_ s'. use_lock s' \<and> (\<exists>ys. kmem_inv s' ys \<and> set ys = whole_pages (kend s) (p2v PHYSTOP)))"
proof -
  let ?s = "\<lparr>held = [], mem = (\<lambda>_. 0), use_lock = True, freelist = 0,
    kend = 0x80110000\<rparr> :: kmem_st"
  have "0x80400000 \<in> whole_pages (kend ?s) (p2v PHYSTOP)"
    by (simp add: whole_pages_def pg_aligned_def p2v_def)
  then show ?thesis using kinit_pool[of ?s] by (intro exI[of _ ?s] conjI) (simp_all add: p2v_def)
qed

text \<open>
  Round trip: freeing the page just allocated restores the pool, in the same order.
\<close>

theorem kalloc_kfree_roundtrip:
  assumes "kpool s (x # xs)"
  shows "runs (bnd kalloc kfree) s (\<lambda>_ s'. kpool s' (x # xs))"
  using pg.alloc_free[OF assms] by simp

theorem kalloc_kfree_roundtrip_witness:
  "\<exists>s :: kmem_st. runs (bnd kalloc kfree) s (\<lambda>_ s'. kpool s' [0x80400000])"
proof -
  let ?s = "\<lparr>held = [], mem = (\<lambda>_. 0), use_lock = True, freelist = 0x80400000,
    kend = 0x80110000\<rparr> :: kmem_st"
  have "kpool ?s [0x80400000]"
    by (simp add: kpool_def kmem_free_def kmem_inv_def load32_def page_ok_def pg_aligned_def
        v2p_def)
  then show ?thesis by (blast intro: kalloc_kfree_roundtrip)
qed

end
