(* ===== verification/Proc.thy ===== *)
theory Proc
  imports Kalloc
begin

text \<open>
  Model of the process table and the scheduler of \<^verbatim>\<open>proc.c\<close>: allocation of a process,
  sleeping and waking, killing, giving up the processor, and one round of the lottery
  scheduler.  Trap frames and contexts lie in memory on the kernel stack, where
  \<^verbatim>\<open>allocproc\<close> puts them.  A routine that reaches \<^verbatim>\<open>swtch\<close> ends with the
  outcome \<open>Sched\<close>; what it does when it is scheduled again is its \<open>_resume\<close>
  routine.  Output on the console is not part of the state.
\<close>

section \<open>Data (proc.h)\<close>

datatype procstate = UNUSED | EMBRYO | SLEEPING | RUNNABLE | RUNNING | ZOMBIE

text \<open>
  A wait channel is an address; the kernel uses the addresses of these objects.
\<close>

datatype chan =
    ChanProc nat
  | ChanBuf nat
  | ChanInode nat
  | ChanLog
  | ChanTicks
  | ChanInput
  | ChanPipeRead uint
  | ChanPipeWrite uint

record proc =
  p_sz :: uint
  p_pgdir :: uint
  p_kstack :: uint
  p_state :: procstate
  p_pid :: int
  p_parent :: "nat option"
  p_tf :: uint
  p_context :: uint
  p_chan :: "chan option"
  p_killed :: bool
  p_ofile :: "nat option list"
  p_cwd :: "nat option"
  p_name :: "byte list"
  p_scount :: int
  p_ticket :: uint

text \<open>
  The globals of \<^verbatim>\<open>proc.c\<close>, the current process of the processor that runs, and the
  link-time addresses of \<^verbatim>\<open>forkret\<close> and \<^verbatim>\<open>trapret\<close>; also the two registers of the
  processor that switching to a process sets, and the kernel page table of \<^verbatim>\<open>vm.c\<close>.
\<close>

record pt_st = kmem_st +
  ptab :: "nat \<Rightarrow> proc"
  curproc :: "nat option"
  initproc :: "nat option"
  nextpid :: int
  randstate :: uint
  tickets_base :: uint
  c_win :: uint
  p_win :: uint
  cr3 :: uint
  ts_esp0 :: uint
  kpgdir :: uint
  sym_forkret :: uint
  sym_trapret :: uint

definition updp :: "nat \<Rightarrow> (proc \<Rightarrow> proc) \<Rightarrow> ('x pt_st_scheme, unit) kernel" where
  "updp i f = modify (\<lambda>s. s\<lparr>ptab := (ptab s)(i := f (ptab s i))\<rparr>)"

text \<open>Using \<^verbatim>\<open>proc\<close> when it is null dereferences a null pointer.\<close>

definition cur :: "('x pt_st_scheme, nat) kernel" where
  "cur = bnd (gets curproc) (\<lambda>p. case p of None \<Rightarrow> undef | Some i \<Rightarrow> ret i)"

section \<open>Random numbers and names\<close>

text \<open>Division by zero traps.\<close>

definition rand :: "uint \<Rightarrow> ('x pt_st_scheme, uint) kernel" where
  "rand mx =
     thn (modify (\<lambda>s. s\<lparr>randstate := randstate s * 1664525 + 1013904223\<rparr>)) (
     if mx = 0 then undef else gets (\<lambda>s. randstate s mod mx + 1))"

text \<open>Both arguments are pointers, so their sizes always agree.\<close>

definition compare_string :: "byte list \<Rightarrow> byte list \<Rightarrow> bool" where
  "compare_string first second = (find (\<lambda>i. first ! i \<noteq> second ! i) [0..<16] = None)"

definition lot_child :: "byte list" where
  "lot_child = take 16 (lit ''lot_child'' @ replicate 16 0)"

definition lot_parent :: "byte list" where
  "lot_parent = take 16 (lit ''lot_parent'' @ replicate 16 0)"

section \<open>Allocation\<close>

definition pinit :: "('x pt_st_scheme, unit) kernel" where
  "pinit = initlk PtableLock"

definition allocproc :: "('x pt_st_scheme, nat option) kernel" where
  "allocproc =
     thn (acq PtableLock) (
     bnd (gets (\<lambda>s. find (\<lambda>i. p_state (ptab s i) = UNUSED) [0..<NPROC])) (\<lambda>r.
     case r of
       None \<Rightarrow> thn (rel PtableLock) (ret None)
     | Some i \<Rightarrow>
         thn (updp i (p_state_update (\<lambda>_. EMBRYO))) (
         bnd (gets nextpid) (\<lambda>n.
         if n = 2147483647 then undef else
         thn (updp i (p_pid_update (\<lambda>_. n))) (
         thn (modify (nextpid_update (\<lambda>_. n + 1))) (
         thn (rel PtableLock) (
         bnd kalloc (\<lambda>k.
         thn (updp i (p_kstack_update (\<lambda>_. k))) (
         if k = 0 then
           thn (updp i (p_state_update (\<lambda>_. UNUSED))) (ret None)
         else
           let sp1 = k + 4096 - 76; sp2 = sp1 - 4; sp3 = sp2 - 20 in
           thn (updp i (p_tf_update (\<lambda>_. sp1))) (
           thn (modify (\<lambda>s. s\<lparr>mem := store32 (mem s) sp2 (sym_trapret s)\<rparr>)) (
           thn (updp i (p_context_update (\<lambda>_. sp3))) (
           thn (modify (\<lambda>s. s\<lparr>mem := memset (mem s) sp3 0 20\<rparr>)) (
           thn (modify (\<lambda>s. s\<lparr>mem := store32 (mem s) (sp3 + 16) (sym_forkret s)\<rparr>)) (
           ret (Some i)))))))))))))))"

section \<open>Giving up the processor\<close>

definition sched :: "('x pt_st_scheme, unit) kernel" where
  "sched =
     bnd (gets held) (\<lambda>h.
     if PtableLock \<notin> set h then panic ''sched ptable.lock'' else
     if length h \<noteq> 1 then panic ''sched locks'' else
     bnd cur (\<lambda>i.
     bnd (gets (\<lambda>s. p_state (ptab s i))) (\<lambda>st.
     if st = RUNNING then panic ''sched running'' else
     (\<lambda>s. Sched s))))"

definition yield :: "('x pt_st_scheme, unit) kernel" where
  "yield =
     thn (acq PtableLock) (
     bnd cur (\<lambda>i.
     thn (updp i (p_state_update (\<lambda>_. RUNNABLE))) (
     thn sched (
     rel PtableLock))))"

definition yield_resume :: "('x pt_st_scheme, unit) kernel" where
  "yield_resume = rel PtableLock"

definition sleep :: "chan option \<Rightarrow> lockid option \<Rightarrow> ('x pt_st_scheme, unit) kernel" where
  "sleep chan lk =
     bnd (gets curproc) (\<lambda>p. case p of None \<Rightarrow> panic ''sleep'' | Some i \<Rightarrow>
     (case lk of None \<Rightarrow> panic ''sleep without lk'' | Some l \<Rightarrow>
     thn (whenk (l \<noteq> PtableLock) (thn (acq PtableLock) (rel l))) (
     thn (updp i (p_chan_update (\<lambda>_. chan))) (
     thn (updp i (p_state_update (\<lambda>_. SLEEPING))) (
     thn sched (
     thn (updp i (p_chan_update (\<lambda>_. None))) (
     whenk (l \<noteq> PtableLock) (thn (rel PtableLock) (acq l)))))))))"

definition sleep_resume :: "lockid \<Rightarrow> ('x pt_st_scheme, unit) kernel" where
  "sleep_resume l =
     bnd cur (\<lambda>i.
     thn (updp i (p_chan_update (\<lambda>_. None))) (
     whenk (l \<noteq> PtableLock) (thn (rel PtableLock) (acq l))))"

section \<open>Waking and killing\<close>

definition wakeup1 :: "chan option \<Rightarrow> ('x pt_st_scheme, unit) kernel" where
  "wakeup1 chan =
     forM [0..<NPROC] (\<lambda>i.
       bnd (gets (\<lambda>s. ptab s i)) (\<lambda>p.
       whenk (p_state p = SLEEPING \<and> p_chan p = chan)
         (updp i (p_state_update (\<lambda>_. RUNNABLE)))))"

definition wakeup :: "chan option \<Rightarrow> ('x pt_st_scheme, unit) kernel" where
  "wakeup chan =
     thn (acq PtableLock) (
     thn (wakeup1 chan) (
     rel PtableLock))"

definition kill :: "int \<Rightarrow> ('x pt_st_scheme, int) kernel" where
  "kill pid =
     thn (acq PtableLock) (
     bnd (gets (\<lambda>s. find (\<lambda>i. p_pid (ptab s i) = pid) [0..<NPROC])) (\<lambda>r.
     case r of
       Some i \<Rightarrow>
         thn (updp i (p_killed_update (\<lambda>_. True))) (
         bnd (gets (\<lambda>s. p_state (ptab s i))) (\<lambda>st.
         thn (whenk (st = SLEEPING) (updp i (p_state_update (\<lambda>_. RUNNABLE)))) (
         thn (rel PtableLock) (
         ret 0))))
     | None \<Rightarrow> thn (rel PtableLock) (ret (-1))))"

section \<open>Scheduler\<close>

text \<open>\<^verbatim>\<open>switchuvm\<close> and \<^verbatim>\<open>switchkvm\<close> of \<^verbatim>\<open>vm.c\<close>: the page table and the kernel stack.\<close>

definition switchuvm :: "nat \<Rightarrow> ('x pt_st_scheme, unit) kernel" where
  "switchuvm i =
     bnd (gets curproc) (\<lambda>c. case c of None \<Rightarrow> undef | Some c \<Rightarrow>
     thn (modify (\<lambda>s. s\<lparr>ts_esp0 := p_kstack (ptab s c) + 4096\<rparr>)) (
     bnd (gets (\<lambda>s. p_pgdir (ptab s i))) (\<lambda>d.
     if d = 0 then panic ''switchuvm: no pgdir'' else
     modify (\<lambda>s. s\<lparr>cr3 := v2p d\<rparr>))))"

definition switchkvm :: "('x pt_st_scheme, unit) kernel" where
  "switchkvm = modify (\<lambda>s. s\<lparr>cr3 := v2p (kpgdir s)\<rparr>)"

text \<open>
  One round of \<^verbatim>\<open>scheduler\<close>.  The array \<^verbatim>\<open>run_p\<close> lives across rounds.
  \<open>collect\<close> is the loop that hands out tickets and gathers the runnable processes.
\<close>

type_synonym runq = "nat option list"

fun collect :: "nat list \<Rightarrow> runq \<Rightarrow> nat \<Rightarrow> ('x pt_st_scheme, runq \<times> nat) kernel" where
  "collect [] rp i = ret (rp, i)"
| "collect (k # ks) rp i =
     bnd (gets (\<lambda>s. ptab s k)) (\<lambda>p.
     thn (if compare_string (p_name p) lot_child
          then thn (updp k (p_ticket_update (\<lambda>_. 50))) (modify (tickets_base_update (\<lambda>_. 10)))
          else updp k (p_ticket_update (\<lambda>_. 10))) (
     if p_state p = RUNNABLE then collect ks (rp[i := Some k]) (i + 1)
     else collect ks rp i))"

text \<open>
  The loop that prints the candidates runs to the first null entry, past the end of the
  array when there is none.
\<close>

fun print_scan :: "runq \<Rightarrow> ('x pt_st_scheme, unit) kernel" where
  "print_scan [] = undef"
| "print_scan (None # rp) = ret ()"
| "print_scan (Some p # rp) = print_scan rp"

fun dedup_row :: "nat \<Rightarrow> nat list \<Rightarrow> runq \<Rightarrow> ('x pt_st_scheme, runq) kernel" where
  "dedup_row i [] rp = ret rp"
| "dedup_row i (j # js) rp =
     (case (rp ! i, rp ! j) of
        (Some a, Some b) \<Rightarrow>
          bnd (gets (\<lambda>s. p_pid (ptab s a) = p_pid (ptab s b))) (\<lambda>eq.
          dedup_row i js (if eq then rp[j := None] else rp))
      | _ \<Rightarrow> undef)"

fun dedup :: "nat list \<Rightarrow> nat \<Rightarrow> runq \<Rightarrow> ('x pt_st_scheme, runq) kernel" where
  "dedup [] n rp = ret rp"
| "dedup (i # js) n rp = bnd (dedup_row i [i + 1..<n] rp) (dedup js n)"

fun total_tickets :: "(nat \<Rightarrow> uint) \<Rightarrow> uint \<Rightarrow> runq \<Rightarrow> uint" where
  "total_tickets t mx (Some p # rp) = total_tickets t (mx + t p) rp"
| "total_tickets t mx _ = mx"

text \<open>The loop that finds the winner returns the index after the last step.\<close>

fun draw :: "(nat \<Rightarrow> uint) \<Rightarrow> uint \<Rightarrow> uint \<Rightarrow> nat \<Rightarrow> runq \<Rightarrow> nat" where
  "draw t d rg i (Some p # rp) = (if rg < d then draw t d (rg + t p) (i + 1) rp else i)"
| "draw t d rg i _ = i"

definition lottery :: "runq \<Rightarrow> ('x pt_st_scheme, nat) kernel" where
  "lottery rp =
     bnd (gets (\<lambda>s. \<lambda>p. p_ticket (ptab s p))) (\<lambda>t.
     bnd (rand (total_tickets t 0 rp)) (\<lambda>d.
     let i = draw t d 0 0 rp in
     if i = 0 then undef else
     case rp ! (i - 1) of
       None \<Rightarrow> undef
     | Some p \<Rightarrow>
         bnd (gets (\<lambda>s. p_name (ptab s p))) (\<lambda>nm.
         thn (if compare_string nm lot_child then modify (\<lambda>s. s\<lparr>c_win := c_win s + 1\<rparr>)
              else whenk (compare_string nm lot_parent) (modify (\<lambda>s. s\<lparr>p_win := p_win s + 1\<rparr>)))
         (ret p))))"

definition pick_next :: "runq \<Rightarrow> nat \<Rightarrow> ('x pt_st_scheme, runq \<times> nat) kernel" where
  "pick_next rp n =
     (if n \<noteq> 1 then
        thn (print_scan rp) (
        bnd (dedup [0..<n] n rp) (\<lambda>rp.
        bnd (lottery rp) (\<lambda>p. ret (rp, p))))
      else (case rp ! 0 of None \<Rightarrow> undef | Some p \<Rightarrow> ret (rp, p)))"

text \<open>
  The round ends by switching to the chosen process, or by releasing the lock when nothing
  is runnable.  \<open>sched_back\<close> is the rest of the round, after the process has
  switched back.
\<close>

definition sched_round :: "runq \<Rightarrow> ('x pt_st_scheme, runq \<times> nat option) kernel" where
  "sched_round rp =
     thn (modify (tickets_base_update (\<lambda>_. 10))) (
     thn (acq PtableLock) (
     bnd (collect [0..<NPROC] rp 0) (\<lambda>(rp, n).
     if n \<noteq> 0 then
       bnd (pick_next rp n) (\<lambda>(rp, p).
       thn (modify (curproc_update (\<lambda>_. Some p))) (
       thn (switchuvm p) (
       thn (updp p (p_state_update (\<lambda>_. RUNNING))) (
       ret (rp, Some p)))))
     else thn (rel PtableLock) (ret (rp, None)))))"

definition sched_back :: "('x pt_st_scheme, unit) kernel" where
  "sched_back =
     thn switchkvm (
     thn (modify (curproc_update (\<lambda>_. None))) (
     rel PtableLock))"

definition sched_init :: runq where
  "sched_init = replicate NPROC None"

text \<open>The zeroed process table entry and the globals as the kernel image has them.\<close>

definition proc_zero :: proc where
  "proc_zero = \<lparr>p_sz = 0, p_pgdir = 0, p_kstack = 0, p_state = UNUSED, p_pid = 0, p_parent = None,
     p_tf = 0, p_context = 0, p_chan = None, p_killed = False, p_ofile = replicate NOFILE None,
     p_cwd = None, p_name = replicate 16 0, p_scount = 0, p_ticket = 0\<rparr>"

definition pt_image :: "uint \<Rightarrow> uint \<Rightarrow> uint \<Rightarrow> pt_st" where
  "pt_image e fr tr = \<lparr>held = [], mem = (\<lambda>_. 0), use_lock = False, freelist = 0, kend = e,
     ptab = (\<lambda>_. proc_zero), curproc = None, initproc = None, nextpid = 1, randstate = 1,
     tickets_base = 0, c_win = 0, p_win = 0, cr3 = 0, ts_esp0 = 0, kpgdir = 0,
     sym_forkret = fr, sym_trapret = tr\<rparr>"

section \<open>Lemmas: table updates\<close>

lemma held_same [simp]: "(s :: 'x lkst_scheme)\<lparr>held := held s\<rparr> = s"
  by simp

lemma updp_run [kstep]: "updp i f s = Ret () (s\<lparr>ptab := (ptab s)(i := f (ptab s i))\<rparr>)"
  by (simp add: updp_def kstep)

lemma runs_updp [simp]: "runs (updp i f) s Q = Q () (s\<lparr>ptab := (ptab s)(i := f (ptab s i))\<rparr>)"
  by (simp add: updp_def)

lemma cur_run [kstep]: "cur s = (case curproc s of None \<Rightarrow> Undef | Some i \<Rightarrow> Ret i s)"
  by (simp add: cur_def kstep split: option.split)

text \<open>A loop over the table whose body changes only the entry it looks at.\<close>

lemma forM_table:
  assumes "\<And>i s. i < n \<Longrightarrow> f i s = Ret () (s\<lparr>ptab := (ptab s)(i := g i (ptab s i))\<rparr>)"
  shows "forM [0..<n] f s = Ret () (s\<lparr>ptab := (\<lambda>i. if i < n then g i (ptab s i) else ptab s i)\<rparr>)"
proof -
  let ?I = "\<lambda>k s'. s' = s\<lparr>ptab := (\<lambda>i. if i < k then g i (ptab s i) else ptab s i)\<rparr>"
  have "(\<lambda>i. if i < k then g i (ptab s i) else ptab s i)(k := g k (ptab s k))
      = (\<lambda>i. if i < Suc k then g i (ptab s i) else ptab s i)" for k
    by (auto simp: fun_eq_iff less_Suc_eq)
  then have "runs (forM [0..<n] f) s (\<lambda>_. ?I n)"
    by (intro runs_forM_upt[where I = ?I]) (simp_all add: runs_def assms)
  then show ?thesis by (auto simp: runs_iff)
qed

definition woken :: "chan option \<Rightarrow> proc \<Rightarrow> proc" where
  "woken ch p = (if p_state p = SLEEPING \<and> p_chan p = ch then p\<lparr>p_state := RUNNABLE\<rparr> else p)"

definition woken_tab :: "chan option \<Rightarrow> (nat \<Rightarrow> proc) \<Rightarrow> nat \<Rightarrow> proc" where
  "woken_tab ch t = (\<lambda>i. if i < NPROC then woken ch (t i) else t i)"

lemma wakeup1_run [kstep]: "wakeup1 ch s = Ret () (s\<lparr>ptab := woken_tab ch (ptab s)\<rparr>)"
  unfolding wakeup1_def woken_tab_def by (rule forM_table) (simp add: kstep woken_def)

lemma wakeup_run:
  assumes "PtableLock \<notin> set (held s)"
  shows "wakeup ch s = Ret () (s\<lparr>ptab := woken_tab ch (ptab s)\<rparr>)"
  using assms by (simp add: wakeup_def kstep)

lemma sched_run:
  "held s = [PtableLock] \<Longrightarrow> curproc s = Some i \<Longrightarrow> p_state (ptab s i) \<noteq> RUNNING \<Longrightarrow> sched s = Sched s"
  by (simp add: sched_def kstep)

lemma sleep_run:
  assumes "curproc s = Some i" and "held s = [l]" and "l \<noteq> PtableLock"
  shows "sleep ch (Some l) s = Sched (s\<lparr>held := [PtableLock],
    ptab := (ptab s)(i := (ptab s i)\<lparr>p_chan := ch, p_state := SLEEPING\<rparr>)\<rparr>)"
  using assms(1,3) by (simp add: sleep_def kstep sched_run assms(2))

section \<open>Lemmas: the lottery\<close>

text \<open>The position of a draw among a list of ticket counts, over the natural numbers.\<close>

fun pos :: "nat \<Rightarrow> nat \<Rightarrow> nat list \<Rightarrow> nat" where
  "pos d rg [] = 0"
| "pos d rg (x # xs) = (if rg < d then Suc (pos d (rg + x) xs) else 0)"

lemma pos_iff:
  assumes "rg < d" and "d \<le> rg + sum_list ts"
  shows "pos d rg ts = Suc k \<longleftrightarrow>
    k < length ts \<and> rg + sum_list (take k ts) < d \<and> d \<le> rg + sum_list (take (Suc k) ts)"
  using assms
proof (induction ts arbitrary: rg k)
  case (Cons x ts)
  show ?case
  proof (cases "rg + x < d")
    case True
    then have "pos d (rg + x) ts = Suc j \<longleftrightarrow> j < length ts \<and> rg + x + sum_list (take j ts) < d
        \<and> d \<le> rg + x + sum_list (take (Suc j) ts)" for j
      using Cons by (intro Cons.IH) auto
    moreover have "pos d (rg + x) ts \<noteq> 0" using True Cons.prems by (cases ts) auto
    ultimately show ?thesis using Cons.prems True by (cases k) (auto simp: add.assoc)
  next
    case False
    then have "pos d (rg + x) ts = 0" by (cases ts) auto
    then show ?thesis using Cons.prems False by (cases k) auto
  qed
qed simp

definition nulls :: "runq \<Rightarrow> bool" where
  "nulls rp = (rp = [] \<or> hd rp = None)"

lemma draw_pos:
  assumes "unat rg + sum_list (map (unat \<circ> t) ps) < 2 ^ 32" and "nulls rest"
  shows "draw t d rg i (map Some ps @ rest) = i + pos (unat d) (unat rg) (map (unat \<circ> t) ps)"
  using assms
proof (induction ps arbitrary: rg i)
  case Nil
  then show ?case by (cases rest) (auto simp: nulls_def)
next
  case (Cons p ps)
  have "unat (rg + t p) = unat rg + unat (t p)"
    using Cons.prems unat_add_lem[of rg "t p"] by simp
  with Cons show ?case by (simp add: word_less_nat_alt)
qed

lemma total_tickets_sum:
  assumes "unat mx + sum_list (map (unat \<circ> t) ps) < 2 ^ 32" and "nulls rest"
  shows "unat (total_tickets t mx (map Some ps @ rest)) = unat mx + sum_list (map (unat \<circ> t) ps)"
  using assms
proof (induction ps arbitrary: mx)
  case Nil
  then show ?case by (cases rest) (auto simp: nulls_def)
next
  case (Cons p ps)
  have "unat (mx + t p) = unat mx + unat (t p)"
    using Cons.prems unat_add_lem[of mx "t p"] by simp
  with Cons show ?case by simp
qed

lemma card_draws: "card {d :: uint. a < unat d \<and> unat d \<le> b} = b - a" if "b < 2 ^ 32"
proof -
  have img: "unat ` {d :: uint. a < unat d \<and> unat d \<le> b} = {a<..b}"
  proof (intro equalityI subsetI)
    fix n assume "n \<in> {a<..b}"
    then have "unat (of_nat n :: uint) = n" using that by (intro unat_of_nat32) simp
    then show "n \<in> unat ` {d :: uint. a < unat d \<and> unat d \<le> b}"
      using \<open>n \<in> {a<..b}\<close> by (intro image_eqI[of _ _ "of_nat n"]) auto
  qed auto
  have "inj_on unat {d :: uint. a < unat d \<and> unat d \<le> b}"
    by (simp add: inj_on_def word_unat_eq_iff)
  from card_image[OF this] show ?thesis unfolding img by simp
qed

definition ticketed :: "proc \<Rightarrow> proc" where
  "ticketed p = p\<lparr>p_ticket := (if compare_string (p_name p) lot_child then 50 else 10)\<rparr>"

definition ticketed_tab :: "nat set \<Rightarrow> (nat \<Rightarrow> proc) \<Rightarrow> nat \<Rightarrow> proc" where
  "ticketed_tab K t = (\<lambda>k. if k \<in> K then ticketed (t k) else t k)"

lemma ticketed_sel [simp]:
  "p_state (ticketed p) = p_state p" "p_pid (ticketed p) = p_pid p"
  "p_pgdir (ticketed p) = p_pgdir p" "p_name (ticketed p) = p_name p"
  "p_kstack (ticketed p) = p_kstack p"
  by (simp_all add: ticketed_def)

lemma ticketed_tab_sel [simp]:
  "p_state (ticketed_tab K t k) = p_state (t k)" "p_pid (ticketed_tab K t k) = p_pid (t k)"
  "p_pgdir (ticketed_tab K t k) = p_pgdir (t k)" "p_name (ticketed_tab K t k) = p_name (t k)"
  "p_kstack (ticketed_tab K t k) = p_kstack (t k)"
  by (simp_all add: ticketed_tab_def)

lemma ticketed_tab_insert:
  "k \<notin> K \<Longrightarrow> ticketed_tab K (t(k := ticketed (t k))) = ticketed_tab (insert k K) t"
  by (auto simp: ticketed_tab_def fun_eq_iff)

definition runnable :: "'x pt_st_scheme \<Rightarrow> nat list" where
  "runnable s = filter (\<lambda>k. p_state (ptab s k) = RUNNABLE) [0..<NPROC]"

lemma collect_run:
  assumes "distinct ks" and "i + length (filter (\<lambda>k. p_state (ptab s k) = RUNNABLE) ks) \<le> length rp"
  shows "\<exists>tb. collect ks rp i s = Ret
     (let rs = filter (\<lambda>k. p_state (ptab s k) = RUNNABLE) ks in
        (take i rp @ map Some rs @ drop (i + length rs) rp, i + length rs))
     (s\<lparr>ptab := ticketed_tab (set ks) (ptab s), tickets_base := tb\<rparr>)"
  using assms
proof (induction ks arbitrary: s rp i)
  case Nil
  then show ?case
    by (intro exI[of _ "tickets_base s"]) (simp add: kstep ticketed_tab_def)
next
  case (Cons k ks)
  define tb where "tb = (if compare_string (p_name (ptab s k)) lot_child then 10 else tickets_base s)"
  define s1 where "s1 = s\<lparr>ptab := (ptab s)(k := ticketed (ptab s k)), tickets_base := tb\<rparr>"
  have st: "p_state (ptab s1 j) = p_state (ptab s j)" for j by (simp add: s1_def)
  have tab: "ticketed_tab (set ks) (ptab s1) = ticketed_tab (set (k # ks)) (ptab s)"
    using Cons.prems(1) by (simp add: s1_def ticketed_tab_insert)
  have step: "collect (k # ks) rp i s = (if p_state (ptab s k) = RUNNABLE
      then collect ks (rp[i := Some k]) (i + 1) s1 else collect ks rp i s1)"
    by (simp add: kstep s1_def tb_def ticketed_def)
  have up: "s1\<lparr>ptab := f, tickets_base := b\<rparr> = s\<lparr>ptab := f, tickets_base := b\<rparr>" for f b
    by (simp add: s1_def)
  show ?case
  proof (cases "p_state (ptab s k) = RUNNABLE")
    case True
    then have "i < length rp" using Cons.prems(2) by simp
    then have "take (i + 1) (rp[i := Some k]) = take i rp @ [Some k]"
      by (simp add: take_Suc_conv_app_nth)
    then show ?thesis
      using Cons.IH[of "i + 1" s1 "rp[i := Some k]"] Cons.prems True
      by (simp del: collect.simps add: step st tab up Let_def)
  next
    case False
    then show ?thesis
      using Cons.IH[of i s1 rp] Cons.prems
      by (simp del: collect.simps add: step st tab up)
  qed
qed

lemma print_scan_run [kstep]: "None \<in> set rp \<Longrightarrow> print_scan rp s = Ret () s"
  by (induction rp rule: print_scan.induct) (auto simp: kstep)

lemma dedup_row_run:
  assumes "rp ! i = Some a"
    and "\<forall>j \<in> set js. \<exists>b. rp ! j = Some b \<and> p_pid (ptab s a) \<noteq> p_pid (ptab s b)"
  shows "dedup_row i js rp s = Ret rp s"
  using assms by (induction js) (auto simp: kstep)

lemma dedup_run:
  assumes "\<forall>j < n. \<exists>b. rp ! j = Some b"
    and "\<forall>i j a b. i < j \<longrightarrow> j < n \<longrightarrow> rp ! i = Some a \<longrightarrow> rp ! j = Some b
      \<longrightarrow> p_pid (ptab s a) \<noteq> p_pid (ptab s b)"
    and "set is \<subseteq> {0..<n}"
  shows "dedup is n rp s = Ret rp s"
  using assms(3)
proof (induction "is")
  case (Cons i js)
  then obtain a where a: "rp ! i = Some a" using assms(1) by auto
  have "dedup_row i [i + 1..<n] rp s = Ret rp s"
  proof (rule dedup_row_run[OF a], rule ballI)
    fix j assume "j \<in> set [i + 1..<n]"
    then have j: "i < j" "j < n" by auto
    with assms(1) obtain b where b: "rp ! j = Some b" by blast
    with assms(2) j a have "p_pid (ptab s a) \<noteq> p_pid (ptab s b)" by blast
    with b show "\<exists>b. rp ! j = Some b \<and> p_pid (ptab s a) \<noteq> p_pid (ptab s b)" by blast
  qed
  with Cons show ?case by (simp add: kstep)
qed (simp add: kstep)
lemma rand_run:
  "mx \<noteq> 0 \<Longrightarrow> rand mx s = Ret ((randstate s * 1664525 + 1013904223) mod mx + 1)
     (s\<lparr>randstate := randstate s * 1664525 + 1013904223\<rparr>)"
  by (simp add: rand_def kstep)

lemma rand_bounds:
  fixes x mx :: uint
  assumes "mx \<noteq> 0"
  shows "0 < unat (x mod mx + 1)" and "unat (x mod mx + 1) \<le> unat mx"
proof -
  have "unat (x mod mx) < unat mx"
    using assms by (simp add: unat_mod_distrib unat_gt_0)
  then have "unat (x mod mx + 1) = unat (x mod mx) + 1"
    using unat_lt32[of mx] unat_add_lem[of "x mod mx" 1] by simp
  with \<open>unat (x mod mx) < unat mx\<close>
  show "0 < unat (x mod mx + 1)" "unat (x mod mx + 1) \<le> unat mx" by simp_all
qed

lemma pos_range:
  assumes "0 < d" and "d \<le> sum_list ts"
  shows "\<exists>k < length ts. pos d 0 ts = Suc k"
proof (cases "pos d 0 ts")
  case 0
  with assms show ?thesis by (cases ts) auto
next
  case (Suc k)
  with pos_iff[of 0 d ts k] assms show ?thesis by auto
qed

lemma lottery_run:
  assumes "nulls rest" and "0 < sum_list (map (\<lambda>p. unat (p_ticket (ptab s p))) ps)"
    and "sum_list (map (\<lambda>p. unat (p_ticket (ptab s p))) ps) < 2 ^ 32"
  shows "\<exists>p \<in> set ps. \<exists>r c w. lottery (map Some ps @ rest) s
      = Ret p (s\<lparr>randstate := r, c_win := c, p_win := w\<rparr>)"
proof -
  let ?t = "\<lambda>p. p_ticket (ptab s p)" and ?r = "randstate s * 1664525 + 1013904223"
  define mx where "mx = total_tickets ?t 0 (map Some ps @ rest)"
  have mx: "unat mx = sum_list (map (unat \<circ> ?t) ps)"
    using total_tickets_sum[OF _ assms(1), of 0 ?t ps] assms(3) by (simp add: mx_def comp_def)
  have "0 < unat mx" unfolding mx using assms(2) by (simp only: comp_def)
  then have "mx \<noteq> 0" by auto
  define d where "d = ?r mod mx + 1"
  obtain k where k: "k < length ps" "pos (unat d) 0 (map (unat \<circ> ?t) ps) = Suc k"
    using pos_range[of "unat d" "map (unat \<circ> ?t) ps"] rand_bounds[OF \<open>mx \<noteq> 0\<close>, of ?r] mx
    by (auto simp: d_def)
  have "draw ?t d 0 0 (map Some ps @ rest) = Suc k"
    using draw_pos[OF _ assms(1), of 0 ?t ps d 0] assms(3) k by (simp add: comp_def)
  moreover have "(map Some ps @ rest) ! k = Some (ps ! k)" using k by (simp add: nth_append)
  moreover define nm where "nm = p_name (ptab s (ps ! k))"
  ultimately have "lottery (map Some ps @ rest) s = Ret (ps ! k) (s\<lparr>randstate := ?r,
      c_win := (if compare_string nm lot_child then c_win s + 1 else c_win s),
      p_win := (if \<not> compare_string nm lot_child \<and> compare_string nm lot_parent
        then p_win s + 1 else p_win s)\<rparr>)"
    using rand_run[OF \<open>mx \<noteq> 0\<close>, of s]
    by (simp add: lottery_def kstep Let_def flip: mx_def d_def)
  with k show ?thesis using nth_mem[OF k(1)] by blast
qed

lemma ticket_sum:
  assumes "set ps \<subseteq> K"
  shows "10 * length ps \<le> sum_list (map (\<lambda>p. unat (p_ticket (ticketed_tab K t p))) ps)"
    and "sum_list (map (\<lambda>p. unat (p_ticket (ticketed_tab K t p))) ps) \<le> 50 * length ps"
  using assms by (induction ps) (auto simp: ticketed_tab_def ticketed_def)

definition clean :: "runq \<Rightarrow> nat \<Rightarrow> bool" where
  "clean rp n \<longleftrightarrow> length rp = NPROC \<and> (\<forall>i. n \<le> i \<longrightarrow> i < NPROC \<longrightarrow> rp ! i = None)"

lemma clean_drop: "clean rp n \<Longrightarrow> drop n rp = replicate (NPROC - n) None"
  by (auto simp: clean_def intro: nth_equalityI)

lemma runnable_props:
  "set (runnable s) = {k. k < NPROC \<and> p_state (ptab s k) = RUNNABLE}"
  "distinct (runnable s)" "length (runnable s) \<le> NPROC"
  using length_filter_le[of "\<lambda>k. p_state (ptab s k) = RUNNABLE" "[0..<NPROC]"]
  by (auto simp: runnable_def)

lemma pick_next_run:
  assumes "ps \<noteq> []" and "length ps < NPROC" and "set ps \<subseteq> K"
    and "distinct ps" and "inj_on (\<lambda>k. p_pid (ptab s k)) (set ps)"
    and "ptab s = ticketed_tab K t"
  shows "\<exists>rp p. p \<in> set ps \<and> (\<exists>r c w.
    pick_next (map Some ps @ replicate (NPROC - length ps) None) (length ps) s
      = Ret (rp, p) (s\<lparr>randstate := r, c_win := c, p_win := w\<rparr>))"
proof (cases "length ps = 1")
  case True
  then obtain p where "ps = [p]" by (auto simp: length_Suc_conv)
  then show ?thesis
    by (intro exI[of _ "Some p # replicate 63 None"] exI[of _ p] conjI exI[of _ "randstate s"]
        exI[of _ "c_win s"] exI[of _ "p_win s"]) (simp_all add: pick_next_def kstep)
next
  case False
  let ?rest = "replicate (NPROC - length ps) (None :: nat option)"
  let ?rp = "map Some ps @ ?rest"
  have ded: "dedup [0..<length ps] (length ps) ?rp s = Ret ?rp s"
  proof (rule dedup_run)
    have "p_pid (ptab s (ps ! i)) \<noteq> p_pid (ptab s (ps ! j))" if "i < j" "j < length ps" for i j
      using that inj_onD[OF assms(5), of "ps ! i" "ps ! j"] assms(4)
      by (auto simp: nth_eq_iff_index_eq)
    then show "\<forall>i j a b. i < j \<longrightarrow> j < length ps \<longrightarrow> ?rp ! i = Some a \<longrightarrow> ?rp ! j = Some b
        \<longrightarrow> p_pid (ptab s a) \<noteq> p_pid (ptab s b)"
      by (auto simp: nth_append)
  qed (auto simp: nth_append)
  have "nulls ?rest" using assms(2) by (simp add: nulls_def hd_replicate)
  moreover have "0 < sum_list (map (\<lambda>p. unat (p_ticket (ptab s p))) ps)"
    using ticket_sum(1)[OF assms(3), of t] assms(1,6) by (cases ps) auto
  moreover have "sum_list (map (\<lambda>p. unat (p_ticket (ptab s p))) ps) < 2 ^ 32"
    using ticket_sum(2)[OF assms(3), of t] assms(2,6) by simp
  ultimately obtain p r c w where "p \<in> set ps"
      "lottery ?rp s = Ret p (s\<lparr>randstate := r, c_win := c, p_win := w\<rparr>)"
    using lottery_run[of ?rest s ps] by blast
  moreover have "print_scan ?rp s = Ret () s"
    using assms(2) by (intro print_scan_run) simp
  ultimately show ?thesis using False ded
    by (intro exI[of _ ?rp] exI[of _ p]) (auto simp: pick_next_def kstep)
qed
lemma sched_round_run:
  fixes s :: "'x pt_st_scheme"
  assumes "PtableLock \<notin> set (held s)" and "clean rp (length (runnable s))"
    and "runnable s \<noteq> []" and "length (runnable s) < NPROC"
    and "inj_on (\<lambda>k. p_pid (ptab s k)) (set (runnable s))"
    and "\<forall>k \<in> set (runnable s). p_pgdir (ptab s k) \<noteq> 0"
  shows "\<exists>rp' p tb r c w. p \<in> set (runnable s) \<and> sched_round rp s = Ret (rp', Some p)
    (s\<lparr>held := PtableLock # held s, tickets_base := tb, randstate := r, c_win := c, p_win := w,
       curproc := Some p, ts_esp0 := p_kstack (ptab s p) + 4096, cr3 := v2p (p_pgdir (ptab s p)),
       ptab := (ticketed_tab {0..<NPROC} (ptab s))
         (p := (ticketed_tab {0..<NPROC} (ptab s) p)\<lparr>p_state := RUNNING\<rparr>)\<rparr>)"
proof -
  let ?ps = "runnable s"
  define s1 where "s1 = s\<lparr>tickets_base := 10, held := PtableLock # held s\<rparr>"
  have rp: "length rp = NPROC" using assms(2) by (simp add: clean_def)
  have ps: "filter (\<lambda>k. p_state (ptab s1 k) = RUNNABLE) [0..<NPROC] = ?ps"
    by (simp add: runnable_def s1_def)
  have "0 + length (filter (\<lambda>k. p_state (ptab s1 k) = RUNNABLE) [0..<NPROC]) \<le> length rp"
    using rp assms(4) unfolding ps by simp
  from collect_run[OF _ this] obtain tb where tb: "collect [0..<NPROC] rp 0 s1 = Ret
     (map Some ?ps @ replicate (NPROC - length ?ps) None, length ?ps)
     (s1\<lparr>ptab := ticketed_tab {0..<NPROC} (ptab s), tickets_base := tb\<rparr>)"
    using clean_drop[OF assms(2)] unfolding ps Let_def by (auto simp: s1_def)
  define s2 where "s2 = s1\<lparr>ptab := ticketed_tab {0..<NPROC} (ptab s), tickets_base := tb\<rparr>"
  have "inj_on (\<lambda>k. p_pid (ptab s2 k)) (set ?ps)" using assms(5) by (simp add: s2_def)
  moreover have "set ?ps \<subseteq> {0..<NPROC}" by (auto simp: runnable_def)
  ultimately obtain rp' p r c w where p: "p \<in> set ?ps"
      "pick_next (map Some ?ps @ replicate (NPROC - length ?ps) None) (length ?ps) s2
        = Ret (rp', p) (s2\<lparr>randstate := r, c_win := c, p_win := w\<rparr>)"
    using pick_next_run[of ?ps "{0..<NPROC}" s2 "ptab s"] assms(3,4) runnable_props(2)[of s]
    by (auto simp: s2_def)
  have "sched_round rp s = bnd (collect [0..<NPROC] rp 0) (\<lambda>(rp, n).
     if n \<noteq> 0 then
       bnd (pick_next rp n) (\<lambda>(rp, p).
       thn (modify (curproc_update (\<lambda>_. Some p))) (
       thn (switchuvm p) (
       thn (updp p (p_state_update (\<lambda>_. RUNNING))) (
       ret (rp, Some p)))))
     else thn (rel PtableLock) (ret (rp, None))) s1"
    using assms(1) by (simp add: sched_round_def kstep s1_def)
  also have "\<dots> = Ret (rp', Some p) (s2\<lparr>randstate := r, c_win := c, p_win := w,
       curproc := Some p, ts_esp0 := p_kstack (ptab s p) + 4096, cr3 := v2p (p_pgdir (ptab s p)),
       ptab := (ptab s2)(p := (ptab s2 p)\<lparr>p_state := RUNNING\<rparr>)\<rparr>)"
    using p assms(3,6) tb by (simp add: kstep switchuvm_def flip: s2_def) (simp add: s2_def)
  finally show ?thesis using p(1) by (auto simp: s2_def s1_def)
qed
lemma kalloc_frame:
  assumes "kmem_free s"
  shows "\<exists>r f. kalloc (s :: 'x kmem_st_scheme) = Ret r (s\<lparr>freelist := f\<rparr>)"
  using kalloc_eq[OF assms] by (cases "freelist s = 0") (auto intro: exI[of _ "freelist s"])

text \<open>
  Process identifiers: those in use are positive, below the counter and distinct.
\<close>

definition pid_inv :: "'x pt_st_scheme \<Rightarrow> bool" where
  "pid_inv s \<longleftrightarrow> 0 < nextpid s
     \<and> (\<forall>i < NPROC. p_state (ptab s i) \<noteq> UNUSED \<longrightarrow> 0 < p_pid (ptab s i) \<and> p_pid (ptab s i) < nextpid s)
     \<and> (\<forall>i < NPROC. \<forall>j < NPROC. p_state (ptab s i) \<noteq> UNUSED \<longrightarrow> p_state (ptab s j) \<noteq> UNUSED
          \<longrightarrow> p_pid (ptab s i) = p_pid (ptab s j) \<longrightarrow> i = j)"

text \<open>What \<^verbatim>\<open>allocproc\<close> leaves in the slot it found and on the new kernel stack \<open>k\<close>.\<close>

definition fresh_proc :: "proc \<Rightarrow> int \<Rightarrow> uint \<Rightarrow> proc" where
  "fresh_proc p n k = p\<lparr>p_state := EMBRYO, p_pid := n, p_kstack := k,
     p_tf := k + 4096 - 76, p_context := k + 4096 - 100\<rparr>"

definition fresh_stack :: "'x pt_st_scheme \<Rightarrow> uint \<Rightarrow> memory" where
  "fresh_stack s k = store32 (memset (store32 (mem s) (k + 4016) (sym_trapret s)) (k + 3996) 0 20)
     (k + 4012) (sym_forkret s)"

lemma allocproc_full:
  assumes "PtableLock \<notin> set (held s)" and "\<forall>i < NPROC. p_state (ptab s i) \<noteq> UNUSED"
  shows "allocproc s = Ret None s"
  using assms find_upt_None[of "\<lambda>i. p_state (ptab s i) = UNUSED" NPROC]
  by (simp add: allocproc_def kstep)

lemma allocproc_some:
  assumes "PtableLock \<notin> set (held s)" and "kmem_free s" and "nextpid s < 2147483647"
    and "find (\<lambda>i. p_state (ptab s i) = UNUSED) [0..<NPROC] = Some i"
    and "kmem_inv s (x # xs)"
  shows "allocproc s = Ret (Some i) (s\<lparr>freelist := load32 (mem s) x, mem := fresh_stack s x,
     ptab := (ptab s)(i := fresh_proc (ptab s i) (nextpid s) x), nextpid := nextpid s + 1\<rparr>)"
proof -
  have x: "freelist s = x" "x \<noteq> 0" using assms(5) by (auto simp: kmem_inv_def)
  have k: "kmem_free s' \<Longrightarrow> kalloc s' = Ret (freelist s')
    (if freelist s' = 0 then s' else s'\<lparr>freelist := load32 (mem s') (freelist s')\<rparr>)"
    for s' :: "'a pt_st_scheme" by (rule kalloc_eq)
  show ?thesis
    using assms(1-4) x
    by (simp add: allocproc_def kstep k kmem_free_def Let_def fresh_stack_def fresh_proc_def
        add.commute)
qed

lemma allocproc_nomem:
  assumes "PtableLock \<notin> set (held s)" and "kmem_free s" and "nextpid s < 2147483647"
    and "find (\<lambda>i. p_state (ptab s i) = UNUSED) [0..<NPROC] = Some i"
    and "kmem_inv s []"
  shows "allocproc s = Ret None (s\<lparr>nextpid := nextpid s + 1,
     ptab := (ptab s)(i := (ptab s i)\<lparr>p_pid := nextpid s, p_kstack := 0\<rparr>)\<rparr>)"
proof -
  have x: "freelist s = 0" using assms(5) by (auto simp: kmem_inv_def)
  have u: "p_state (ptab s i) = UNUSED" using assms(4) by (simp add: find_upt_Some)
  have k: "kmem_free s' \<Longrightarrow> kalloc s' = Ret (freelist s')
    (if freelist s' = 0 then s' else s'\<lparr>freelist := load32 (mem s') (freelist s')\<rparr>)"
    for s' :: "'a pt_st_scheme" by (rule kalloc_eq)
  have "(ptab s i)\<lparr>p_pid := nextpid s, p_kstack := 0, p_state := UNUSED\<rparr>
      = (ptab s i)\<lparr>p_pid := nextpid s, p_kstack := 0\<rparr>"
    using u by (cases "ptab s i") simp
  then show ?thesis
    using assms(1-4) x
    by (simp add: allocproc_def kstep k kmem_free_def)
qed

lemma kill_run:
  assumes "PtableLock \<notin> set (held s)"
  shows "kill pid s = (case find (\<lambda>i. p_pid (ptab s i) = pid) [0..<NPROC] of
      None \<Rightarrow> Ret (-1) s
    | Some i \<Rightarrow> Ret 0 (s\<lparr>ptab := (ptab s)(i := (ptab s i)\<lparr>p_killed := True,
        p_state := (if p_state (ptab s i) = SLEEPING then RUNNABLE else p_state (ptab s i))\<rparr>)\<rparr>))"
  using assms by (auto simp: kill_def kstep split: option.split)
lemma load32_eq:
  "m' a = m a \<Longrightarrow> m' (a + 1) = m (a + 1) \<Longrightarrow> m' (a + 2) = m (a + 2) \<Longrightarrow> m' (a + 3) = m (a + 3)
    \<Longrightarrow> load32 m' a = load32 m a"
  by (simp add: load32_def)

lemma fresh_stack_loads:
  "load32 (fresh_stack s k) (k + 4012) = sym_forkret s"
  "load32 (fresh_stack s k) (k + 4016) = sym_trapret s"
proof -
  show "load32 (fresh_stack s k) (k + 4012) = sym_forkret s"
    by (simp add: fresh_stack_def load32_store32)
  have "load32 (fresh_stack s k) (k + 4016)
      = load32 (store32 (mem s) (k + 4016) (sym_trapret s)) (k + 4016)"
    by (rule load32_eq)
      (simp_all add: fresh_stack_def store32_apply[of "memset m a c n" for m a c n] memset_apply)
  then show "load32 (fresh_stack s k) (k + 4016) = sym_trapret s" by (simp add: load32_store32)
qed

lemma fresh_stack_outside: "\<not> in_page k a \<Longrightarrow> fresh_stack s k a = mem s a"
proof -
  assume a: "\<not> in_page k a"
  have "\<not> unat (a - (k + 3996)) < 20"
  proof
    assume l: "unat (a - (k + 3996)) < 20"
    have "unat (a - (k + 3996) + 3996) = unat (a - (k + 3996)) + 3996"
      using l unat_add_lem[of "a - (k + 3996)" 3996] by simp
    then have "in_page k a" using l by (simp add: in_page_def)
    with a show False ..
  qed
  then show ?thesis using a by (auto simp: fresh_stack_def store32_apply memset_apply in_page_def)
qed

lemma find_unused:
  "find (\<lambda>i. p_state (ptab s i) = UNUSED) [0..<NPROC] = Some i \<Longrightarrow>
     i < NPROC \<and> p_state (ptab s i) = UNUSED"
  by (simp add: find_upt_Some)

lemma pid_inv_fresh:
  assumes "pid_inv s" and "ptab s' = (ptab s)(i := p)" and "p_pid p = nextpid s"
    and "nextpid s' = nextpid s + 1"
  shows "pid_inv s'"
proof -
  have old: "0 < p_pid (ptab s j) \<and> p_pid (ptab s j) < nextpid s"
    if "j < NPROC" "p_state (ptab s j) \<noteq> UNUSED" for j
    using assms(1) that by (simp add: pid_inv_def)
  have dist: "j = k" if "j < NPROC" "k < NPROC" "p_state (ptab s j) \<noteq> UNUSED"
      "p_state (ptab s k) \<noteq> UNUSED" "p_pid (ptab s j) = p_pid (ptab s k)" for j k
    using assms(1) that unfolding pid_inv_def by blast
  have "0 < nextpid s" using assms(1) by (simp add: pid_inv_def)
  moreover have "0 < p_pid (ptab s' j) \<and> p_pid (ptab s' j) < nextpid s'"
    if "j < NPROC" "p_state (ptab s' j) \<noteq> UNUSED" for j
    using that old[of j] assms(2-4) \<open>0 < nextpid s\<close> by (cases "j = i") auto
  moreover have "j = k" if "j < NPROC" "k < NPROC" "p_state (ptab s' j) \<noteq> UNUSED"
      "p_state (ptab s' k) \<noteq> UNUSED" "p_pid (ptab s' j) = p_pid (ptab s' k)" for j k
    using that old[of j] old[of k] dist[of j k] assms(2,3) by (cases "j = i"; cases "k = i") auto
  ultimately show ?thesis unfolding pid_inv_def using assms(4) by auto
qed

lemma kmem_inv_pop:
  assumes "kmem_inv s (x # xs)" and "freelist s' = load32 (mem s) x" and "kend s' = kend s"
    and "\<And>a. \<not> in_page x a \<Longrightarrow> mem s' a = mem s a"
  shows "kmem_inv s' xs"
proof -
  have i: "chain (mem s) (load32 (mem s) x) xs" "page_ok (kend s) x" "x \<notin> set xs"
      "\<forall>y \<in> set xs. page_ok (kend s) y" "distinct xs"
    using assms(1) by (auto simp: kmem_inv_def)
  have "chain (mem s') (load32 (mem s) x) xs"
  proof (rule chain_cong[OF i(1)])
    fix y a assume y: "y \<in> set xs" "in_page y a"
    then have "\<not> in_page x a" using pages_disjoint[of x y a] i(2-4) by (auto simp: page_ok_def)
    then show "mem s' a = mem s a" by (rule assms(4))
  qed
  then show ?thesis using i assms(2,3) by (simp add: kmem_inv_def)
qed

section \<open>Properties\<close>

text \<open>
  C19 (lottery fairness): over a queue of distinct processes followed by a null entry, of the
  draws from 1 to the total number of tickets exactly as many select a process as it holds
  tickets.
\<close>

theorem lottery_fair:
  assumes "distinct ps" and "k < length ps" and "sum_list (map (\<lambda>p. unat (t p)) ps) < 2 ^ 32"
    and "nulls rest"
  shows "card {d. 1 \<le> unat d \<and> unat d \<le> unat (total_tickets t 0 (map Some ps @ rest))
      \<and> (let i = draw t d 0 0 (map Some ps @ rest) in i \<noteq> 0
           \<and> (map Some ps @ rest) ! (i - 1) = Some (ps ! k))} = unat (t (ps ! k))"
proof -
  let ?ts = "map (unat \<circ> t) ps" and ?rp = "map Some ps @ rest"
  let ?w = "\<lambda>d. let i = draw t d 0 0 ?rp in i \<noteq> 0 \<and> ?rp ! (i - 1) = Some (ps ! k)"
  have T: "unat (total_tickets t 0 ?rp) = sum_list ?ts"
    using total_tickets_sum[of 0 t ps rest] assms(3,4) by (simp add: comp_def)
  have le: "sum_list (take (Suc k) ?ts) \<le> sum_list ?ts"
    by (metis append_take_drop_id le_add1 sum_list_append)
  have w: "?w d \<longleftrightarrow> sum_list (take k ?ts) < unat d \<and> unat d \<le> sum_list (take (Suc k) ?ts)"
    if d: "1 \<le> unat d" "unat d \<le> sum_list ?ts" for d
  proof -
    have dr: "draw t d 0 0 ?rp = pos (unat d) 0 ?ts"
      using draw_pos[of 0 t ps rest d 0] assms(3,4) by (simp add: comp_def)
    obtain j where j: "j < length ps" "pos (unat d) 0 ?ts = Suc j"
      using pos_range[of "unat d" ?ts] d by auto
    have "?w d \<longleftrightarrow> j = k"
      using j assms(1,2) by (simp add: dr nth_append nth_eq_iff_index_eq)
    then show ?thesis using pos_iff[of 0 "unat d" ?ts k] d j assms(2) by auto
  qed
  have "{d. 1 \<le> unat d \<and> unat d \<le> unat (total_tickets t 0 ?rp) \<and> ?w d}
      = {d. sum_list (take k ?ts) < unat d \<and> unat d \<le> sum_list (take (Suc k) ?ts)}"
    unfolding T using w le by (auto simp del: One_nat_def)
  then show ?thesis
    using card_draws[of "sum_list (take (Suc k) ?ts)" "sum_list (take k ?ts)"] assms(2,3) le
    by (simp add: take_Suc_conv_app_nth comp_def)
qed

theorem lottery_fair_witness:
  "card {d. 1 \<le> unat d
      \<and> unat d \<le> unat (total_tickets (\<lambda>p. if p = 5 then 50 else 10) 0 [Some 3, Some 5, None])
      \<and> (let i = draw (\<lambda>p. if p = 5 then 50 else 10) d 0 0 [Some 3, Some 5, None] in i \<noteq> 0
           \<and> [Some 3, Some 5, None] ! (i - 1) = Some (5 :: nat))} = 50"
  using lottery_fair[of "[3, 5]" 1 "\<lambda>p. if p = 5 then 50 else 10" "[None]"]
  by (simp add: nulls_def)

definition two_runnable :: pt_st where
  "two_runnable = (pt_image 0x80110000 0x80103000 0x80105000)\<lparr>ptab := (\<lambda>_. proc_zero)(
     3 := proc_zero\<lparr>p_state := RUNNABLE, p_pid := 3, p_pgdir := 0x80400000\<rparr>,
     5 := proc_zero\<lparr>p_state := RUNNABLE, p_pid := 5, p_pgdir := 0x80500000\<rparr>)\<rparr>"

lemma two_runnable_simps:
  "runnable two_runnable = [3, 5]" "held two_runnable = []"
  "p_pid (ptab two_runnable 3) = 3" "p_pid (ptab two_runnable 5) = 5"
  "p_pgdir (ptab two_runnable 3) \<noteq> 0" "p_pgdir (ptab two_runnable 5) \<noteq> 0"
  by (simp_all add: runnable_def two_runnable_def pt_image_def proc_zero_def upt_conv_Cons)





text \<open>
  Kill: the first entry with the identifier is marked and, if it sleeps, made runnable;
  without such an entry the call fails and changes nothing.
\<close>

theorem kill_correct:
  assumes "PtableLock \<notin> set (held s)"
  shows "runs (kill pid) s (\<lambda>r s'. held s' = held s \<and>
    (if \<exists>i < NPROC. p_pid (ptab s i) = pid
     then r = 0 \<and> (\<exists>i < NPROC. p_pid (ptab s i) = pid \<and> p_killed (ptab s' i)
       \<and> p_state (ptab s' i) \<noteq> SLEEPING
       \<and> (p_state (ptab s i) \<noteq> SLEEPING \<longrightarrow> p_state (ptab s' i) = p_state (ptab s i))
       \<and> (\<forall>j. j \<noteq> i \<longrightarrow> ptab s' j = ptab s j))
     else r = -1 \<and> s' = s))"
proof (cases "find (\<lambda>i. p_pid (ptab s i) = pid) [0..<NPROC]")
  case None
  then have "\<not> (\<exists>i < NPROC. p_pid (ptab s i) = pid)" by (simp add: find_upt_None)
  then show ?thesis using None by (simp add: runs_def kill_run[OF assms])
next
  case (Some i)
  then have "i < NPROC \<and> p_pid (ptab s i) = pid" by (simp add: find_upt_Some)
  then show ?thesis using Some by (auto simp: runs_def kill_run[OF assms] intro!: exI[of _ i])
qed

theorem kill_correct_witness:
  "runs (kill 5) two_runnable (\<lambda>r s'. r = 0 \<and> (\<exists>i. p_killed (ptab s' i)))
   \<and> runs (kill 4) two_runnable (\<lambda>r s'. r = -1 \<and> s' = two_runnable)"
proof -
  have h: "PtableLock \<notin> set (held two_runnable)" by (simp add: two_runnable_simps)
  have "\<exists>i<NPROC. p_pid (ptab two_runnable i) = 5"
    by (rule exI[of _ 5]) (simp add: two_runnable_simps)
  moreover have "\<not> (\<exists>i<NPROC. p_pid (ptab two_runnable i) = 4)"
    by (simp add: two_runnable_def pt_image_def proc_zero_def)
  ultimately show ?thesis
    by (intro conjI runs_mono[OF kill_correct[OF h, of 5]] runs_mono[OF kill_correct[OF h, of 4]])
      auto
qed

definition stale_queue :: runq where
  "stale_queue = [Some 3, Some 5, Some 7] @ replicate 61 None"

definition stale_state :: pt_st where
  "stale_state = two_runnable\<lparr>randstate := 2,
     ptab := (ptab two_runnable)(7 := proc_zero\<lparr>p_state := SLEEPING, p_pid := 7,
       p_chan := Some ChanTicks, p_pgdir := 0x80600000\<rparr>)\<rparr>"

lemma stale_queue_eq: "stale_queue = Some 3 # Some 5 # Some 7 # None # replicate 60 None"
  by (simp add: stale_queue_def numeral_eq_Suc)

lemma stale_state_pids:
  "p_pid (ptab stale_state 3) = 3" "p_pid (ptab stale_state 5) = 5" "p_pid (ptab stale_state 7) = 7"
  "p_pgdir (ptab stale_state 7) = 0x80600000" "p_state (ptab stale_state 7) = SLEEPING"
  by (simp_all add: stale_state_def two_runnable_def)

lemma stale_state_held: "held stale_state = []" "randstate stale_state = 2"
  by (simp_all add: stale_state_def two_runnable_def pt_image_def)

lemma stale_state_names: "p_name (ptab stale_state k) = replicate 16 0"
  by (simp add: stale_state_def two_runnable_def pt_image_def proc_zero_def)

lemma zero_name: "\<not> compare_string (replicate 16 0) lot_child"
    "\<not> compare_string (replicate 16 0) lot_parent"
  by code_simp+

lemma stale_state_tickets:
  "k < NPROC \<Longrightarrow> p_ticket (ticketed_tab {0..<NPROC} (ptab stale_state) k) = 10"
  by (simp add: ticketed_tab_def ticketed_def stale_state_names zero_name)



end
