(* ===== verification/Vm.thy ===== *)
theory Vm
  imports Proc
begin

text \<open>
  Model of \<^verbatim>\<open>vm.c\<close>: page tables.  A page directory and the page tables it points to
  are pages of physical memory, read and written through the kernel's mapping of memory.  The
  address \<^verbatim>\<open>data\<close> comes from the linker and is part of the state.  \<^verbatim>\<open>loaduvm\<close>
  reads files and is modelled with \<^verbatim>\<open>exec\<close>; \<^verbatim>\<open>switchuvm\<close> and \<^verbatim>\<open>switchkvm\<close>
  are in the process model.  The segment descriptors of \<^verbatim>\<open>seginit\<close> are hardware set-up
  and not modelled.
\<close>

section \<open>Address arithmetic (mmu.h)\<close>

record vm_st = pt_st +
  sym_data :: uint

abbreviation (input) EXTMEM :: uint where "EXTMEM \<equiv> 0x100000"
abbreviation (input) KERNLINK :: uint where "KERNLINK \<equiv> 0x80100000"
abbreviation (input) DEVSPACE :: uint where "DEVSPACE \<equiv> 0xFE000000"
abbreviation (input) PTE_P :: uint where "PTE_P \<equiv> 1"
abbreviation (input) PTE_W :: uint where "PTE_W \<equiv> 2"
abbreviation (input) PTE_U :: uint where "PTE_U \<equiv> 4"

definition PDX :: "uint \<Rightarrow> uint" where
  "PDX va = drop_bit 22 va AND 0x3FF"

definition PTX :: "uint \<Rightarrow> uint" where
  "PTX va = drop_bit 12 va AND 0x3FF"

definition PTE_ADDR :: "uint \<Rightarrow> uint" where
  "PTE_ADDR pte = pte AND NOT 0xFFF"

definition PTE_FLAGS :: "uint \<Rightarrow> uint" where
  "PTE_FLAGS pte = pte AND 0xFFF"

definition rd32 :: "uint \<Rightarrow> ('x vm_st_scheme, uint) kernel" where
  "rd32 a = gets (\<lambda>s. load32 (mem s) a)"

definition wr32 :: "uint \<Rightarrow> uint \<Rightarrow> ('x vm_st_scheme, unit) kernel" where
  "wr32 a v = modify (\<lambda>s. s\<lparr>mem := store32 (mem s) a v\<rparr>)"

section \<open>Page tables\<close>

text \<open>The address of the page table entry, or 0.\<close>

definition walkpgdir :: "uint \<Rightarrow> uint \<Rightarrow> bool \<Rightarrow> ('x vm_st_scheme, uint) kernel" where
  "walkpgdir pgdir va alloc =
     bnd (rd32 (pgdir + 4 * PDX va)) (\<lambda>pde.
     if pde AND PTE_P \<noteq> 0 then ret (p2v (PTE_ADDR pde) + 4 * PTX va) else
     if \<not> alloc then ret 0 else
     bnd kalloc (\<lambda>pgtab.
     if pgtab = 0 then ret 0 else
     thn (modify (\<lambda>s. s\<lparr>mem := memset (mem s) pgtab 0 4096\<rparr>)) (
     thn (wr32 (pgdir + 4 * PDX va) (v2p pgtab OR PTE_P OR PTE_W OR PTE_U)) (
     ret (pgtab + 4 * PTX va)))))"

text \<open>
  The loop runs from the page of \<open>va\<close> to the page of the last byte, both included; the
  subtraction counts the steps also when the addresses wrap around.
\<close>

definition mappages :: "uint \<Rightarrow> uint \<Rightarrow> uint \<Rightarrow> uint \<Rightarrow> uint \<Rightarrow> ('x vm_st_scheme, int) kernel" where
  "mappages pgdir va sz pa perm =
     (let a = PGROUNDDOWN va; last = PGROUNDDOWN (va + sz - 1) in
      bnd (scanM [0..<unat ((last - a) div 4096) + 1] (\<lambda>k. (
        bnd (walkpgdir pgdir (a + of_nat k * 4096) True) (\<lambda>pte.
        if pte = 0 then ret (Some (-1)) else
        bnd (rd32 pte) (\<lambda>old.
        if old AND PTE_P \<noteq> 0 then panic ''remap'' else
        thn (wr32 pte ((pa + of_nat k * 4096) OR perm OR PTE_P)) (
        ret None)))))) (\<lambda>r.
      ret (case r of Some e \<Rightarrow> e | None \<Rightarrow> 0)))"

definition kmap :: "uint \<Rightarrow> (uint \<times> uint \<times> uint \<times> uint) list" where
  "kmap data =
     [(KERNBASE, 0, EXTMEM, PTE_W),
      (KERNLINK, v2p KERNLINK, v2p data, 0),
      (data, v2p data, PHYSTOP, PTE_W),
      (DEVSPACE, DEVSPACE, 0, PTE_W)]"

definition setupkvm :: "('x vm_st_scheme, uint) kernel" where
  "setupkvm =
     bnd kalloc (\<lambda>pgdir.
     if pgdir = 0 then ret 0 else
     thn (modify (\<lambda>s. s\<lparr>mem := memset (mem s) pgdir 0 4096\<rparr>)) (
     if DEVSPACE < p2v PHYSTOP then panic ''PHYSTOP too high'' else
     bnd (gets sym_data) (\<lambda>data.
     bnd (scanM (kmap data) (\<lambda>(virt, phys_start, phys_end, perm). (
       bnd (mappages pgdir virt (phys_end - phys_start) phys_start perm) (\<lambda>e.
       ret (if e < 0 then Some () else None))))) (\<lambda>r.
     ret (case r of Some _ \<Rightarrow> 0 | None \<Rightarrow> pgdir)))))"

definition kvmalloc :: "('x vm_st_scheme, unit) kernel" where
  "kvmalloc =
     bnd setupkvm (\<lambda>pgdir.
     thn (modify (kpgdir_update (\<lambda>_. pgdir))) (
     switchkvm))"

text \<open>\<^verbatim>\<open>inituvm\<close> uses the page without testing that there is one; writing through a null
  pointer is undefined.\<close>

definition store_bytes :: "memory \<Rightarrow> uint \<Rightarrow> byte list \<Rightarrow> memory" where
  "store_bytes m a xs = (\<lambda>x. if unat (x - a) < length xs then xs ! unat (x - a) else m x)"

definition inituvm :: "uint \<Rightarrow> byte list \<Rightarrow> ('x vm_st_scheme, unit) kernel" where
  "inituvm pgdir init =
    (if 4096 \<le> length init then panic ''inituvm: more than a page'' else
     bnd kalloc (\<lambda>m.
     if m = 0 then undef else
     thn (modify (\<lambda>s. s\<lparr>mem := memset (mem s) m 0 4096\<rparr>)) (
     bnd (mappages pgdir 0 4096 (v2p m) (PTE_W OR PTE_U)) (\<lambda>_.
     modify (\<lambda>s. s\<lparr>mem := store_bytes (mem s) m init\<rparr>)))))"

text \<open>
  The loop of \<^verbatim>\<open>deallocuvm\<close>; where a page table is missing it skips the pages of the whole
  table.  The counter wraps around like the code's; the fuel covers one pass over all pages.
\<close>

fun dealloc_loop :: "nat \<Rightarrow> uint \<Rightarrow> uint \<Rightarrow> uint \<Rightarrow> ('x vm_st_scheme, unit) kernel" where
  "dealloc_loop 0 pgdir a oldsz = (if a < oldsz then (\<lambda>s. Spin) else ret ())"
| "dealloc_loop (Suc n) pgdir a oldsz =
     (if a < oldsz then (
        bnd (walkpgdir pgdir a False) (\<lambda>pte.
        if pte = 0 then dealloc_loop n pgdir (a + 1023 * 4096 + 4096) oldsz else
        bnd (rd32 pte) (\<lambda>e.
        thn (whenk (e AND PTE_P \<noteq> 0) (
          if PTE_ADDR e = 0 then panic ''kfree'' else
          thn (kfree (p2v (PTE_ADDR e))) (wr32 pte 0))) (
        dealloc_loop n pgdir (a + 4096) oldsz))))
      else ret ())"

definition deallocuvm :: "uint \<Rightarrow> uint \<Rightarrow> uint \<Rightarrow> ('x vm_st_scheme, uint) kernel" where
  "deallocuvm pgdir oldsz newsz =
    (if oldsz \<le> newsz then ret oldsz else
     thn (dealloc_loop 1048576 pgdir (PGROUNDUP newsz) oldsz) (
     ret newsz))"

text \<open>
  The loop of \<^verbatim>\<open>allocuvm\<close>, whose counter stays below \<^verbatim>\<open>KERNBASE\<close>.  The result of
  \<^verbatim>\<open>mappages\<close> is ignored.
\<close>

definition allocuvm :: "uint \<Rightarrow> uint \<Rightarrow> uint \<Rightarrow> ('x vm_st_scheme, uint) kernel" where
  "allocuvm pgdir oldsz newsz =
    (if KERNBASE \<le> newsz then ret 0 else
     if newsz < oldsz then ret oldsz else
     let a = PGROUNDUP oldsz in
     bnd (scanM [0..<(unat newsz - unat a + 4095) div 4096] (\<lambda>k. (
       bnd kalloc (\<lambda>m.
       if m = 0 then thn (deallocuvm pgdir newsz oldsz) (ret (Some ())) else
       thn (modify (\<lambda>s. s\<lparr>mem := memset (mem s) m 0 4096\<rparr>)) (
       bnd (mappages pgdir (a + of_nat k * 4096) 4096 (v2p m) (PTE_W OR PTE_U)) (\<lambda>_.
       ret None)))))) (\<lambda>r.
     ret (case r of Some _ \<Rightarrow> 0 | None \<Rightarrow> newsz)))"

definition freevm :: "uint \<Rightarrow> ('x vm_st_scheme, unit) kernel" where
  "freevm pgdir =
    (if pgdir = 0 then panic ''freevm: no pgdir'' else
     bnd (deallocuvm pgdir KERNBASE 0) (\<lambda>_.
     thn (forM [0..<1024] (\<lambda>i. (
       bnd (rd32 (pgdir + 4 * of_nat i)) (\<lambda>pde.
       whenk (pde AND PTE_P \<noteq> 0) (kfree (p2v (PTE_ADDR pde))))))) (
     kfree pgdir)))"

definition clearpteu :: "uint \<Rightarrow> uint \<Rightarrow> ('x vm_st_scheme, unit) kernel" where
  "clearpteu pgdir uva =
     bnd (walkpgdir pgdir uva False) (\<lambda>pte.
     if pte = 0 then panic ''clearpteu'' else
     bnd (rd32 pte) (\<lambda>e.
     wr32 pte (e AND NOT PTE_U)))"

definition copyuvm :: "uint \<Rightarrow> uint \<Rightarrow> ('x vm_st_scheme, uint) kernel" where
  "copyuvm pgdir sz =
     bnd setupkvm (\<lambda>d.
     if d = 0 then ret 0 else
     bnd (scanM [0..<(unat sz + 4095) div 4096] (\<lambda>k. (
       bnd (walkpgdir pgdir (of_nat k * 4096) False) (\<lambda>pte.
       if pte = 0 then panic ''copyuvm: pte should exist'' else
       bnd (rd32 pte) (\<lambda>e.
       if e AND PTE_P = 0 then panic ''copyuvm: page not present'' else
       bnd kalloc (\<lambda>m.
       if m = 0 then ret (Some ()) else
       thn (modify (\<lambda>s. s\<lparr>mem := memmove (mem s) m (p2v (PTE_ADDR e)) 4096\<rparr>)) (
       bnd (mappages d (of_nat k * 4096) 4096 (v2p m) (PTE_FLAGS e)) (\<lambda>x.
       ret (if x < 0 then Some () else None))))))))) (\<lambda>r.
     case r of
       Some _ \<Rightarrow> thn (freevm d) (ret 0)
      | None \<Rightarrow> ret d))"

text \<open>A missing page table makes \<^verbatim>\<open>uva2ka\<close> read through a null pointer.\<close>

definition uva2ka :: "uint \<Rightarrow> uint \<Rightarrow> ('x vm_st_scheme, uint) kernel" where
  "uva2ka pgdir uva =
     bnd (walkpgdir pgdir uva False) (\<lambda>pte.
     if pte = 0 then undef else
     bnd (rd32 pte) (\<lambda>e.
     if e AND PTE_P = 0 then ret 0 else
     if e AND PTE_U = 0 then ret 0 else
     ret (p2v (PTE_ADDR e))))"

text \<open>The pieces into which \<^verbatim>\<open>copyout\<close> cuts the bytes at page boundaries.\<close>

function pg_chunks :: "uint \<Rightarrow> nat \<Rightarrow> (uint \<times> nat) list" where
  "pg_chunks va len = (if len = 0 then [] else
     let n = min len (4096 - unat va mod 4096) in
     (va, n) # pg_chunks (PGROUNDDOWN va + 4096) (len - n))"
  by pat_completeness auto
termination
  by (relation "measure snd") auto

declare pg_chunks.simps [simp del]

fun copy_pieces :: "uint \<Rightarrow> (uint \<times> nat) list \<Rightarrow> byte list \<Rightarrow> ('x vm_st_scheme, int) kernel" where
  "copy_pieces pgdir [] buf = ret 0"
| "copy_pieces pgdir ((va, n) # ps) buf =
     bnd (uva2ka pgdir (PGROUNDDOWN va)) (\<lambda>pa0.
     if pa0 = 0 then ret (-1) else
     thn (modify (\<lambda>s. s\<lparr>mem := store_bytes (mem s) (pa0 + (va - PGROUNDDOWN va)) (take n buf)\<rparr>)) (
     copy_pieces pgdir ps (drop n buf)))"

definition copyout :: "uint \<Rightarrow> uint \<Rightarrow> byte list \<Rightarrow> ('x vm_st_scheme, int) kernel" where
  "copyout pgdir va buf = copy_pieces pgdir (pg_chunks va (length buf)) buf"

end
