(* ===== verification/Pagetab.thy ===== *)
theory Pagetab
  imports Vm
begin

text \<open>
  Page tables as address spaces.  For a page directory in memory, \<open>entry\<close> gives the page table
  entry of an address; \<open>pt_inv\<close> says that directory and tables are distinct pages outside the
  pool of the allocator.  The lemmas give the effect of \<^verbatim>\<open>walkpgdir\<close> and
  \<^verbatim>\<open>mappages\<close> on the entries and on the rest of memory.
\<close>

section \<open>Words of memory\<close>

definition al4 :: "uint \<Rightarrow> bool" where
  "al4 a \<longleftrightarrow> unat a mod 4 = 0"

lemma al4_iff: "al4 a \<longleftrightarrow> a mod 4 = 0"
  using unat_mod_distrib[of a 4] by (simp add: al4_def word_unat_eq_iff)

lemma al4_differ:
  assumes "al4 a" "al4 b" "a \<noteq> b" "i < 4" "j < 4"
  shows "a + of_nat i \<noteq> b + of_nat j"
proof
  assume e: "a + of_nat i = b + of_nat j"
  have u: "unat (x + of_nat k) = unat x + k" if x: "al4 x" and k: "k < 4" for x :: uint and k
  proof -
    obtain q where q: "unat x = 4 * q" using x unfolding al4_def mod_eq_0_iff_dvd by (rule dvdE)
    then have "q < 2 ^ 30" using unat_lt32[of x] by simp
    then have "unat x + k < 2 ^ 32" using q k by simp
    then show ?thesis by (simp add: unat_add_of_nat)
  qed
  have "unat a + i = unat b + j" using u[OF assms(1,4)] u[OF assms(2,5)] e by simp
  then have "unat a = unat b" using assms(1,2,4,5) unfolding al4_def by presburger
  then show False using assms(3) by (simp add: word_unat_eq_iff)
qed

lemma load_store:
  assumes "al4 a" "al4 b"
  shows "load32 (store32 m a v) b = (if a = b then v else load32 m b)"
proof (cases "a = b")
  case False
  have d: "b + of_nat j \<noteq> a + of_nat i" if "i < 4" "j < 4" for i j
    using al4_differ[OF assms False that] by metis
  have "store32 m a v (b + of_nat j) = m (b + of_nat j)" if "j < 4" for j
    using d[of 0 j] d[of 1 j] d[of 2 j] d[of 3 j] that by (simp add: store32_apply)
  from this[of 0] this[of 1] this[of 2] this[of 3] show ?thesis using False by (simp add: load32_def)
qed (simp add: load32_store32)

section \<open>Indices and flags\<close>

lemma PDX_unat: "unat (PDX va) = unat va div 2 ^ 22"
proof -
  have "unat va div 2 ^ 22 < 1024" using unat_lt32[of va] by simp
  moreover have m: "(0x3FF :: uint) = mask 10" by (simp add: mask_eq_exp_minus_1)
  moreover have "unat (drop_bit 22 va AND mask 10) = unat va div 2 ^ 22 mod 2 ^ 10"
    by (simp add: take_bit_eq_mask[symmetric] unsigned_take_bit_eq unsigned_drop_bit_eq take_bit_eq_mod drop_bit_eq_div unat_mod_distrib unat_div_distrib)
  ultimately show ?thesis by (simp add: PDX_def)
qed

lemma PTX_unat: "unat (PTX va) = unat va div 4096 mod 1024"
proof -
  have m: "(0x3FF :: uint) = mask 10" by (simp add: mask_eq_exp_minus_1)
  have "unat (drop_bit 12 va AND mask 10) = unat va div 2 ^ 12 mod 2 ^ 10"
    by (simp add: take_bit_eq_mask[symmetric] unsigned_take_bit_eq unsigned_drop_bit_eq take_bit_eq_mod drop_bit_eq_div unat_mod_distrib unat_div_distrib)
  then show ?thesis by (simp add: PTX_def m)
qed

text \<open>The page number of an address.\<close>

definition pgno :: "uint \<Rightarrow> nat" where
  "pgno va = unat va div 4096"

lemma pgno_eq_iff: "pgno a = pgno b \<longleftrightarrow> PDX a = PDX b \<and> PTX a = PTX b"
proof -
  have "pgno x = 1024 * unat (PDX x) + unat (PTX x)" "unat (PTX x) < 1024" for x
  proof -
    have "unat x div 2 ^ 22 = unat x div 4096 div 1024" by (simp add: div_mult2_eq[symmetric])
    then show "pgno x = 1024 * unat (PDX x) + unat (PTX x)" by (simp add: pgno_def PDX_unat PTX_unat)
    show "unat (PTX x) < 1024" by (simp add: PTX_unat)
  qed
  moreover have "1024 * p + q = 1024 * p' + q' \<longleftrightarrow> p = p' \<and> q = q'" if "q < 1024" "q' < 1024" for p q p' q' :: nat
  proof -
    have "(1024 * x + y) div 1024 = x" "(1024 * x + y) mod 1024 = y" if "y < 1024" for x y :: nat using that by simp_all
    then show ?thesis using that by metis
  qed
  ultimately show ?thesis by (simp add: word_unat_eq_iff)
qed

lemma in_slot:
  assumes "pg_aligned p" "unat i < 1024"
  shows "in_page p (p + 4 * i)" "al4 (p + 4 * i)"
proof -
  have i: "unat (4 * i) = 4 * unat i" using assms(2) unat_mult_lem[of 4 i] by simp
  then show "in_page p (p + 4 * i)" using assms(2) by (simp add: in_page_def)
  obtain k where k: "unat p = 4096 * k" using aligned_unat[OF assms(1)] by blast
  then have "k < 2 ^ 20" using unat_lt32[of p] by simp
  then have "unat p + unat (4 * i) < 2 ^ 32" using k i assms(2) by simp
  then have "unat (p + 4 * i) = 4096 * k + 4 * unat i" using k i unat_add_lem[of p "4 * i"] by simp
  also have "\<dots> = 4 * (1024 * k + unat i)" by simp
  finally show "al4 (p + 4 * i)" by (simp add: al4_def)
qed

lemma slot_inj: "unat i < 1024 \<Longrightarrow> unat j < 1024 \<Longrightarrow> (p :: uint) + 4 * i = p + 4 * j \<longleftrightarrow> i = j"
  using unat_mult_lem[of 4 i] unat_mult_lem[of 4 j] by (simp add: word_unat_eq_iff[of i j] word_unat_eq_iff[of "4 * i" "4 * j"])

lemma page_ok_aligned: "page_ok e p \<Longrightarrow> pg_aligned p"
  by (simp add: page_ok_def)

text \<open>An entry for a page: the address of the page with some of the low twelve bits.\<close>

lemma aligned_bit: "pg_aligned x \<Longrightarrow> n < 12 \<Longrightarrow> \<not> bit x n"
proof -
  assume x: "pg_aligned x" "n < 12"
  have "take_bit 12 x = 0" using x(1) by (simp add: pg_aligned_def take_bit_eq_mod)
  then have "\<not> bit (take_bit 12 x) n" by simp
  then show ?thesis using x(2) by (simp add: bit_take_bit_iff)
qed

lemma small_bit: "(f :: uint) < 4096 \<Longrightarrow> 12 \<le> n \<Longrightarrow> \<not> bit f n"
proof -
  assume f: "f < 4096" "12 \<le> n"
  have "take_bit 12 f = f" using f(1) by (simp add: take_bit_eq_mod word_less_nat_alt word_unat_eq_iff unat_mod_distrib)
  then show ?thesis using f(2) by (metis bit_take_bit_iff not_less)
qed

lemma PTE_ADDR_or: "pg_aligned x \<Longrightarrow> f < 4096 \<Longrightarrow> PTE_ADDR (x OR f) = x"
proof (rule bit_word_eqI)
  fix n assume a: "pg_aligned x" "f < 4096" "n < LENGTH(32)"
  have m: "(0xFFF :: uint) = mask 12" by (simp add: mask_eq_exp_minus_1)
  show "bit (PTE_ADDR (x OR f)) n = bit x n"
    unfolding PTE_ADDR_def m using aligned_bit[OF a(1), of n] small_bit[OF a(2), of n] a(3)
    by (cases "n < 12") (auto simp: bit_simps)
qed

lemma PTE_ADDR_aligned: "pg_aligned (PTE_ADDR e)"
  using clear_low_bits[of e] by (simp add: PTE_ADDR_def pg_aligned_iff)

lemma or_small: "f < 4096 \<Longrightarrow> g < 4096 \<Longrightarrow> (f :: uint) OR g < 4096"
proof -
  assume a: "f < 4096" "g < 4096"
  have "take_bit 12 (f OR g) = f OR g"
    by (rule bit_word_eqI) (use small_bit[OF a(1)] small_bit[OF a(2)] in \<open>auto simp: bit_simps not_less[symmetric]\<close>)
  moreover have "unat (take_bit 12 (f OR g)) < 4096" by (simp add: take_bit_eq_mod unat_mod_distrib)
  ultimately show ?thesis by (simp add: word_less_nat_alt)
qed

lemma present_iff: "e AND PTE_P \<noteq> 0 \<longleftrightarrow> bit e 0"
  by (simp add: and_one_eq even_bit_succ_iff bit_0 odd_iff_mod_2_eq_one)

lemma present_or [simp]: "(x OR f OR PTE_P) AND PTE_P \<noteq> 0" "(x OR PTE_P) AND PTE_P \<noteq> 0" "(x OR PTE_P OR f) AND PTE_P \<noteq> 0"
  unfolding present_iff by (simp_all add: bit_simps)

section \<open>The address space of a page directory\<close>

text \<open>
  What a page directory \<open>d\<close> in the memory \<open>m\<close> says of an address: whether its page
  table is there, where the page table is, the address of the entry, and the entry, zero without a table.
\<close>

definition has_tab :: "memory \<Rightarrow> uint \<Rightarrow> uint \<Rightarrow> bool" where
  "has_tab m d va \<longleftrightarrow> load32 m (d + 4 * PDX va) AND PTE_P \<noteq> 0"

definition tab :: "memory \<Rightarrow> uint \<Rightarrow> uint \<Rightarrow> uint" where
  "tab m d va = p2v (PTE_ADDR (load32 m (d + 4 * PDX va)))"

definition slot :: "memory \<Rightarrow> uint \<Rightarrow> uint \<Rightarrow> uint" where
  "slot m d va = tab m d va + 4 * PTX va"

definition entry :: "memory \<Rightarrow> uint \<Rightarrow> uint \<Rightarrow> uint" where
  "entry m d va = (if has_tab m d va then load32 m (slot m d va) else 0)"

text \<open>
  The tables of a directory are pages of their own, outside the pool \<open>xs\<close> of free pages, and no two
  directory entries share one.
\<close>

definition tabs :: "memory \<Rightarrow> uint \<Rightarrow> uint set" where
  "tabs m d = {tab m d va |va. has_tab m d va}"

definition pt_inv :: "'x vm_st_scheme \<Rightarrow> uint \<Rightarrow> uint list \<Rightarrow> bool" where
  "pt_inv s d xs \<longleftrightarrow> kpool s xs \<and> page_ok (kend s) d \<and> d \<notin> set xs
     \<and> (\<forall>p \<in> tabs (mem s) d. page_ok (kend s) p \<and> p \<noteq> d \<and> p \<notin> set xs)
     \<and> (\<forall>va va'. has_tab (mem s) d va \<longrightarrow> has_tab (mem s) d va' \<longrightarrow> tab (mem s) d va = tab (mem s) d va' \<longrightarrow> PDX va = PDX va')"

lemma pt_invD:
  assumes "pt_inv s d xs"
  shows "kpool s xs" "page_ok (kend s) d" "pg_aligned d" "d \<notin> set xs"
    "p \<in> tabs (mem s) d \<Longrightarrow> page_ok (kend s) p \<and> pg_aligned p \<and> p \<noteq> d \<and> p \<notin> set xs"
    "has_tab (mem s) d va \<Longrightarrow> tab (mem s) d va \<in> tabs (mem s) d"
    "has_tab (mem s) d va \<Longrightarrow> has_tab (mem s) d va' \<Longrightarrow> tab (mem s) d va = tab (mem s) d va' \<Longrightarrow> PDX va = PDX va'"
  using assms unfolding pt_inv_def page_ok_def tabs_def by blast+

lemma pt_inv_same:
  assumes "pt_inv s d xs" "kpool t ys" "set ys \<subseteq> set xs" "kend t = kend s"
    "\<And>v. has_tab (mem t) d v = has_tab (mem s) d v" "\<And>v. tab (mem t) d v = tab (mem s) d v"
  shows "pt_inv t d ys" "tabs (mem t) d = tabs (mem s) d"
proof -
  show tb: "tabs (mem t) d = tabs (mem s) d" by (simp add: tabs_def assms(5,6))
  show "pt_inv t d ys"
    unfolding pt_inv_def tb assms(4-6) using assms(2,3) pt_invD(2,4,5,7)[OF assms(1)] by blast
qed

lemma PDX_bound [simp]: "unat (PDX va) < 1024"
  using unat_lt32[of va] by (simp add: PDX_unat)

lemma PTX_bound [simp]: "unat (PTX va) < 1024"
  by (simp add: PTX_unat)

lemma has_tab_PDX: "PDX va = PDX va' \<Longrightarrow> has_tab m d va = has_tab m d va' \<and> tab m d va = tab m d va'"
  by (simp add: has_tab_def tab_def)

text \<open>Memory that agrees on the directory and on its tables gives the same address space.\<close>

lemma slot_bytes:
  assumes "unat i < 1024" "k < 4"
  shows "in_page p (p + 4 * i + of_nat k)"
proof -
  have i: "unat (4 * i) = 4 * unat i" using assms(1) unat_mult_lem[of 4 i] by simp
  have "unat (4 * i + of_nat k) = unat (4 * i) + k" by (rule unat_add_of_nat) (use i assms in simp)
  then show ?thesis using i assms by (simp add: in_page_def add.assoc)
qed

lemma word_cong:
  assumes "unat i < 1024" "\<And>a. in_page p a \<Longrightarrow> m' a = m a"
  shows "load32 m' (p + 4 * i) = load32 m (p + 4 * i)"
  using slot_bytes[OF assms(1), of 0 p] slot_bytes[OF assms(1), of 1 p] slot_bytes[OF assms(1), of 2 p] slot_bytes[OF assms(1), of 3 p] assms(2)
  by (simp add: load32_def add.assoc)

lemma store_word_other:
  assumes "unat i < 1024" "\<not> in_page p a"
  shows "store32 m (p + 4 * i) v a = m a"
  using slot_bytes[OF assms(1), of 0 p] slot_bytes[OF assms(1), of 1 p] slot_bytes[OF assms(1), of 2 p] slot_bytes[OF assms(1), of 3 p] assms(2)
  by (auto simp: store32_apply)

lemma space_cong:
  assumes "\<And>a. in_page d a \<Longrightarrow> m' a = m a" "\<And>p a. p \<in> tabs m d \<Longrightarrow> in_page p a \<Longrightarrow> m' a = m a"
  shows "has_tab m' d va = has_tab m d va" "tab m' d va = tab m d va" "entry m' d va = entry m d va"
    "slot m' d va = slot m d va" "tabs m' d = tabs m d"
proof -
  have t: "has_tab m' d va = has_tab m d va" "tab m' d va = tab m d va" for va
    unfolding has_tab_def tab_def using word_cong[OF PDX_bound assms(1)] by simp_all
  then show "has_tab m' d va = has_tab m d va" "tab m' d va = tab m d va" "slot m' d va = slot m d va" "tabs m' d = tabs m d"
    by (simp_all add: slot_def tabs_def)
  have "load32 m' (tab m d va + 4 * PTX va) = load32 m (tab m d va + 4 * PTX va)" if "has_tab m d va"
  proof (rule word_cong)
    have i: "tab m d va \<in> tabs m d" using that by (auto simp: tabs_def)
    show "m' a = m a" if "in_page (tab m d va) a" for a by (rule assms(2)[OF i that])
  qed simp
  then show "entry m' d va = entry m d va" using t by (simp add: entry_def slot_def)
qed

lemma kpool_cong:
  assumes "kpool s xs" "mem s' = m" "freelist s' = freelist s" "kend s' = kend s" "use_lock s' = use_lock s" "held s' = held s"
    "\<And>x a. x \<in> set xs \<Longrightarrow> in_page x a \<Longrightarrow> m a = mem s a"
  shows "kpool s' xs"
  using assms chain_cong[of "mem s" "freelist s" xs m] by (auto simp: kpool_def kmem_inv_def kmem_free_def)

section \<open>Walking and mapping\<close>

lemma kalloc_nil: "kpool s [] \<Longrightarrow> kalloc s = Ret 0 s"
  unfolding kpool_def using kalloc_eq[of s] by (auto simp: kmem_inv_def)

lemma kalloc_cons:
  "kpool s (x # xs) \<Longrightarrow> kalloc s = Ret x (s\<lparr>freelist := load32 (mem s) x\<rparr>) \<and> kpool (s\<lparr>freelist := load32 (mem s) x\<rparr>) xs \<and> x \<noteq> 0 \<and> x \<notin> set xs \<and> page_ok (kend s) x"
  unfolding kpool_def using kalloc_eq[of s] by (auto simp: kmem_inv_def kmem_free_def)

lemma walkpgdir_tab:
  "has_tab (mem s) d va \<Longrightarrow> walkpgdir d va alloc s = Ret (slot (mem s) d va) s"
  by (simp add: walkpgdir_def rd32_def kstep has_tab_def slot_def tab_def)

lemma walkpgdir_none:
  "\<not> has_tab (mem s) d va \<Longrightarrow> walkpgdir d va False s = Ret 0 s"
  by (simp add: walkpgdir_def rd32_def kstep has_tab_def)

lemma walkpgdir_full:
  "\<not> has_tab (mem s) d va \<Longrightarrow> kpool s [] \<Longrightarrow> walkpgdir d va True s = Ret 0 s"
  by (simp add: walkpgdir_def rd32_def kstep has_tab_def kalloc_nil)

definition new_tab :: "memory \<Rightarrow> uint \<Rightarrow> uint \<Rightarrow> uint \<Rightarrow> memory" where
  "new_tab m d va x = store32 (memset m x 0 4096) (d + 4 * PDX va) (v2p x OR PTE_P OR PTE_W OR PTE_U)"

lemma walkpgdir_new:
  assumes "\<not> has_tab (mem s) d va" "kpool s (x # xs)"
  shows "walkpgdir d va True s = Ret (x + 4 * PTX va) (s\<lparr>freelist := load32 (mem s) x, mem := new_tab (mem s) d va x\<rparr>)"
  using assms kalloc_cons[OF assms(2)] by (simp add: walkpgdir_def rd32_def wr32_def kstep has_tab_def new_tab_def)

lemma new_tab_other: "\<not> in_page d a \<Longrightarrow> \<not> in_page x a \<Longrightarrow> new_tab m d va x a = m a"
  unfolding new_tab_def by (simp add: store_word_other memset_apply in_page_def)

lemma new_tab_dir:
  assumes "pg_aligned d" "pg_aligned x" "x \<noteq> d"
  shows "load32 (new_tab m d va x) (d + 4 * PDX va') =
    (if PDX va' = PDX va then v2p x OR PTE_P OR PTE_W OR PTE_U else load32 m (d + 4 * PDX va'))"
proof -
  have "load32 (memset m x 0 4096) (d + 4 * PDX va') = load32 m (d + 4 * PDX va')"
  proof (rule word_cong[OF PDX_bound])
    fix a assume "in_page d a"
    then have "\<not> in_page x a" using pages_disjoint[OF assms(2,1)] assms(3) by blast
    then show "memset m x 0 4096 a = m a" by (simp add: memset_apply in_page_def)
  qed
  then show ?thesis
    unfolding new_tab_def using load_store[OF in_slot(2)[OF assms(1) PDX_bound[of va]] in_slot(2)[OF assms(1) PDX_bound[of va']]]
      slot_inj[OF PDX_bound PDX_bound, of d va va'] by auto
qed

lemma page_frame:
  assumes "page_ok e x"
  shows "pg_aligned (v2p x)" "p2v (v2p x) = x"
proof -
  have y: "v2p x < PHYSTOP" "x = v2p x + 0x80000000" using assms by (simp_all add: page_ok_def v2p_def)
  then have "unat (v2p x) + unat (0x80000000 :: uint) < 2 ^ LENGTH(32)" by (simp add: word_less_nat_alt)
  then have "unat x = unat (v2p x) + 0x80000000" using unat_add_lem[of "v2p x" "0x80000000"] y(2) by simp
  moreover have "4096 dvd unat x" using assms by (simp add: page_ok_def pg_aligned_iff mod_eq_0_iff_dvd)
  moreover have "(4096 :: nat) dvd 0x80000000" by simp
  ultimately have "4096 dvd unat (v2p x)" by (metis dvd_add_left_iff)
  then show "pg_aligned (v2p x)" by (simp add: pg_aligned_iff)
  show "p2v (v2p x) = x" by (simp add: p2v_def v2p_def)
qed

lemma new_tab_space:
  assumes inv: "pt_inv s d (x # xs)" and no: "\<not> has_tab (mem s) d va"
  defines "m' \<equiv> new_tab (mem s) d va x"
  shows "has_tab m' d va' \<longleftrightarrow> has_tab (mem s) d va' \<or> PDX va' = PDX va"
    "tab m' d va' = (if PDX va' = PDX va then x else tab (mem s) d va')"
    "entry m' d va' = entry (mem s) d va'"
proof -
  have x: "page_ok (kend s) x" "x \<noteq> d" "x \<notin> tabs (mem s) d"
    using pt_invD(1,4,5)[OF inv] kalloc_cons[of s x xs] by auto
  note al = page_ok_aligned[OF x(1)] pt_invD(3)[OF inv]
  note dir = new_tab_dir[OF al(2,1) x(2), of "mem s" va, folded m'_def]
  have f: "PTE_ADDR (v2p x OR PTE_P OR PTE_W OR PTE_U) = v2p x"
    by (rule PTE_ADDR_or[OF page_frame(1)[OF x(1)]]) simp
  show h: "has_tab m' d va' \<longleftrightarrow> has_tab (mem s) d va' \<or> PDX va' = PDX va"
    and t: "tab m' d va' = (if PDX va' = PDX va then x else tab (mem s) d va')" for va'
    unfolding has_tab_def tab_def dir present_iff using f page_frame(2)[OF x(1)] no by (auto simp: has_tab_def bit_simps)
  show "entry m' d va' = entry (mem s) d va'"
  proof (cases "PDX va' = PDX va")
    case True
    have "load32 m' (x + 4 * PTX va') = load32 (\<lambda>_. 0) (x + 4 * PTX va')"
    proof (rule word_cong[OF PTX_bound])
      fix a assume a: "in_page x a"
      then have "\<not> in_page d a" using pages_disjoint[OF al] x(2) by blast
      then have "m' a = memset (mem s) x 0 4096 a" by (simp add: m'_def new_tab_def store_word_other)
      then show "m' a = 0" using a by (simp add: memset_apply in_page_def)
    qed
    moreover have "\<not> has_tab (mem s) d va'" using has_tab_PDX[OF True] no by simp
    ultimately show ?thesis using h t True by (simp add: entry_def slot_def load32_def)
  next
    case False
    have "load32 m' (tab (mem s) d va' + 4 * PTX va') = load32 (mem s) (tab (mem s) d va' + 4 * PTX va')" if "has_tab (mem s) d va'"
    proof (rule word_cong)
      note p = pt_invD(5)[OF inv pt_invD(6)[OF inv that]]
      fix a assume "in_page (tab (mem s) d va') a"
      then have "\<not> in_page d a" "\<not> in_page x a" using p pages_disjoint al by auto
      then show "m' a = mem s a" unfolding m'_def by (rule new_tab_other)
    qed simp
    then show ?thesis using h t False by (simp add: entry_def slot_def)
  qed
qed

text \<open>
  The states that walking and mapping lead to: some free pages have become tables of the directory,
  and the memory differs only in the directory and its tables.
\<close>

definition pt_ext :: "'x vm_st_scheme \<Rightarrow> uint \<Rightarrow> uint list \<Rightarrow> 'x vm_st_scheme \<Rightarrow> uint list \<Rightarrow> bool" where
  "pt_ext s d xs s' xs' \<longleftrightarrow> pt_inv s' d xs' \<and> (\<exists>k. xs' = drop k xs)
     \<and> tabs (mem s) d \<subseteq> tabs (mem s') d \<and> tabs (mem s') d \<subseteq> tabs (mem s) d \<union> set xs
     \<and> (\<forall>a. \<not> in_page d a \<longrightarrow> (\<forall>p \<in> tabs (mem s') d. \<not> in_page p a) \<longrightarrow> mem s' a = mem s a)
     \<and> (\<exists>f m. s' = s\<lparr>freelist := f, mem := m\<rparr>)"

lemma pt_extD:
  assumes "pt_ext s d xs s' xs'"
  shows "pt_inv s' d xs'" "\<exists>k. xs' = drop k xs" "tabs (mem s) d \<subseteq> tabs (mem s') d"
    "tabs (mem s') d \<subseteq> tabs (mem s) d \<union> set xs"
    "\<not> in_page d a \<Longrightarrow> (\<forall>p \<in> tabs (mem s') d. \<not> in_page p a) \<Longrightarrow> mem s' a = mem s a"
    "\<exists>f m. s' = s\<lparr>freelist := f, mem := m\<rparr>" "kend s' = kend s"
  using assms unfolding pt_ext_def by auto

lemma pt_extI:
  assumes "pt_inv s' d xs'" "xs' = drop k xs" "tabs (mem s) d \<subseteq> tabs (mem s') d" "tabs (mem s') d \<subseteq> tabs (mem s) d \<union> set xs"
    "\<And>a. \<not> in_page d a \<Longrightarrow> (\<forall>p \<in> tabs (mem s') d. \<not> in_page p a) \<Longrightarrow> mem s' a = mem s a"
    "s' = s\<lparr>freelist := f, mem := m\<rparr>"
  shows "pt_ext s d xs s' xs'"
  unfolding pt_ext_def using assms by blast

lemma pt_ext_refl: "pt_inv s d xs \<Longrightarrow> pt_ext s d xs s xs"
  by (rule pt_extI[where k = 0 and f = "freelist s" and m = "mem s"]) auto

lemma pt_ext_trans:
  assumes "pt_ext s d xs t ys" "pt_ext t d ys u zs"
  shows "pt_ext s d xs u zs"
  unfolding pt_ext_def
proof (intro conjI allI impI)
  obtain k l where k: "ys = drop k xs" "zs = drop l ys" using pt_extD(2)[OF assms(1)] pt_extD(2)[OF assms(2)] by blast
  then show "\<exists>k. zs = drop k xs" by auto
  show "tabs (mem u) d \<subseteq> tabs (mem s) d \<union> set xs"
    using pt_extD(4)[OF assms(1)] pt_extD(4)[OF assms(2)] k(1) set_drop_subset[of k xs] by blast
  fix a assume a: "\<not> in_page d a" "\<forall>p \<in> tabs (mem u) d. \<not> in_page p a"
  then have "mem u a = mem t a" by (rule pt_extD(5)[OF assms(2)])
  also have "mem t a = mem s a" using pt_extD(5)[OF assms(1) a(1)] a(2) pt_extD(3)[OF assms(2)] by blast
  finally show "mem u a = mem s a" .
next
  obtain f m where "t = s\<lparr>freelist := f, mem := m\<rparr>" using pt_extD(6)[OF assms(1)] by blast
  moreover obtain f' m' where "u = t\<lparr>freelist := f', mem := m'\<rparr>" using pt_extD(6)[OF assms(2)] by blast
  ultimately have "u = s\<lparr>freelist := f', mem := m'\<rparr>" by simp
  then show "\<exists>f m. u = s\<lparr>freelist := f, mem := m\<rparr>" by blast
qed (use pt_extD(1,3)[OF assms(1)] pt_extD(1,3)[OF assms(2)] in auto)

lemma new_tab_ext:
  assumes inv: "pt_inv s d (x # xs)" and no: "\<not> has_tab (mem s) d va"
  shows "pt_ext s d (x # xs) (s\<lparr>freelist := load32 (mem s) x, mem := new_tab (mem s) d va x\<rparr>) xs"
proof -
  let ?m = "new_tab (mem s) d va x"
  let ?s = "s\<lparr>freelist := load32 (mem s) x, mem := ?m\<rparr>"
  note ht = new_tab_space(1)[OF inv no] and tb = new_tab_space(2)[OF inv no]
  note kc = kalloc_cons[OF pt_invD(1)[OF inv]]
  have d: "d \<notin> set (x # xs)" using pt_invD(4)[OF inv] .
  have t: "tabs ?m d = insert x (tabs (mem s) d)"
  proof -
    have "x \<in> tabs ?m d" unfolding tabs_def using ht[of va] tb[of va] by force
    moreover have "p \<in> tabs ?m d" if p: "p \<in> tabs (mem s) d" for p
    proof -
      obtain v where v: "p = tab (mem s) d v" "has_tab (mem s) d v" using p by (auto simp: tabs_def)
      then have "PDX v \<noteq> PDX va" using has_tab_PDX[of v va] no by auto
      then show ?thesis unfolding tabs_def using ht[of v] tb[of v] v by force
    qed
    moreover have "p = x \<or> p \<in> tabs (mem s) d" if "p \<in> tabs ?m d" for p
      using that unfolding tabs_def using ht tb by (auto split: if_splits)
    ultimately show ?thesis by blast
  qed
  have pool: "kpool ?s xs"
  proof (rule kpool_cong[of "s\<lparr>freelist := load32 (mem s) x\<rparr>"])
    fix y a assume y: "y \<in> set xs" "in_page y a"
    have "page_ok (kend s) y" using kc y(1) by (auto simp: kpool_def kmem_inv_def)
    then have "pg_aligned y" "y \<noteq> d" "y \<noteq> x" using d y(1) kc by (auto simp: page_ok_def)
    then have "\<not> in_page d a" "\<not> in_page x a"
      using pages_disjoint[of y d a] pages_disjoint[of y x a] y(2) pt_invD(3)[OF inv] kc by (auto simp: page_ok_def)
    then show "?m a = mem (s\<lparr>freelist := load32 (mem s) x\<rparr>) a" by (simp add: new_tab_other)
  qed (use kc in auto)
  have inv': "pt_inv ?s d xs"
    unfolding pt_inv_def
  proof (intro conjI allI impI ballI)
    fix p assume "p \<in> tabs (mem ?s) d"
    then have "p = x \<or> p \<in> tabs (mem s) d" using t by simp
    then show "page_ok (kend ?s) p" "p \<noteq> d" "p \<notin> set xs" using kc d pt_invD(5)[OF inv, of p] by auto
  next
    fix v w assume a: "has_tab (mem ?s) d v" "has_tab (mem ?s) d w" "tab (mem ?s) d v = tab (mem ?s) d w"
    have n: "tab (mem s) d u \<noteq> x" if "has_tab (mem s) d u" for u
      using pt_invD(5)[OF inv pt_invD(6)[OF inv that]] by auto
    show "PDX v = PDX w" using a ht[of v] ht[of w] tb[of v] tb[of w] n[of v] n[of w] pt_invD(7)[OF inv, of v w] by (auto split: if_splits)
  qed (use pool pt_invD(2)[OF inv] d in auto)
  show ?thesis
    by (rule pt_extI[OF inv', where k = 1]) (use t in \<open>auto simp: new_tab_other\<close>)
qed

lemma set_entry:
  fixes v :: uint
  assumes inv: "pt_inv s d xs" and h: "has_tab (mem s) d va"
  defines "m' \<equiv> store32 (mem s) (slot (mem s) d va) v"
  shows "pt_ext s d xs (s\<lparr>mem := m'\<rparr>) xs"
    "entry m' d va' = (if pgno va' = pgno va then v else entry (mem s) d va')"
proof -
  let ?t = "tab (mem s) d va"
  note t = pt_invD(5)[OF inv pt_invD(6)[OF inv h]]
  have o: "m' a = mem s a" if "\<not> in_page ?t a" for a
    using that unfolding m'_def slot_def by (simp add: store_word_other)
  have d: "m' a = mem s a" if "in_page d a" for a
    using o pages_disjoint[of ?t d a] that t pt_invD(3)[OF inv] by blast
  have dir: "has_tab m' d u = has_tab (mem s) d u" "tab m' d u = tab (mem s) d u" for u
    unfolding has_tab_def tab_def using word_cong[OF PDX_bound[of u], of d m' "mem s"] d by simp_all
  then have tabs: "tabs m' d = tabs (mem s) d" by (simp add: tabs_def)
  have pool: "kpool (s\<lparr>mem := m'\<rparr>) xs"
  proof (rule kpool_cong[OF pt_invD(1)[OF inv]])
    fix y a assume y: "y \<in> set xs" "in_page y a"
    have "page_ok (kend s) y" using pt_invD(1)[OF inv] y(1) by (auto simp: kpool_def kmem_inv_def)
    then have "y = ?t" if "in_page ?t a" using pages_disjoint[of y ?t a] y(2) t that by (simp add: page_ok_def)
    then show "m' a = mem s a" using o t y(1) by blast
  qed simp_all
  have "pt_inv (s\<lparr>mem := m'\<rparr>) d xs" by (rule pt_inv_same(1)[OF inv pool]) (simp_all add: dir)
  moreover have "?t \<in> tabs m' d" using tabs pt_invD(6)[OF inv h] by simp
  ultimately show "pt_ext s d xs (s\<lparr>mem := m'\<rparr>) xs"
    by (intro pt_extI[where k = 0 and f = "freelist s" and m = m']) (use tabs o in auto)
  show "entry m' d va' = (if pgno va' = pgno va then v else entry (mem s) d va')"
  proof (cases "has_tab (mem s) d va'")
    case True
    note t' = pt_invD(5)[OF inv pt_invD(6)[OF inv True]]
    have "slot (mem s) d va = slot (mem s) d va' \<longleftrightarrow> pgno va' = pgno va"
    proof
      assume e: "slot (mem s) d va = slot (mem s) d va'"
      have "?t = tab (mem s) d va'"
        using pages_disjoint[of ?t "tab (mem s) d va'" "slot (mem s) d va"] in_slot(1)[OF _ PTX_bound, of ?t va]
          in_slot(1)[OF _ PTX_bound, of "tab (mem s) d va'" va'] e t t' by (simp add: slot_def)
      then show "pgno va' = pgno va"
        using e slot_inj[OF PTX_bound PTX_bound, of ?t va va'] pt_invD(7)[OF inv h True] by (simp add: slot_def pgno_eq_iff)
    next
      assume "pgno va' = pgno va"
      then show "slot (mem s) d va = slot (mem s) d va'" by (simp add: pgno_eq_iff slot_def tab_def)
    qed
    moreover have "al4 (slot (mem s) d va)" "al4 (slot (mem s) d va')"
      unfolding slot_def using t t' in_slot(2)[OF _ PTX_bound] by blast+
    moreover have "slot m' d va' = slot (mem s) d va'" by (simp add: slot_def dir)
    ultimately show ?thesis
      using True load_store[of "slot (mem s) d va" "slot (mem s) d va'" "mem s" v, folded m'_def] by (simp add: entry_def dir)
  next
    case False
    then have "pgno va' \<noteq> pgno va" using has_tab_PDX[of va' va "mem s" d] h by (auto simp: pgno_eq_iff)
    then show ?thesis using False by (simp add: entry_def dir)
  qed
qed

text \<open>One step of the loop of \<^verbatim>\<open>mappages\<close>.\<close>

definition map_page :: "uint \<Rightarrow> uint \<Rightarrow> uint \<Rightarrow> ('x vm_st_scheme, int option) kernel" where
  "map_page d va v =
     bnd (walkpgdir d va True) (\<lambda>pte.
     if pte = 0 then ret (Some (-1)) else
     bnd (rd32 pte) (\<lambda>old.
     if old AND PTE_P \<noteq> 0 then panic ''remap'' else
     thn (wr32 pte v) (ret None)))"

lemma slot_nonzero: "page_ok e p \<Longrightarrow> p + 4 * PTX va \<noteq> 0"
proof
  assume p: "page_ok e p" "p + 4 * PTX va = 0"
  have "in_page p 0" using in_slot(1)[OF page_ok_aligned[OF p(1)] PTX_bound[of va]] p(2) by simp
  then have "p = 0" using pages_disjoint[of p 0 0] p(1) by (simp add: page_ok_def pg_aligned_def)
  then show False using page_ok_nonzero[OF p(1)] by simp
qed

lemma map_page_run:
  assumes inv: "pt_inv s d xs" and un: "entry (mem s) d va AND PTE_P = 0"
  shows "runs (map_page d va v) s (\<lambda>r s'.
    case r of
      Some e \<Rightarrow> e = -1 \<and> xs = [] \<and> \<not> has_tab (mem s) d va \<and> s' = s
    | None \<Rightarrow> \<exists>xs'. pt_ext s d xs s' xs' \<and> xs' = (if has_tab (mem s) d va then xs else tl xs)
        \<and> (\<forall>va'. entry (mem s') d va' = (if pgno va' = pgno va then v else entry (mem s) d va')))"
proof -
  have go: "runs (if slot (mem t) d va = 0 then ret (Some (-1)) else
      bnd (rd32 (slot (mem t) d va)) (\<lambda>old. if old AND PTE_P \<noteq> 0 then panic ''remap'' else thn (wr32 (slot (mem t) d va) v) (ret None))) t
      (\<lambda>r s'. r = None \<and> pt_ext t d ys s' ys \<and> (\<forall>va'. entry (mem s') d va' = (if pgno va' = pgno va then v else entry (mem t) d va')))"
    if t: "pt_inv t d ys" "has_tab (mem t) d va" "entry (mem t) d va AND PTE_P = 0" for t :: "'a vm_st_scheme" and ys
  proof -
    have "slot (mem t) d va \<noteq> 0"
      using slot_nonzero pt_invD(5)[OF t(1) pt_invD(6)[OF t(1,2)]] unfolding slot_def by blast
    moreover have "load32 (mem t) (slot (mem t) d va) AND PTE_P = 0" using t(2,3) by (simp add: entry_def)
    ultimately show ?thesis using set_entry[OF t(1,2)] by (simp add: rd32_def wr32_def)
  qed
  show ?thesis
  proof (cases "has_tab (mem s) d va")
    case True
    show ?thesis
      unfolding map_page_def runs_bnd runs_Ret[of "walkpgdir d va True", OF walkpgdir_tab[OF True]]
      by (rule runs_mono[OF go[OF inv True un]]) (use True in auto)
  next
    case False
    show ?thesis
    proof (cases xs)
      case Nil
      then have "walkpgdir d va True s = Ret 0 s" using walkpgdir_full[OF False] pt_invD(1)[OF inv] by simp
      then show ?thesis unfolding map_page_def runs_bnd by (simp add: runs_Ret Nil False)
    next
      case (Cons x ys)
      let ?t = "s\<lparr>freelist := load32 (mem s) x, mem := new_tab (mem s) d va x\<rparr>"
      note inv' = inv[unfolded Cons]
      note ext = new_tab_ext[OF inv' False]
      have h: "has_tab (mem ?t) d va" using new_tab_space(1)[OF inv' False, of va] by simp
      have sl: "slot (mem ?t) d va = x + 4 * PTX va" using new_tab_space(2)[OF inv' False, of va] by (simp add: slot_def)
      have e: "entry (mem ?t) d va' = entry (mem s) d va'" for va' using new_tab_space(3)[OF inv' False] by simp
      have w: "walkpgdir d va True s = Ret (slot (mem ?t) d va) ?t"
        using walkpgdir_new[OF False] pt_invD(1)[OF inv'] sl by simp
      show ?thesis
        unfolding map_page_def runs_bnd runs_Ret[of "walkpgdir d va True", OF w]
        by (rule runs_mono[OF go[OF pt_extD(1)[OF ext] h]])
          (use un e False Cons pt_ext_trans[OF ext] in auto)
    qed
  qed
qed

lemma upt_split:
  assumes "[0..<n] = ys @ k # zs"
  shows "k < n" "length ys = k"
proof -
  have l: "length ys < n" using arg_cong[OF assms, of length] by simp
  have "[0..<n] ! length ys = k" unfolding assms by simp
  then show "k < n" "length ys = k" using l by simp_all
qed

lemma pgdown_unat: "unat (PGROUNDDOWN v) = pgno v * 4096"
  using clear_low_bits[of v] by (simp add: PGROUNDDOWN_def pgno_def)

lemma pgno_down [simp]: "pgno (PGROUNDDOWN v) = pgno v"
  by (simp add: pgno_def[of "PGROUNDDOWN v"] pgdown_unat)

lemma pgno_bound: "pgno v < 2 ^ 20"
  using unat_lt32[of v] by (simp add: pgno_def)

lemma pgno_step:
  assumes "pgno v + k < 2 ^ 20"
  shows "pgno (PGROUNDDOWN v + of_nat k * 4096) = pgno v + k"
proof -
  have "(of_nat k * 4096 :: uint) = of_nat (k * 4096)" by simp
  moreover have "unat (PGROUNDDOWN v + of_nat (k * 4096)) = pgno v * 4096 + k * 4096"
    using assms unat_add_of_nat[of "PGROUNDDOWN v" "k * 4096"] by (simp add: pgdown_unat del: of_nat_mult)
  ultimately have "unat (PGROUNDDOWN v + of_nat k * 4096) = (pgno v + k) * 4096" by (simp add: add_mult_distrib del: of_nat_mult)
  then show ?thesis by (simp add: pgno_def[of "PGROUNDDOWN v + of_nat k * 4096"])
qed

text \<open>The entries after the first \<open>n\<close> pages from \<open>va\<close> on have been mapped to the pages from \<open>pa\<close> on.\<close>

definition mapped_to :: "memory \<Rightarrow> uint \<Rightarrow> uint \<Rightarrow> nat \<Rightarrow> uint \<Rightarrow> uint \<Rightarrow> memory \<Rightarrow> bool" where
  "mapped_to m d va n pa perm m' \<longleftrightarrow>
     (\<forall>v. entry m' d v = (if pgno va \<le> pgno v \<and> pgno v < pgno va + n
        then (pa + of_nat (pgno v - pgno va) * 4096) OR perm OR PTE_P else entry m d v))"

lemma mappages_eq:
  "mappages d va sz pa perm =
     bnd (scanM [0..<unat ((PGROUNDDOWN (va + sz - 1) - PGROUNDDOWN va) div 4096) + 1]
       (\<lambda>k. map_page d (PGROUNDDOWN va + of_nat k * 4096) ((pa + of_nat k * 4096) OR perm OR PTE_P)))
     (\<lambda>r. ret (case r of Some e \<Rightarrow> e | None \<Rightarrow> 0))"
  by (simp add: mappages_def map_page_def Let_def)

lemma mappages_count:
  assumes "0 < unat sz" "unat va + unat sz \<le> 2 ^ 32"
  shows "unat ((PGROUNDDOWN (va + sz - 1) - PGROUNDDOWN va) div 4096) + 1 = pgno (va + sz - 1) + 1 - pgno va"
    "pgno va \<le> pgno (va + sz - 1)" "pgno (va + sz - 1) = (unat va + unat sz - 1) div 4096"
proof -
  have "va + sz - 1 = va + of_nat (unat sz - 1)" using assms(1) by (simp add: of_nat_diff)
  then have u: "unat (va + sz - 1) = unat va + unat sz - 1"
    using assms unat_add_of_nat[of va "unat sz - 1"] by (simp add: add_diff_eq)
  then show l: "pgno (va + sz - 1) = (unat va + unat sz - 1) div 4096" by (simp add: pgno_def)
  show le: "pgno va \<le> pgno (va + sz - 1)" using u assms(1) by (simp add: pgno_def div_le_mono)
  then have "PGROUNDDOWN va \<le> PGROUNDDOWN (va + sz - 1)" by (simp add: word_le_nat_alt pgdown_unat)
  then have "unat (PGROUNDDOWN (va + sz - 1) - PGROUNDDOWN va) = (pgno (va + sz - 1) - pgno va) * 4096"
    by (simp add: unat_sub pgdown_unat diff_mult_distrib)
  then show "unat ((PGROUNDDOWN (va + sz - 1) - PGROUNDDOWN va) div 4096) + 1 = pgno (va + sz - 1) + 1 - pgno va"
    using le by (simp add: unat_div_distrib)
qed

lemma mappages_run:
  assumes inv: "pt_inv s d xs" and sz: "0 < unat sz" "unat va + unat sz \<le> 2 ^ 32"
    and un: "\<And>v. pgno va \<le> pgno v \<Longrightarrow> pgno v \<le> pgno (va + sz - 1) \<Longrightarrow> entry (mem s) d v AND PTE_P = 0"
  shows "runs (mappages d va sz pa perm) s (\<lambda>r s'. \<exists>xs' n. pt_ext s d xs s' xs' \<and> mapped_to (mem s) d va n pa perm (mem s')
    \<and> (r = 0 \<and> n = pgno (va + sz - 1) + 1 - pgno va \<or> r = -1 \<and> xs' = [] \<and> n < pgno (va + sz - 1) + 1 - pgno va))"
proof -
  define N where "N = pgno (va + sz - 1) + 1 - pgno va"
  let ?f = "\<lambda>k. map_page d (PGROUNDDOWN va + of_nat k * 4096) ((pa + of_nat k * 4096) OR perm OR PTE_P)"
  have N: "unat ((PGROUNDDOWN (va + sz - 1) - PGROUNDDOWN va) div 4096) + 1 = N" "pgno va + N = pgno (va + sz - 1) + 1"
    using mappages_count[OF sz] by (simp_all add: N_def)
  let ?I = "\<lambda>ys t. \<exists>xs'. pt_ext s d xs t xs' \<and> mapped_to (mem s) d va (length ys) pa perm (mem t)"
  let ?Q = "\<lambda>r t. \<exists>xs' n. pt_ext s d xs t xs' \<and> mapped_to (mem s) d va n pa perm (mem t)
    \<and> (r = None \<and> n = N \<or> r = Some (-1) \<and> xs' = [] \<and> n < N)"
  have "runs (scanM [0..<N] ?f) s ?Q"
  proof (rule runs_scanM[where I = ?I])
    show "?I [] s" using pt_ext_refl[OF inv] by (auto simp: mapped_to_def)
    show "?Q None t" if "?I [0..<N] t" for t using that by auto
  next
    fix ys k zs t assume "[0..<N] = ys @ k # zs" "?I ys t"
    note k = upt_split[OF this(1)]
    obtain ws where t: "pt_ext s d xs t ws" "mapped_to (mem s) d va k pa perm (mem t)" using \<open>?I ys t\<close> k(2) by blast
    let ?a = "PGROUNDDOWN va + of_nat k * 4096"
    have pg: "pgno ?a = pgno va + k" by (rule pgno_step) (use k(1) N(2) pgno_bound[of "va + sz - 1"] in linarith)
    have "entry (mem t) d ?a = entry (mem s) d ?a" using t(2) by (simp add: mapped_to_def pg)
    moreover have "entry (mem s) d ?a AND PTE_P = 0" by (rule un) (use pg k(1) N(2) in simp_all)
    ultimately have u: "entry (mem t) d ?a AND PTE_P = 0" by simp
    show "runs (?f k) t (\<lambda>r t'. case r of Some a \<Rightarrow> ?Q (Some a) t' | None \<Rightarrow> ?I (ys @ [k]) t')"
    proof (rule runs_mono[OF map_page_run[OF pt_extD(1)[OF t(1)] u]], goal_cases)
      case (1 r t')
      show ?case
      proof (cases r)
        case None
        then obtain zs where z: "pt_ext t d ws t' zs"
          "\<And>v. entry (mem t') d v = (if pgno v = pgno ?a then (pa + of_nat k * 4096) OR perm OR PTE_P else entry (mem t) d v)"
          using 1 by auto
        have "mapped_to (mem s) d va (Suc k) pa perm (mem t')"
          using t(2) z(2) by (auto simp: mapped_to_def pg)
        then show ?thesis using pt_ext_trans[OF t(1) z(1)] None k(2) by auto
      next
        case (Some e)
        then show ?thesis using 1 t k(1) by auto
      qed
    qed
  qed
  then show ?thesis
    unfolding mappages_eq N(1) runs_bnd runs_ret by (rule runs_mono) (auto simp: N_def; blast)
qed

end
