(* ===== verification/Uspace.thy ===== *)
theory Uspace
  imports Pagetab
begin

text \<open>
  User memory: the invariant of the pages of a process, the effect of \<^verbatim>\<open>allocuvm\<close>,
  \<^verbatim>\<open>deallocuvm\<close> and \<^verbatim>\<open>copyout\<close> on the bytes the user sees, and what
  happens when memory runs out while a page table is needed.
\<close>

section \<open>User memory\<close>

text \<open>
  The page of memory behind a user address, the byte there, and the invariant of a user address space with
  the page numbers \<open>P\<close>: each is present and accessible to the user, no two share a page of memory, which is neither
  free nor a table, and no other page below the kernel is mapped.
\<close>

definition frame :: "memory \<Rightarrow> uint \<Rightarrow> uint \<Rightarrow> uint" where
  "frame m d v = p2v (PTE_ADDR (entry m d v))"

definition ubyte :: "memory \<Rightarrow> uint \<Rightarrow> uint \<Rightarrow> byte" where
  "ubyte m d v = m (frame m d v + of_nat (unat v mod 4096))"

definition upages :: "uint \<Rightarrow> nat" where
  "upages sz = (unat sz + 4095) div 4096"

definition uspace :: "'x vm_st_scheme \<Rightarrow> uint \<Rightarrow> uint list \<Rightarrow> nat set \<Rightarrow> bool" where
  "uspace s d xs P \<longleftrightarrow> pt_inv s d xs
     \<and> (\<forall>v. pgno v \<in> P \<longrightarrow> entry (mem s) d v AND PTE_P \<noteq> 0 \<and> entry (mem s) d v AND PTE_U \<noteq> 0
          \<and> page_ok (kend s) (frame (mem s) d v) \<and> frame (mem s) d v \<notin> set xs \<and> frame (mem s) d v \<noteq> d \<and> frame (mem s) d v \<notin> tabs (mem s) d)
     \<and> (\<forall>v w. pgno v \<in> P \<longrightarrow> pgno w \<in> P \<longrightarrow> frame (mem s) d v = frame (mem s) d w \<longrightarrow> pgno v = pgno w)
     \<and> (\<forall>v. pgno v \<notin> P \<longrightarrow> pgno v < 2 ^ 19 \<longrightarrow> entry (mem s) d v AND PTE_P = 0)"

lemma uspaceD:
  assumes "uspace s d xs P"
  shows "pt_inv s d xs"
    "pgno v \<in> P \<Longrightarrow> entry (mem s) d v AND PTE_P \<noteq> 0 \<and> entry (mem s) d v AND PTE_U \<noteq> 0"
    "pgno v \<in> P \<Longrightarrow> page_ok (kend s) (frame (mem s) d v) \<and> pg_aligned (frame (mem s) d v)"
    "pgno v \<in> P \<Longrightarrow> frame (mem s) d v \<notin> set xs \<and> frame (mem s) d v \<noteq> d \<and> frame (mem s) d v \<notin> tabs (mem s) d"
    "pgno v \<in> P \<Longrightarrow> pgno w \<in> P \<Longrightarrow> frame (mem s) d v = frame (mem s) d w \<Longrightarrow> pgno v = pgno w"
    "pgno v \<notin> P \<Longrightarrow> pgno v < 2 ^ 19 \<Longrightarrow> entry (mem s) d v AND PTE_P = 0"
  using assms unfolding uspace_def page_ok_def by blast+

lemma in_frame: "in_page p (p + of_nat (unat v mod 4096))"
  by (simp add: in_page_def unat_of_nat)

text \<open>Taking a free page and clearing it changes nothing of the address space.\<close>

lemma take_page:
  assumes inv: "pt_inv s d (x # xs)"
  defines "t \<equiv> s\<lparr>freelist := load32 (mem s) x, mem := memset (mem s) x 0 4096\<rparr>"
  shows "pt_inv t d xs" "entry (mem t) d v = entry (mem s) d v" "tabs (mem t) d = tabs (mem s) d"
    "\<not> in_page x a \<Longrightarrow> mem t a = mem s a" "in_page x a \<Longrightarrow> mem t a = 0" "kend t = kend s"
    "page_ok (kend s) x" "x \<noteq> d" "x \<notin> tabs (mem s) d" "x \<notin> set xs" "has_tab (mem t) d v = has_tab (mem s) d v"
proof -
  note kc = kalloc_cons[OF pt_invD(1)[OF inv]]
  show o: "\<not> in_page x a \<Longrightarrow> mem t a = mem s a" for a by (simp add: t_def memset_apply in_page_def)
  show "in_page x a \<Longrightarrow> mem t a = 0" for a by (simp add: t_def memset_apply in_page_def)
  show "kend t = kend s" "page_ok (kend s) x" "x \<notin> set xs" using kc by (simp_all add: t_def)
  show xd: "x \<noteq> d" using pt_invD(4)[OF inv] by auto
  show xt: "x \<notin> tabs (mem s) d" using pt_invD(5)[OF inv, of x] by auto
  have al: "pg_aligned x" using kc by (simp add: page_ok_def)
  have dd: "mem t a = mem s a" if "in_page d a" for a using o pages_disjoint[OF al pt_invD(3)[OF inv], of a] xd that by blast
  have tt: "mem t a = mem s a" if "p \<in> tabs (mem s) d" "in_page p a" for p a
    using o pages_disjoint[OF al, of p a] pt_invD(5)[OF inv that(1)] that(2) by auto
  note sc = space_cong[of d "mem t" "mem s", OF dd tt]
  show e: "entry (mem t) d v = entry (mem s) d v" and tb: "tabs (mem t) d = tabs (mem s) d"
    and "has_tab (mem t) d v = has_tab (mem s) d v" by (rule sc; assumption)+
  have "kpool t xs"
  proof (rule kpool_cong[of "s\<lparr>freelist := load32 (mem s) x\<rparr>"])
    fix y a assume y: "y \<in> set xs" "in_page y a"
    have "page_ok (kend s) y" "y \<noteq> x" using kc y(1) by (auto simp: kpool_def kmem_inv_def)
    then show "mem t a = mem (s\<lparr>freelist := load32 (mem s) x\<rparr>) a"
      using o pages_disjoint[OF al, of y a] y(2) by (auto simp: page_ok_def)
  qed (use kc in \<open>auto simp: t_def\<close>)
  then show "pt_inv t d xs" by (rule pt_inv_same(1)[OF inv]) (use sc in \<open>auto simp: t_def\<close>)
qed

lemma pgno_of_page: "unat va = n * 4096 \<Longrightarrow> pgno va = n" "unat va = n * 4096 \<Longrightarrow> PGROUNDDOWN va = va"
  by (simp_all add: pgno_def word_unat_eq_iff pgdown_unat)

lemma mappages_one:
  assumes va: "unat va = n * 4096"
  shows "mappages d va 4096 pa perm = bnd (map_page d va (pa OR perm OR PTE_P)) (\<lambda>r. ret (case r of Some e \<Rightarrow> e | None \<Rightarrow> 0))"
proof -
  have "n * 4096 < 2 ^ 32" using unat_lt32[of va] va by simp
  then have le: "unat va + unat (4096 :: uint) \<le> 2 ^ 32" using va by simp
  have "pgno (va + 4096 - 1) = pgno va"
    using mappages_count(3)[OF _ le] va by (simp add: pgno_def)
  then have c: "unat ((PGROUNDDOWN (va + 4096 - 1) - PGROUNDDOWN va) div 4096) + 1 = 1"
    using mappages_count(1)[OF _ le] by simp
  have b: "bnd (bnd m (\<lambda>r. case r of None \<Rightarrow> ret None | Some a \<Rightarrow> ret (Some a))) f = bnd m f" for m and f :: "int option \<Rightarrow> ('x vm_st_scheme, int) kernel"
    by (rule ext) (auto simp: kstep split: outcome.split option.split)
  show ?thesis
    unfolding mappages_eq c using b by (simp add: pgno_of_page(2)[OF va])
qed

text \<open>The frames of the mapped pages stay outside what mapping changes.\<close>

lemma frames_kept:
  assumes u: "uspace s d (x # xs) P"
    and t: "t = s\<lparr>freelist := load32 (mem s) x, mem := memset (mem s) x 0 4096\<rparr>"
    and ext: "pt_ext t d xs t' xs'"
    and v: "pgno v \<in> P" and e: "entry (mem t') d v = entry (mem s) d v"
  shows "frame (mem t') d v = frame (mem s) d v" "frame (mem s) d v \<notin> tabs (mem t') d" "ubyte (mem t') d v = ubyte (mem s) d v"
proof -
  note tp = take_page[OF uspaceD(1)[OF u], folded t]
  note f = uspaceD(3)[OF u v] uspaceD(4)[OF u v]
  show fr: "frame (mem t') d v = frame (mem s) d v" by (simp add: frame_def e)
  show nt: "frame (mem s) d v \<notin> tabs (mem t') d" using pt_extD(4)[OF ext] tp(3) f(2) by auto
  let ?a = "frame (mem s) d v + of_nat (unat v mod 4096)"
  have o: "\<not> in_page p ?a" if "pg_aligned p" "p \<noteq> frame (mem s) d v" for p
    using pages_disjoint[of p "frame (mem s) d v" ?a] in_frame[of "frame (mem s) d v" v] f(1) that by blast
  have "\<not> in_page d ?a" using o[of d] f(2) pt_invD(3)[OF uspaceD(1)[OF u]] by auto
  moreover have "\<forall>p \<in> tabs (mem t') d. \<not> in_page p ?a" using o nt pt_invD(5)[OF pt_extD(1)[OF ext]] by blast
  ultimately have "mem t' ?a = mem t ?a" by (rule pt_extD(5)[OF ext])
  also have "\<dots> = mem s ?a" by (rule tp(4)) (use o f(2) page_ok_aligned[OF tp(7)] in auto)
  finally show "ubyte (mem t') d v = ubyte (mem s) d v" by (simp add: ubyte_def fr)
qed

lemma flag_bits: "(p OR 7) AND PTE_P \<noteq> 0" "(p OR 7) AND PTE_U \<noteq> 0" for p :: uint
proof -
  show "(p OR 7) AND PTE_P \<noteq> 0" unfolding present_iff by (simp add: bit_simps)
  have "bit ((p OR 7) AND PTE_U) 2" by (simp add: bit_simps)
  then show "(p OR 7) AND PTE_U \<noteq> 0" by (rule contrapos_pn) simp
qed

lemma grow_uspace:
  assumes u: "uspace s d (x # xs) P" and n: "n < 2 ^ 19" "n \<notin> P"
    and t: "t = s\<lparr>freelist := load32 (mem s) x, mem := memset (mem s) x 0 4096\<rparr>"
    and ext: "pt_ext t d xs t' xs'" and va: "pgno va = n"
    and e: "\<And>v. entry (mem t') d v = (if pgno v = pgno va then v2p x OR (PTE_W OR PTE_U) OR PTE_P else entry (mem t) d v)"
  shows "uspace t' d xs' (insert n P)" "pgno v \<in> P \<Longrightarrow> ubyte (mem t') d v = ubyte (mem s) d v" "pgno v = n \<Longrightarrow> ubyte (mem t') d v = 0"
proof -
  note tp = take_page[OF uspaceD(1)[OF u], folded t]
  note kept = frames_kept[OF u t ext]
  have ne: "pgno v \<noteq> n" if "pgno v \<in> P" for v using n(2) that by auto
  have old: "entry (mem t') d v = entry (mem s) d v" if "pgno v \<noteq> n" for v using e[of v] tp(2) va that by simp
  have new: "entry (mem t') d v = v2p x OR (PTE_W OR PTE_U) OR PTE_P" if "pgno v = n" for v using e[of v] va that by simp
  have fl: "v2p x OR (PTE_W OR PTE_U) OR PTE_P = v2p x OR 7" by (simp add: or.assoc)
  have fx: "frame (mem t') d v = x" if "pgno v = n" for v
    using PTE_ADDR_or[OF page_frame(1)[OF tp(7)], of 7] page_frame(2)[OF tp(7)] by (simp add: frame_def new[OF that] fl)
  have xs': "set xs' \<subseteq> set xs" using pt_extD(2)[OF ext] set_drop_subset by fastforce
  have xt: "x \<notin> tabs (mem t') d" using pt_extD(4)[OF ext] tp(3,9,10) by auto
  have k: "kend t' = kend s" using pt_extD(7)[OF ext] tp(6) by simp
  have lt: "pgno v \<in> insert n P \<longleftrightarrow> pgno v \<in> P \<or> pgno v = n" for v by auto
  show "uspace t' d xs' (insert n P)"
    unfolding uspace_def k
  proof (intro conjI allI impI)
    fix v assume v: "pgno v \<in> insert n P"
    show "entry (mem t') d v AND PTE_P \<noteq> 0" "entry (mem t') d v AND PTE_U \<noteq> 0"
      using v ne[of v] uspaceD(2)[OF u, of v] old[of v] new[of v] flag_bits[of "v2p x"] unfolding lt fl by auto
    show "page_ok (kend s) (frame (mem t') d v)" "frame (mem t') d v \<notin> set xs'" "frame (mem t') d v \<noteq> d" "frame (mem t') d v \<notin> tabs (mem t') d"
      using v ne[of v] uspaceD(3,4)[OF u, of v] kept[of v] old[of v] fx[of v] tp(7,8,10) xs' xt unfolding lt by auto
  next
    fix v w assume vw: "pgno v \<in> insert n P" "pgno w \<in> insert n P" "frame (mem t') d v = frame (mem t') d w"
    have nx: "frame (mem t') d u \<noteq> x" if "pgno u \<in> P" for u using kept(1)[OF that old] uspaceD(4)[OF u that] ne[OF that] by auto
    show "pgno v = pgno w"
      using vw ne[of v] ne[of w] nx[of v] nx[of w] fx[of v] fx[of w] uspaceD(5)[OF u, of v w] kept(1)[of v] kept(1)[of w] old[of v] old[of w] unfolding lt by auto
  next
    fix v assume "pgno v \<notin> insert n P" "pgno v < 2 ^ 19"
    then show "entry (mem t') d v AND PTE_P = 0" using uspaceD(6)[OF u, of v] old[of v] by simp
  qed (rule pt_extD(1)[OF ext])
  show "ubyte (mem t') d v = ubyte (mem s) d v" if "pgno v \<in> P" using kept(3)[OF that old] ne[OF that] by simp
  show "ubyte (mem t') d v = 0" if v: "pgno v = n"
  proof -
    let ?a = "x + of_nat (unat v mod 4096)"
    have o: "\<not> in_page p ?a" if "pg_aligned p" "p \<noteq> x" for p
      using pages_disjoint[of p x ?a] in_frame[of x v] page_ok_aligned[OF tp(7)] that by blast
    have "\<not> in_page d ?a" using o[of d] tp(8) pt_invD(3)[OF uspaceD(1)[OF u]] by auto
    moreover have "\<forall>p \<in> tabs (mem t') d. \<not> in_page p ?a" using o xt pt_invD(5)[OF pt_extD(1)[OF ext]] by blast
    ultimately have "mem t' ?a = mem t ?a" by (rule pt_extD(5)[OF ext])
    then show ?thesis using tp(5)[OF in_frame] fx[OF v] by (simp add: ubyte_def)
  qed
qed

subsection \<open>Growing\<close>

text \<open>The body of the loop of \<^verbatim>\<open>allocuvm\<close>, with a free page and one more for a page table.\<close>

lemma grow_step:
  assumes u: "uspace s d (x # y # xs) P" and n: "n < 2 ^ 19" "n \<notin> P" "unat va = n * 4096"
  shows "runs (bnd kalloc (\<lambda>m.
       if m = 0 then thn (deallocuvm d newsz oldsz) (ret (Some ())) else
       thn (modify (\<lambda>s. s\<lparr>mem := memset (mem s) m 0 4096\<rparr>)) (
       bnd (mappages d va 4096 (v2p m) (PTE_W OR PTE_U)) (\<lambda>_. ret None)))) s
     (\<lambda>r t. r = None \<and> kend t = kend s \<and> (\<exists>ys. length xs \<le> length ys \<and> uspace t d ys (insert n P))
        \<and> (\<forall>v. pgno v \<in> P \<longrightarrow> ubyte (mem t) d v = ubyte (mem s) d v) \<and> (\<forall>v. pgno v = n \<longrightarrow> ubyte (mem t) d v = 0))"
proof -
  define t where "t = s\<lparr>freelist := load32 (mem s) x, mem := memset (mem s) x 0 4096\<rparr>"
  note tp = take_page[OF uspaceD(1)[OF u], folded t_def]
  note kc = kalloc_cons[OF pt_invD(1)[OF uspaceD(1)[OF u]]]
  have pg: "pgno va = n" using pgno_of_page(1)[OF n(3)] .
  have un: "entry (mem t) d va AND PTE_P = 0" using uspaceD(6)[OF u, of va] tp(2) pg n(1,2) by simp
  have "runs (map_page d va (v2p x OR (PTE_W OR PTE_U) OR PTE_P)) t (\<lambda>r t'. kend t' = kend s \<and> (\<exists>ys. length xs \<le> length ys \<and> uspace t' d ys (insert n P))
        \<and> (\<forall>v. pgno v \<in> P \<longrightarrow> ubyte (mem t') d v = ubyte (mem s) d v) \<and> (\<forall>v. pgno v = n \<longrightarrow> ubyte (mem t') d v = 0))"
  proof (rule runs_mono[OF map_page_run[OF tp(1) un]], goal_cases)
    case (1 r t')
    then obtain ys where ys: "pt_ext t d (y # xs) t' ys" "ys = (if has_tab (mem t) d va then y # xs else tl (y # xs))"
      "\<And>v. entry (mem t') d v = (if pgno v = pgno va then v2p x OR (PTE_W OR PTE_U) OR PTE_P else entry (mem t) d v)"
      by (cases r) auto
    note g = grow_uspace[OF u n(1,2) t_def ys(1) pg ys(3)]
    have "length xs \<le> length ys" using ys(2) by simp
    moreover have "kend t' = kend s" using pt_extD(7)[OF ys(1)] tp(6) by simp
    ultimately show ?case using g by blast
  qed
  then show ?thesis
    unfolding mappages_one[OF n(3)] runs_bnd runs_Ret[of kalloc, OF conjunct1[OF kc]]
    using kc by (simp add: t_def)
qed

lemma upages_less: "sz < KERNBASE \<Longrightarrow> upages sz \<le> 2 ^ 19" "a \<le> b \<Longrightarrow> upages a \<le> upages b"
proof -
  show "upages sz \<le> 2 ^ 19" if "sz < KERNBASE"
  proof -
    have "unat sz < 2 ^ 31" using that by (simp add: word_less_nat_alt)
    then show ?thesis by (simp add: upages_def)
  qed
  show "upages a \<le> upages b" if "a \<le> b"
    using that by (simp add: upages_def word_le_nat_alt div_le_mono)
qed

lemma pgroundup_pages: "sz < KERNBASE \<Longrightarrow> unat (PGROUNDUP sz) = upages sz * 4096"
  using pgroundup_unat[of sz] by (simp add: upages_def word_less_nat_alt)

lemma allocuvm_run:
  assumes u: "uspace s d xs {..<upages oldsz}" and sz: "oldsz \<le> newsz" "newsz < KERNBASE"
    and mem: "2 * (upages newsz - upages oldsz) \<le> length xs"
  shows "runs (allocuvm d oldsz newsz) s (\<lambda>r t. r = newsz \<and> kend t = kend s \<and> (\<exists>ys. uspace t d ys {..<upages newsz})
    \<and> (\<forall>v. pgno v < upages newsz \<longrightarrow> ubyte (mem t) d v = (if pgno v < upages oldsz then ubyte (mem s) d v else 0)))"
proof -
  define q n where "q = upages oldsz" and "n = upages newsz"
  have on: "q \<le> n" "n \<le> 2 ^ 19" using upages_less(2)[OF sz(1)] upages_less(1)[OF sz(2)] by (simp_all add: q_def n_def)
  have old: "oldsz < KERNBASE" using sz by simp
  have a: "unat (PGROUNDUP oldsz) = q * 4096" using pgroundup_pages[OF old] by (simp add: q_def)
  have cnt: "(unat newsz - unat (PGROUNDUP oldsz) + 4095) div 4096 = n - q"
  proof (cases "q * 4096 \<le> unat newsz")
    case True
    then show ?thesis unfolding a n_def upages_def using div_mult_self1[of 4096 "unat newsz - q * 4096 + 4095" q]
      by (simp add: algebra_simps)
  next
    case False
    then have "n \<le> q" unfolding n_def upages_def by simp
    then show ?thesis unfolding a using False by simp
  qed
  let ?I = "\<lambda>js t. kend t = kend s \<and> (\<exists>ys. 2 * (n - q - length js) \<le> length ys \<and> uspace t d ys {..<q + length js})
    \<and> (\<forall>v. pgno v < q + length js \<longrightarrow> ubyte (mem t) d v = (if pgno v < q then ubyte (mem s) d v else 0))"
  let ?f = "\<lambda>k. bnd kalloc (\<lambda>m.
       if m = 0 then thn (deallocuvm d newsz oldsz) (ret (Some ())) else
       thn (modify (\<lambda>s. s\<lparr>mem := memset (mem s) m 0 4096\<rparr>)) (
       bnd (mappages d (PGROUNDUP oldsz + of_nat k * 4096) 4096 (v2p m) (PTE_W OR PTE_U)) (\<lambda>_. ret None)))"
  have "runs (scanM [0..<n - q] ?f) s (\<lambda>r t. r = None \<and> ?I [0..<n - q] t)"
  proof (rule runs_scanM[where I = ?I])
    show "?I [] s" using u mem by (auto simp: q_def n_def)
  next
    fix js k zs t assume "[0..<n - q] = js @ k # zs" and I: "?I js t"
    note k = upt_split[OF this(1)]
    obtain ys where ys: "2 * (n - q - k) \<le> length ys" "uspace t d ys {..<q + k}" using I k(2) by blast
    then obtain x y ws where w: "ys = x # y # ws" using k(1) by (cases ys; cases "tl ys") auto
    have va: "unat (PGROUNDUP oldsz + of_nat k * 4096) = (q + k) * 4096"
      using unat_add_of_nat[of "PGROUNDUP oldsz" "k * 4096"] a k(1) on by (simp add: add_mult_distrib)
    have lt: "q + k < 2 ^ 19" using k(1) on by simp
    show "runs (?f k) t (\<lambda>r t'. case r of Some a \<Rightarrow> Some a = None \<and> ?I [0..<n - q] t' | None \<Rightarrow> ?I (js @ [k]) t')"
    proof (rule runs_mono[OF grow_step[OF ys(2)[unfolded w] lt _ va]], goal_cases)
      case (2 r t')
      then obtain vs where vs: "length ws \<le> length vs" "uspace t' d vs {..<q + length (js @ [k])}"
        using k(2) by (auto simp: lessThan_Suc)
      have "ubyte (mem t') d v = (if pgno v < q then ubyte (mem s) d v else 0)" if "pgno v < q + length (js @ [k])" for v
        using 2 I that k(2) by (cases "pgno v = q + k") auto
      moreover have "2 * (n - q - length (js @ [k])) \<le> length vs" using ys(1) w vs(1) k(2) by simp
      ultimately show ?case using 2 vs(2) I by auto
    qed simp
  qed simp
  then have "runs (scanM [0..<n - q] ?f) s (\<lambda>r t. r = None \<and> kend t = kend s \<and> (\<exists>ys. uspace t d ys {..<n})
      \<and> (\<forall>v. pgno v < n \<longrightarrow> ubyte (mem t) d v = (if pgno v < q then ubyte (mem s) d v else 0)))"
    by (rule runs_mono) (use on in auto)
  then show ?thesis
    unfolding allocuvm_def Let_def cnt using sz by (auto simp: not_le not_less q_def[symmetric] n_def[symmetric] elim!: runs_mono)
qed

subsection \<open>Shrinking\<close>

text \<open>Giving a page that is outside the tables back to the pool keeps the address space.\<close>

lemma kfree_space:
  assumes inv: "pt_inv s d xs" and f: "page_ok (kend s) f" "f \<notin> set xs" "f \<noteq> d" "f \<notin> tabs (mem s) d"
  obtains t where "kfree f s = Ret () t" "pt_inv t d (f # xs)" "kend t = kend s" "\<And>a. \<not> in_page f a \<Longrightarrow> mem t a = mem s a"
    "\<And>v. entry (mem t) d v = entry (mem s) d v" "\<And>v. has_tab (mem t) d v = has_tab (mem s) d v"
    "\<And>v. slot (mem t) d v = slot (mem s) d v" "tabs (mem t) d = tabs (mem s) d"
proof -
  have kp: "kmem_inv s xs" "kmem_free s" using pt_invD(1)[OF inv] by (simp_all add: kpool_def)
  have al: "pg_aligned f" using f(1) by (rule page_ok_aligned)
  define t where "t = s\<lparr>mem := store32 (memset (mem s) f 1 4096) f (freelist s), freelist := f\<rparr>"
  have kf: "kfree f s = Ret () t" using kfree_eq[OF f(1) kp(2)] by (simp add: t_def)
  have "runs (kfree f) s (\<lambda>_ t. kmem_inv t (f # xs) \<and> kmem_free t)"
    by (rule runs_mono[OF kfree_runs[OF kp f(1,2)]]) simp
  then have pool: "kpool t (f # xs)" by (simp add: runs_Ret[of "kfree f", OF kf] kpool_def)
  have out: "mem t a = mem s a" if "\<not> in_page f a" for a using that by (simp add: t_def freed_page_outside)
  have dd: "mem t a = mem s a" if "in_page d a" for a using out pages_disjoint[OF al pt_invD(3)[OF inv], of a] f(3) that by blast
  have tt: "mem t a = mem s a" if "p \<in> tabs (mem s) d" "in_page p a" for p a
    using out pages_disjoint[OF al, of p a] pt_invD(5)[OF inv that(1)] that f(4) by auto
  note sc = space_cong[of d "mem t" "mem s", OF dd tt]
  have "pt_inv t d (f # xs)"
    unfolding pt_inv_def
  proof (intro conjI ballI allI impI)
    fix v w assume "has_tab (mem t) d v" "has_tab (mem t) d w" "tab (mem t) d v = tab (mem t) d w"
    then show "PDX v = PDX w" using pt_invD(7)[OF inv, of v w] sc(1,2) by simp
  qed (use pool pt_invD(2,4,5)[OF inv] sc(5) f in \<open>auto simp: t_def\<close>)
  then show thesis using that[OF kf] out sc by (simp add: t_def)
qed

lemma frame_outside:
  assumes u: "uspace s d xs P" and v: "pgno v \<in> P" and p: "pg_aligned p" "p \<noteq> frame (mem s) d v"
  shows "\<not> in_page p (frame (mem s) d v + of_nat (unat v mod 4096))"
  using pages_disjoint[OF p(1), of "frame (mem s) d v"] in_frame[of "frame (mem s) d v" v] uspaceD(3)[OF u v] p(2) by blast

lemma unmap_uspace:
  assumes u: "uspace s d xs P" and va: "pgno va \<in> P"
    and t: "pt_ext t d (frame (mem s) d va # xs) t' (frame (mem s) d va # xs)" "tabs (mem t') d = tabs (mem s) d" "kend t' = kend s"
    and out: "\<And>a. \<not> in_page (frame (mem s) d va) a \<Longrightarrow> mem t a = mem s a"
    and e: "\<And>v. entry (mem t') d v = (if pgno v = pgno va then 0 else entry (mem s) d v)"
  shows "uspace t' d (frame (mem s) d va # xs) (P - {pgno va})"
    "pgno v \<in> P - {pgno va} \<Longrightarrow> ubyte (mem t') d v = ubyte (mem s) d v"
proof -
  let ?f = "frame (mem s) d va"
  have fr: "frame (mem t') d v = frame (mem s) d v" if "pgno v \<noteq> pgno va" for v using e that by (simp add: frame_def)
  have ff: "frame (mem s) d v \<noteq> ?f" if "pgno v \<in> P - {pgno va}" for v using uspaceD(5)[OF u _ va, of v] that by auto
  show "uspace t' d (?f # xs) (P - {pgno va})"
    unfolding uspace_def t(3)
  proof (intro conjI allI impI)
    fix v assume v: "pgno v \<in> P - {pgno va}"
    then have v': "pgno v \<in> P" "pgno v \<noteq> pgno va" by auto
    show "entry (mem t') d v AND PTE_P \<noteq> 0" "entry (mem t') d v AND PTE_U \<noteq> 0" "page_ok (kend s) (frame (mem t') d v)"
      "frame (mem t') d v \<notin> set (?f # xs)" "frame (mem t') d v \<noteq> d" "frame (mem t') d v \<notin> tabs (mem t') d"
      using uspaceD(2,3,4)[OF u v'(1)] e[of v] fr[OF v'(2)] v'(2) ff[OF v] t(2) by auto
  next
    fix v w assume "pgno v \<in> P - {pgno va}" "pgno w \<in> P - {pgno va}" "frame (mem t') d v = frame (mem t') d w"
    then show "pgno v = pgno w" using uspaceD(5)[OF u, of v w] fr by auto
  next
    fix v assume "pgno v \<notin> P - {pgno va}" "pgno v < 2 ^ 19"
    then show "entry (mem t') d v AND PTE_P = 0" using e[of v] uspaceD(6)[OF u, of v] by (cases "pgno v = pgno va") auto
  qed (rule pt_extD(1)[OF t(1)])
  show "ubyte (mem t') d v = ubyte (mem s) d v" if v: "pgno v \<in> P - {pgno va}"
  proof -
    have v': "pgno v \<in> P" "pgno v \<noteq> pgno va" using v by auto
    let ?a = "frame (mem s) d v + of_nat (unat v mod 4096)"
    note o = frame_outside[OF u v'(1)] and g = uspaceD(4)[OF u v'(1)]
    have "\<not> in_page d ?a" using o[of d] g pt_invD(3)[OF uspaceD(1)[OF u]] by auto
    moreover have "\<forall>p \<in> tabs (mem t') d. \<not> in_page p ?a" using o g pt_invD(5)[OF uspaceD(1)[OF u]] unfolding t(2) by blast
    ultimately have "mem t' ?a = mem t ?a" by (rule pt_extD(5)[OF t(1)])
    also have "\<dots> = mem s ?a" by (rule out) (use o[of ?f] uspaceD(3)[OF u va] ff[OF v] in auto)
    finally show ?thesis by (simp add: ubyte_def fr[OF v'(2)])
  qed
qed

text \<open>Freeing the page behind an address and clearing its entry.\<close>

lemma free_page_run:
  assumes u: "uspace s d xs P" and va: "pgno va \<in> P"
  defines "f \<equiv> frame (mem s) d va"
  shows "runs (thn (kfree f) (wr32 (slot (mem s) d va) 0)) s (\<lambda>_ t. uspace t d (f # xs) (P - {pgno va}) \<and> kend t = kend s
    \<and> (\<forall>v. pgno v \<in> P - {pgno va} \<longrightarrow> ubyte (mem t) d v = ubyte (mem s) d v))"
proof -
  note inv = uspaceD(1)[OF u]
  obtain t where t: "kfree f s = Ret () t" "pt_inv t d (f # xs)" "kend t = kend s" "\<And>a. \<not> in_page f a \<Longrightarrow> mem t a = mem s a"
    "\<And>v. entry (mem t) d v = entry (mem s) d v" "\<And>v. has_tab (mem t) d v = has_tab (mem s) d v"
    "\<And>v. slot (mem t) d v = slot (mem s) d v" "tabs (mem t) d = tabs (mem s) d"
    by (rule kfree_space[OF inv, of f]) (use uspaceD(3,4)[OF u va] in \<open>auto simp: f_def\<close>)
  have h: "has_tab (mem t) d va" using uspaceD(2)[OF u va] t(6) by (auto simp: entry_def split: if_splits)
  define t' where "t' = t\<lparr>mem := store32 (mem t) (slot (mem t) d va) 0\<rparr>"
  note se = set_entry[OF t(2) h, where v = 0, folded t'_def]
  have e: "entry (mem t') d v = (if pgno v = pgno va then 0 else entry (mem s) d v)" for v
    using se(2)[where va' = v] t(5) by (simp add: t'_def)
  have tb: "tabs (mem t') d = tabs (mem s) d"
    using pt_extD(3,4)[OF se(1)] pt_invD(5)[OF pt_extD(1)[OF se(1)]] t(8) by auto
  note un = unmap_uspace[OF u va, folded f_def, OF se(1) tb _ t(4) e]
  have k: "kend t' = kend s" by (simp add: t'_def t(3))
  show ?thesis
    unfolding runs_thn runs_Ret[of "kfree f", OF t(1)] wr32_def using un[OF k] k t(7)[of va] by (simp add: t'_def)
qed

lemma dealloc_run:
  fixes s :: "'x vm_st_scheme"
  assumes "uspace s d xs ({..<j} \<union> {k..<n})" "j \<le> k" "k \<le> n" "n \<le> 2 ^ 19" "unat a = k * 4096" "upages oldsz = n"
    "n - k \<le> fuel" "KERNBASE < kend s"
  shows "runs (dealloc_loop fuel d a oldsz) s (\<lambda>_ t. \<exists>ys. length ys = n - k \<and> uspace t d (ys @ xs) {..<j}
    \<and> (\<forall>v. pgno v < j \<longrightarrow> ubyte (mem t) d v = ubyte (mem s) d v))"
  using assms
proof (induction fuel arbitrary: s xs k a)
  case 0
  then have "k = n" by simp
  moreover have "\<not> a < oldsz" using 0 \<open>k = n\<close> by (auto simp: word_less_nat_alt upages_def)
  ultimately show ?case using 0 by simp
next
  case (Suc fuel)
  show ?case
  proof (cases "k < n")
    case False
    then have "k = n" using Suc.prems(3) by simp
    moreover have "\<not> a < oldsz" using Suc.prems \<open>k = n\<close> by (auto simp: word_less_nat_alt upages_def)
    ultimately show ?thesis using Suc.prems by simp
  next
    case True
    let ?P = "{..<j} \<union> {k..<n}"
    note u = Suc.prems(1)
    have a: "a < oldsz" using True Suc.prems(5,6) by (auto simp: word_less_nat_alt upages_def)
    have pg: "pgno a = k" using pgno_of_page(1)[OF Suc.prems(5)] .
    have mem: "pgno a \<in> ?P" using pg True by simp
    have h: "has_tab (mem s) d a" using uspaceD(2)[OF u mem] by (auto simp: entry_def split: if_splits)
    have sl: "slot (mem s) d a \<noteq> 0"
      using slot_nonzero pt_invD(5)[OF uspaceD(1)[OF u] pt_invD(6)[OF uspaceD(1)[OF u] h]] unfolding slot_def by blast
    have ld: "load32 (mem s) (slot (mem s) d a) = entry (mem s) d a" using h by (simp add: entry_def)
    have nz: "PTE_ADDR (entry (mem s) d a) \<noteq> 0"
      using uspaceD(3)[OF u mem] Suc.prems(8) by (auto simp: frame_def p2v_def page_ok_def)
    have P: "?P - {pgno a} = {..<j} \<union> {Suc k..<n}" using pg Suc.prems(2) by auto
    have a': "unat (a + 4096) = Suc k * 4096"
      using unat_add_of_nat[of a 4096] Suc.prems(4,5) True by simp
    have go: "runs (dealloc_loop fuel d (a + 4096) oldsz) t (\<lambda>_ t'. \<exists>ys. length ys = n - k \<and> uspace t' d (ys @ xs) {..<j}
        \<and> (\<forall>v. pgno v < j \<longrightarrow> ubyte (mem t') d v = ubyte (mem s) d v))"
      if t: "uspace t d (frame (mem s) d a # xs) (?P - {pgno a})" "kend t = kend s"
        "\<And>v. pgno v \<in> ?P - {pgno a} \<Longrightarrow> ubyte (mem t) d v = ubyte (mem s) d v" for t :: "'x vm_st_scheme"
    proof (rule runs_mono[OF Suc.IH[OF t(1)[unfolded P]]], goal_cases)
      case (8 r t')
      then obtain ys where ys: "length ys = n - Suc k" "uspace t' d (ys @ frame (mem s) d a # xs) {..<j}"
        "\<forall>v. pgno v < j \<longrightarrow> ubyte (mem t') d v = ubyte (mem t) d v" by blast
      have "uspace t' d ((ys @ [frame (mem s) d a]) @ xs) {..<j}" "length (ys @ [frame (mem s) d a]) = n - k" using ys True by auto
      moreover have "ubyte (mem t') d v = ubyte (mem s) d v" if "pgno v < j" for v
        using ys(3) t(3)[of v] that Suc.prems(2) pg by auto
      ultimately show ?case by blast
    qed (use Suc.prems t(2) True a' in auto)
    have "runs (thn (kfree (p2v (PTE_ADDR (entry (mem s) d a)))) (wr32 (slot (mem s) d a) 0)) s
      (\<lambda>_ t. runs (dealloc_loop fuel d (a + 4096) oldsz) t (\<lambda>_ t'. \<exists>ys. length ys = n - k \<and> uspace t' d (ys @ xs) {..<j}
        \<and> (\<forall>v. pgno v < j \<longrightarrow> ubyte (mem t') d v = ubyte (mem s) d v)))"
      by (rule runs_mono[OF free_page_run[OF u mem, unfolded frame_def]], rule go) (auto simp: frame_def)
    then show ?thesis
      using a sl nz uspaceD(2)[OF u mem] by (simp add: runs_Ret[of "walkpgdir d a False", OF walkpgdir_tab[OF h]] rd32_def ld)
  qed
qed

lemma deallocuvm_run:
  assumes u: "uspace s d xs {..<upages oldsz}" and sz: "newsz \<le> oldsz" "oldsz < KERNBASE" "KERNBASE < kend s"
  shows "runs (deallocuvm d oldsz newsz) s (\<lambda>r t. r = newsz \<and> (\<exists>ys. length ys = upages oldsz - upages newsz \<and> uspace t d (ys @ xs) {..<upages newsz})
    \<and> (\<forall>v. pgno v < upages newsz \<longrightarrow> ubyte (mem t) d v = ubyte (mem s) d v))"
proof (cases "newsz = oldsz")
  case False
  have new: "newsz < KERNBASE" using sz by simp
  have le: "upages newsz \<le> upages oldsz" "upages oldsz \<le> 2 ^ 19" using upages_less sz by auto
  then have P: "{..<upages oldsz} = {..<upages newsz} \<union> {upages newsz..<upages oldsz}" by auto
  have "runs (dealloc_loop 1048576 d (PGROUNDUP newsz) oldsz) s (\<lambda>_ t. \<exists>ys. length ys = upages oldsz - upages newsz
      \<and> uspace t d (ys @ xs) {..<upages newsz} \<and> (\<forall>v. pgno v < upages newsz \<longrightarrow> ubyte (mem t) d v = ubyte (mem s) d v))"
    by (rule dealloc_run[OF u[unfolded P]]) (use le sz(3) pgroundup_pages[OF new] in simp_all)
  moreover have "\<not> oldsz \<le> newsz" using False sz(1) by simp
  ultimately show ?thesis unfolding deallocuvm_def by (auto elim!: runs_mono)
qed (use u in \<open>simp add: deallocuvm_def\<close>)

subsection \<open>Copying to user memory\<close>

lemma frame_write:
  assumes u: "uspace s d xs P" and va: "pgno va \<in> P"
    and out: "\<And>a. \<not> in_page (frame (mem s) d va) a \<Longrightarrow> m' a = mem s a"
  shows "uspace (s\<lparr>mem := m'\<rparr>) d xs P" "entry m' d v = entry (mem s) d v"
proof -
  let ?f = "frame (mem s) d va" and ?t = "s\<lparr>mem := m'\<rparr>"
  note inv = uspaceD(1)[OF u] and f = uspaceD(3)[OF u va] uspaceD(4)[OF u va]
  have dd: "m' a = mem s a" if "in_page d a" for a using out pages_disjoint[of ?f d a] pt_invD(3)[OF inv] f that by auto
  have tt: "m' a = mem s a" if "p \<in> tabs (mem s) d" "in_page p a" for p a
    using out pages_disjoint[of ?f p a] pt_invD(5)[OF inv that(1)] that f by auto
  note sc = space_cong[of d m' "mem s", OF dd tt]
  show e: "entry m' d v = entry (mem s) d v" for v by (rule sc(3))
  have "kpool ?t xs"
  proof (rule kpool_cong[OF pt_invD(1)[OF inv]])
    fix y a assume y: "y \<in> set xs" "in_page y a"
    have "pg_aligned y" using pt_invD(1)[OF inv] y(1) by (auto simp: kpool_def kmem_inv_def page_ok_def)
    then show "m' a = mem s a" using out pages_disjoint[of ?f y a] f y by auto
  qed simp_all
  then have "pt_inv ?t d xs" by (rule pt_inv_same(1)[OF inv]) (use sc in auto)
  moreover have "frame m' d v = frame (mem s) d v" for v by (simp add: frame_def e)
  moreover have "tabs m' d = tabs (mem s) d" by (rule sc(5))
  ultimately show "uspace ?t d xs P" using u unfolding uspace_def by (simp add: e)
qed

lemma uva2ka_frame:
  assumes u: "uspace s d xs P" and v: "pgno v \<in> P"
  shows "uva2ka d v s = Ret (frame (mem s) d v) s" "frame (mem s) d v \<noteq> 0"
proof -
  have h: "has_tab (mem s) d v" using uspaceD(2)[OF u v] by (auto simp: entry_def split: if_splits)
  have sl: "slot (mem s) d v \<noteq> 0"
    using slot_nonzero pt_invD(5)[OF uspaceD(1)[OF u] pt_invD(6)[OF uspaceD(1)[OF u] h]] unfolding slot_def by blast
  have ld: "load32 (mem s) (slot (mem s) d v) = entry (mem s) d v" using h by (simp add: entry_def)
  show "uva2ka d v s = Ret (frame (mem s) d v) s"
    using sl uspaceD(2)[OF u v] by (simp add: uva2ka_def kstep walkpgdir_tab[OF h] rd32_def ld frame_def)
  show "frame (mem s) d v \<noteq> 0" using page_ok_nonzero uspaceD(3)[OF u v] by blast
qed

lemma frame_pgno: "pgno v = pgno w \<Longrightarrow> frame m d v = frame m d w"
  by (simp add: frame_def entry_def has_tab_def slot_def tab_def pgno_eq_iff)

lemma offset_in_page: "va - PGROUNDDOWN va = of_nat (unat va mod 4096)"
proof -
  have "PGROUNDDOWN va \<le> va" by (simp add: word_le_nat_alt pgdown_unat pgno_def)
  then have "unat (va - PGROUNDDOWN va) = unat va mod 4096" by (simp add: unat_sub pgdown_unat pgno_def minus_div_mult_eq_mod)
  then show ?thesis by (simp add: word_unat_eq_iff unat_of_nat)
qed

text \<open>Bytes stored within a page.\<close>

lemma store_in_page:
  fixes f :: uint
  assumes o: "k + length bs \<le> 4096"
  shows "i < 4096 \<Longrightarrow> store_bytes m (f + of_nat k) bs (f + of_nat i) =
      (if k \<le> i \<and> i < k + length bs then bs ! (i - k) else m (f + of_nat i))"
    "\<not> in_page f a \<Longrightarrow> store_bytes m (f + of_nat k) bs a = m a"
proof -
  have off: "unat (x - f) = k + q" if "q = unat (x - (f + of_nat k))" "q < length bs" for x q
  proof -
    have "x - f = of_nat (k + q)" using that(1) by simp
    then have "unat (x - f) = unat (of_nat (k + q) :: uint)" by (rule arg_cong)
    then show ?thesis using unat_of_nat32[of "k + q"] o that(2) by simp
  qed
  show "store_bytes m (f + of_nat k) bs a = m a" if "\<not> in_page f a"
    using off[OF refl, of a] that o by (auto simp: store_bytes_def in_page_def)
  show "store_bytes m (f + of_nat k) bs (f + of_nat i) =
      (if k \<le> i \<and> i < k + length bs then bs ! (i - k) else m (f + of_nat i))" if i: "i < 4096"
  proof -
    define q where "q = unat (f + of_nat i - (f + of_nat k))"
    have u: "unat (f + of_nat i - f) = i" using i by (simp add: unat_of_nat)
    have "i = k + q" if "q < length bs" using off[OF q_def that] u by simp
    moreover have "q = i - k" if "k \<le> i"
    proof -
      have "f + of_nat i - (f + of_nat k) = of_nat (i - k)" using that by (simp add: of_nat_diff)
      then show ?thesis unfolding q_def using unat_of_nat32[of "i - k"] i by simp
    qed
    ultimately have "q < length bs \<longleftrightarrow> k \<le> i \<and> i < k + length bs" "k \<le> i \<Longrightarrow> q = i - k" by fastforce+
    then show ?thesis unfolding store_bytes_def q_def[symmetric] by simp
  qed
qed

text \<open>Writing bytes into one page, seen from the user's addresses.\<close>

lemma write_piece:
  assumes u: "uspace s d xs P" and va: "pgno va \<in> P" and n: "unat va mod 4096 + length bs \<le> 4096"
  defines "m' \<equiv> store_bytes (mem s) (frame (mem s) d va + of_nat (unat va mod 4096)) bs"
  shows "uspace (s\<lparr>mem := m'\<rparr>) d xs P"
    "pgno v \<in> P \<Longrightarrow> ubyte m' d v = (if unat va \<le> unat v \<and> unat v < unat va + length bs then bs ! (unat v - unat va) else ubyte (mem s) d v)"
proof -
  let ?f = "frame (mem s) d va" and ?o = "unat va mod 4096"
  note st = store_in_page(1)[OF n, where m = "mem s" and f = ?f, folded m'_def]
  note out = store_in_page(2)[OF n, where m = "mem s" and f = ?f, folded m'_def]
  note fw = frame_write[OF u va out]
  show "uspace (s\<lparr>mem := m'\<rparr>) d xs P" by (rule fw(1))
  show "ubyte m' d v = (if unat va \<le> unat v \<and> unat v < unat va + length bs then bs ! (unat v - unat va) else ubyte (mem s) d v)"
    if v: "pgno v \<in> P"
  proof -
    have "entry m' d v = entry (mem s) d v" by (rule fw(2))
    then have fr: "frame m' d v = frame (mem s) d v" by (simp add: frame_def)
    have dv: "unat x = pgno x * 4096 + unat x mod 4096" "unat x mod 4096 < 4096" for x by (simp_all add: pgno_def)
    show ?thesis
    proof (cases "pgno v = pgno va")
      case True
      then have "frame (mem s) d v = ?f" by (rule frame_pgno)
      moreover have "unat va \<le> unat v \<longleftrightarrow> ?o \<le> unat v mod 4096" "unat v < unat va + length bs \<longleftrightarrow> unat v mod 4096 < ?o + length bs"
        "unat v - unat va = unat v mod 4096 - ?o" using dv(1)[of v] dv(1)[of va] True by linarith+
      ultimately show ?thesis using st[OF dv(2)[of v]] by (simp add: ubyte_def fr)
    next
      case False
      have "\<not> (unat va \<le> unat v \<and> unat v < unat va + length bs)"
      proof
        assume a: "unat va \<le> unat v \<and> unat v < unat va + length bs"
        then have "unat v < (pgno va + 1) * 4096" using dv(1)[of va] n by simp
        then have "pgno v \<le> pgno va" unfolding pgno_def[of v] by (simp add: less_mult_imp_div_less)
        moreover have "pgno va \<le> pgno v" using a by (simp add: pgno_def div_le_mono)
        ultimately show False using False by simp
      qed
      moreover have "m' (frame (mem s) d v + of_nat (unat v mod 4096)) = mem s (frame (mem s) d v + of_nat (unat v mod 4096))"
        by (rule out, rule frame_outside[OF u v]) (use uspaceD(3)[OF u va] uspaceD(5)[OF u v va] False in auto)
      ultimately show ?thesis by (auto simp: ubyte_def fr)
    qed
  qed
qed

lemma copy_pieces_run:
  assumes "uspace s d xs P" "length buf = len" "unat va + len \<le> 2 ^ 32"
    "\<And>v. unat va \<le> unat v \<Longrightarrow> unat v < unat va + len \<Longrightarrow> pgno v \<in> P"
  shows "runs (copy_pieces d (pg_chunks va len) buf) s (\<lambda>r t. r = 0 \<and> uspace t d xs P \<and> kend t = kend s
    \<and> (\<forall>v. pgno v \<in> P \<longrightarrow> ubyte (mem t) d v = (if unat va \<le> unat v \<and> unat v < unat va + len then buf ! (unat v - unat va) else ubyte (mem s) d v)))"
  using assms
proof (induction va len arbitrary: s buf rule: pg_chunks.induct)
  case (1 va len)
  show ?case
  proof (cases "len = 0")
    case True
    then show ?thesis using 1(2,3) by (auto simp: pg_chunks.simps[of va 0])
  next
    case False
    define n where "n = min len (4096 - unat va mod 4096)"
    define va' where "va' = PGROUNDDOWN va + 4096"
    have n: "0 < n" "n \<le> len" "unat va mod 4096 + n \<le> 4096" using False by (auto simp: n_def)
    have va: "pgno va \<in> P" using 1(5)[of va] False by simp
    let ?m = "store_bytes (mem s) (frame (mem s) d va + of_nat (unat va mod 4096)) (take n buf)"
    have len: "length (take n buf) = n" using 1(3) n by simp
    note wp = write_piece[OF 1(2) va, of "take n buf", unfolded len, OF n(3)]
    have nx: "unat va' = unat va + n" if "n < len"
    proof -
      have "n = 4096 - unat va mod 4096" using that by (simp add: n_def)
      moreover have "unat va = pgno va * 4096 + unat va mod 4096" "unat va mod 4096 < 4096" by (simp_all add: pgno_def)
      ultimately have e: "unat va + n = pgno va * 4096 + 4096" by linarith
      then have "pgno va * 4096 + 4096 < 2 ^ 32" using that 1(4) by simp
      then show ?thesis using unat_add_of_nat[of "PGROUNDDOWN va" 4096] e by (simp add: va'_def pgdown_unat)
    qed
    have rest: "runs (copy_pieces d (pg_chunks va' (len - n)) (drop n buf)) (s\<lparr>mem := ?m\<rparr>) (\<lambda>r t. r = 0 \<and> uspace t d xs P \<and> kend t = kend s
      \<and> (\<forall>v. pgno v \<in> P \<longrightarrow> ubyte (mem t) d v = (if unat va \<le> unat v \<and> unat v < unat va + len then buf ! (unat v - unat va) else ubyte (mem s) d v)))"
    proof (cases "n = len")
      case True
      then show ?thesis using wp 1(3) by (simp add: pg_chunks.simps[of va' 0])
    next
      case neq: False
      then have va': "unat va' = unat va + n" using nx n(2) by simp
      have "runs (copy_pieces d (pg_chunks va' (len - n)) (drop n buf)) (s\<lparr>mem := ?m\<rparr>) (\<lambda>r t. r = 0 \<and> uspace t d xs P \<and> kend t = kend (s\<lparr>mem := ?m\<rparr>)
        \<and> (\<forall>v. pgno v \<in> P \<longrightarrow> ubyte (mem t) d v = (if unat va' \<le> unat v \<and> unat v < unat va' + (len - n) then drop n buf ! (unat v - unat va') else ubyte (mem (s\<lparr>mem := ?m\<rparr>)) d v)))"
        by (rule 1(1)[OF False refl, folded n_def va'_def]) (use wp(1) va' 1(3-5) n in auto)
      then show ?thesis
      proof (rule runs_mono, goal_cases)
        case (1 r t)
        have "ubyte (mem t) d v = (if unat va \<le> unat v \<and> unat v < unat va + len then buf ! (unat v - unat va) else ubyte (mem s) d v)"
          if v: "pgno v \<in> P" for v
          using 1 wp(2)[OF v] v va' n(2) \<open>length buf = len\<close> by auto
        then show ?case using 1 by auto
      qed
    qed
    have c: "pg_chunks va len = (va, n) # pg_chunks va' (len - n)"
      using False by (simp add: pg_chunks.simps[of va len] n_def va'_def Let_def)
    have f: "frame (mem s) d (PGROUNDDOWN va) = frame (mem s) d va" by (rule frame_pgno) simp
    have k: "uva2ka d (PGROUNDDOWN va) s = Ret (frame (mem s) d va) s" "frame (mem s) d va \<noteq> 0"
      using uva2ka_frame[OF 1(2), of "PGROUNDDOWN va"] va f by simp_all
    show ?thesis
      unfolding c copy_pieces.simps runs_bnd runs_Ret[of "uva2ka d (PGROUNDDOWN va)", OF k(1)]
      using k(2) rest by (simp add: offset_in_page)
  qed
qed

section \<open>An example address space\<close>

text \<open>A cleared page directory and two free pages.\<close>

definition ex_vm :: "'x vm_st_scheme \<Rightarrow> 'x vm_st_scheme" where
  "ex_vm s = s\<lparr>held := [], mem := store32 (\<lambda>_. 0) 0x80401000 0x80402000, freelist := 0x80401000, kend := 0x80110000\<rparr>"

lemma ex_pages: "page_ok 0x80110000 0x80400000" "page_ok 0x80110000 0x80401000" "page_ok 0x80110000 0x80402000"
  by (simp_all add: page_ok_def pg_aligned_def v2p_def)

lemma ex_words: "load32 (store32 (\<lambda>_. 0) 0x80401000 0x80402000) 0x80401000 = 0x80402000"
  "load32 (store32 (\<lambda>_. 0) 0x80401000 0x80402000) 0x80402000 = 0"
  by (simp add: load32_store32) (subst load_store, simp_all add: al4_iff, simp add: load32_def)

lemma ex_no_tab: "\<not> has_tab (mem (ex_vm s)) 0x80400000 va"
proof -
  have "load32 (mem (ex_vm s)) (0x80400000 + 4 * PDX va) = load32 (\<lambda>_. 0) (0x80400000 + 4 * PDX va)"
  proof (rule word_cong[OF PDX_bound])
    fix a :: uint assume a: "in_page 0x80400000 a"
    have "\<not> in_page 0x80401000 a" using pages_disjoint[of "0x80400000" "0x80401000" a] a by (auto simp: pg_aligned_def)
    then show "mem (ex_vm s) a = 0" using store_word_other[of 0 "0x80401000" a] by (simp add: ex_vm_def)
  qed
  then show ?thesis by (simp add: has_tab_def load32_def)
qed

lemma ex_uspace: "uspace (ex_vm s) 0x80400000 [0x80401000, 0x80402000] {}"
proof -
  have "tabs (mem (ex_vm s)) 0x80400000 = {}" by (simp add: tabs_def ex_no_tab)
  moreover have "kpool (ex_vm s) [0x80401000, 0x80402000]"
    using ex_pages ex_words by (simp add: kpool_def kmem_inv_def kmem_free_def ex_vm_def)
  ultimately have "pt_inv (ex_vm s) 0x80400000 [0x80401000, 0x80402000]"
    using ex_pages by (simp add: pt_inv_def ex_no_tab) (simp add: ex_vm_def)
  then show ?thesis by (simp add: uspace_def entry_def ex_no_tab)
qed

section \<open>Properties\<close>

text \<open>
  C17 (page tables): \<^verbatim>\<open>mappages\<close> on pages that are not mapped makes each page of the
  range translate to its physical page with the given permissions and changes no other
  translation; the page tables it needs come from the pool and nothing else in memory changes.  When the pool
  is exhausted it returns \<open>-1\<close> with a first part of the range mapped.
\<close>

theorem mappages_maps:
  assumes "pt_inv s d xs" and "0 < unat sz" "unat va + unat sz \<le> 2 ^ 32"
    and "\<And>v. pgno va \<le> pgno v \<Longrightarrow> pgno v \<le> pgno (va + sz - 1) \<Longrightarrow> entry (mem s) d v AND PTE_P = 0"
  shows "runs (mappages d va sz pa perm) s (\<lambda>r s'. \<exists>xs' n. pt_ext s d xs s' xs' \<and> mapped_to (mem s) d va n pa perm (mem s')
    \<and> (r = 0 \<and> n = pgno (va + sz - 1) + 1 - pgno va \<or> r = -1 \<and> xs' = [] \<and> n < pgno (va + sz - 1) + 1 - pgno va))"
  by (rule mappages_run[OF assms])

theorem mappages_maps_witness:
  "\<forall>s :: vm_st. runs (mappages 0x80400000 0x1000 0x2000 0 PTE_W) (ex_vm s) (\<lambda>r s'. \<exists>xs' n. pt_ext (ex_vm s) 0x80400000 [0x80401000, 0x80402000] s' xs'
    \<and> mapped_to (mem (ex_vm s)) 0x80400000 0x1000 n 0 PTE_W (mem s') \<and> (r = 0 \<and> n = 2 \<or> r = -1 \<and> xs' = [] \<and> n < 2))"
proof
  fix s :: vm_st
  show "runs (mappages 0x80400000 0x1000 0x2000 0 PTE_W) (ex_vm s) (\<lambda>r s'. \<exists>xs' n. pt_ext (ex_vm s) 0x80400000 [0x80401000, 0x80402000] s' xs'
    \<and> mapped_to (mem (ex_vm s)) 0x80400000 0x1000 n 0 PTE_W (mem s') \<and> (r = 0 \<and> n = 2 \<or> r = -1 \<and> xs' = [] \<and> n < 2))"
    by (rule runs_mono[OF mappages_maps[OF uspaceD(1)[OF ex_uspace]]]) (simp_all add: entry_def ex_no_tab pgno_def)
qed

text \<open>
  C10 (growing a process): with two free pages for each new page, \<^verbatim>\<open>allocuvm\<close> extends the
  address space to the new size.  The new pages are distinct pages of memory, accessible to the user and
  filled with zeros, and the bytes below the old size stay.
\<close>

theorem allocuvm_grows:
  assumes "uspace s d xs {..<upages oldsz}" and "oldsz \<le> newsz" "newsz < KERNBASE"
    and "2 * (upages newsz - upages oldsz) \<le> length xs"
  shows "runs (allocuvm d oldsz newsz) s (\<lambda>r t. r = newsz \<and> (\<exists>ys. uspace t d ys {..<upages newsz})
    \<and> (\<forall>v. pgno v < upages newsz \<longrightarrow> ubyte (mem t) d v = (if pgno v < upages oldsz then ubyte (mem s) d v else 0)))"
  by (rule runs_mono[OF allocuvm_run[OF assms]]) simp

theorem allocuvm_grows_witness:
  "\<forall>s :: vm_st. runs (allocuvm 0x80400000 0 100) (ex_vm s) (\<lambda>r t. r = 100 \<and> (\<exists>ys. uspace t 0x80400000 ys {..<1}) \<and> ubyte (mem t) 0x80400000 99 = 0)"
proof
  fix s :: vm_st
  have "uspace (ex_vm s) 0x80400000 [0x80401000, 0x80402000] {..<upages 0}" using ex_uspace by (simp add: upages_def)
  from allocuvm_grows[OF this, of 100] show "runs (allocuvm 0x80400000 0 100) (ex_vm s)
      (\<lambda>r t. r = 100 \<and> (\<exists>ys. uspace t 0x80400000 ys {..<1}) \<and> ubyte (mem t) 0x80400000 99 = 0)"
    by (rule runs_mono) (auto simp: upages_def pgno_def)
qed

text \<open>A state with one page of user memory, for the examples below.\<close>

lemma ex_one_page:
  "\<exists>t ys. uspace (t :: 'x vm_st_scheme) 0x80400000 ys {..<1} \<and> KERNBASE < kend t"
proof -
  fix s :: "'x vm_st_scheme"
  have u: "uspace (ex_vm s) 0x80400000 [0x80401000, 0x80402000] {..<upages 0}" using ex_uspace by (simp add: upages_def)
  have "runs (allocuvm 0x80400000 0 100) (ex_vm s) (\<lambda>r t. kend t = kend (ex_vm s) \<and> (\<exists>ys. uspace t 0x80400000 ys {..<1}))"
    by (rule runs_mono[OF allocuvm_run[OF u, of 100]]) (auto simp: upages_def)
  then obtain t :: "'x vm_st_scheme" and ys where "uspace t 0x80400000 ys {..<1}" "kend t = kend (ex_vm s)" unfolding runs_iff by blast
  then show ?thesis by (intro exI[of _ t] exI[of _ ys]) (simp add: ex_vm_def)
qed





text \<open>
  C31 (a hole after running out of memory): \<^verbatim>\<open>allocuvm\<close> ignores the result of
  \<^verbatim>\<open>mappages\<close>.  With a single free page and no page table yet it reports success, although the
  page is not mapped; the free page is lost.
\<close>

theorem allocuvm_hole:
  assumes "pt_inv s d [x]" and "\<not> has_tab (mem s) d 0"
  shows "runs (allocuvm d 0 4096) s (\<lambda>r t. r = 4096 \<and> entry (mem t) d 0 = 0 \<and> kpool t [])"
proof -
  define t where "t = s\<lparr>freelist := load32 (mem s) x, mem := memset (mem s) x 0 4096\<rparr>"
  note tp = take_page[OF assms(1), folded t_def] and kc = kalloc_cons[OF pt_invD(1)[OF assms(1)]]
  have nt: "\<not> has_tab (mem t) d 0" using tp(11) assms(2) by simp
  then have e: "entry (mem t) d 0 = 0" by (simp add: entry_def)
  have "runs (map_page d 0 (v2p x OR (PTE_W OR PTE_U) OR PTE_P)) t (\<lambda>r t'. r = Some (-1) \<and> t' = t)"
    using walkpgdir_full[OF nt pt_invD(1)[OF tp(1)]] by (simp add: map_page_def runs_Ret)
  moreover have "PGROUNDUP 0 = 0" "(unat (4096 :: uint) - unat (0 :: uint) + 4095) div 4096 = 1" by (simp_all add: PGROUNDUP_def)
  ultimately show ?thesis
    using kc e pt_invD(1)[OF tp(1)]
    by (auto simp: allocuvm_def runs_Ret[of kalloc] t_def[symmetric] mappages_one[of 0 0] elim!: runs_mono)
qed

theorem allocuvm_hole_witness:
  "\<exists>s :: vm_st. runs (allocuvm 0x80400000 0 4096) s (\<lambda>r t. r = 4096 \<and> entry (mem t) 0x80400000 0 = 0 \<and> kpool t [])"
proof -
  fix s :: vm_st
  note tp = take_page[OF uspaceD(1)[OF ex_uspace[of s]]]
  show ?thesis using allocuvm_hole[OF tp(1)] tp(11)[of 0] ex_no_tab[of s 0] by blast
qed

end
