(* ===== verification/Bio.thy ===== *)
theory Bio
  imports Vm
begin

text \<open>
  Model of the disk driver \<^verbatim>\<open>memide.c\<close> and of the buffer cache \<^verbatim>\<open>bio.c\<close>.
  The disk is an array of 512-byte blocks; besides the blocks the state keeps the history of
  the writes the disk has received, from which crashes are derived later.  The buffers are an
  array whose entry \<open>NBUF\<close> is the list head; the list runs through the fields
  \<open>b_prev\<close> and \<open>b_next\<close> as in the code.  The bits of \<^verbatim>\<open>flags\<close> are
  three booleans.
\<close>

section \<open>Data (buf.h)\<close>

record buf =
  b_busy :: bool
  b_valid :: bool
  b_dirty :: bool
  b_dev :: uint
  b_blockno :: uint
  b_prev :: nat
  b_next :: nat
  b_data :: "byte list"

type_synonym block = "byte list"

record bc_st = vm_st +
  disk :: "uint \<Rightarrow> block"
  disksize :: uint
  dwrites :: "(uint \<times> block) list"
  bufs :: "nat \<Rightarrow> buf"

abbreviation (input) HEAD :: nat where "HEAD \<equiv> NBUF"

definition updb :: "nat \<Rightarrow> (buf \<Rightarrow> buf) \<Rightarrow> ('x bc_st_scheme, unit) kernel" where
  "updb i f = modify (\<lambda>s. s\<lparr>bufs := (bufs s)(i := f (bufs s i))\<rparr>)"

section \<open>Disk (memide.c)\<close>

text \<open>The disk is the file system image, whose address and size the linker provides.\<close>

definition ideinit :: "(uint \<Rightarrow> block) \<Rightarrow> uint \<Rightarrow> ('x bc_st_scheme, unit) kernel" where
  "ideinit img img_size =
     thn (modify (\<lambda>s. s\<lparr>disk := img\<rparr>)) (
     modify (\<lambda>s. s\<lparr>disksize := img_size div 512\<rparr>))"

definition iderw :: "nat \<Rightarrow> ('x bc_st_scheme, unit) kernel" where
  "iderw i =
     bnd (gets (\<lambda>s. bufs s i)) (\<lambda>b.
     if \<not> b_busy b then panic ''iderw: buf not busy'' else
     if b_valid b \<and> \<not> b_dirty b then panic ''iderw: nothing to do'' else
     if b_dev b \<noteq> 1 then panic ''iderw: request not for disk 1'' else
     bnd (gets disksize) (\<lambda>n.
     if n \<le> b_blockno b then panic ''iderw: block out of range'' else
     thn (if b_dirty b then
            thn (updb i (b_dirty_update (\<lambda>_. False))) (
            modify (\<lambda>s. s\<lparr>disk := (disk s)(b_blockno b := b_data b),
              dwrites := dwrites s @ [(b_blockno b, b_data b)]\<rparr>))
          else bnd (gets (\<lambda>s. disk s (b_blockno b))) (\<lambda>d. updb i (b_data_update (\<lambda>_. d)))) (
     updb i (b_valid_update (\<lambda>_. True)))))"

section \<open>Buffer cache (bio.c)\<close>

definition binit :: "('x bc_st_scheme, unit) kernel" where
  "binit =
     thn (initlk BcacheLock) (
     thn (updb HEAD (b_prev_update (\<lambda>_. HEAD))) (
     thn (updb HEAD (b_next_update (\<lambda>_. HEAD))) (
     forM [0..<NBUF] (\<lambda>b.
       bnd (gets (\<lambda>s. b_next (bufs s HEAD))) (\<lambda>n.
       thn (updb b (b_next_update (\<lambda>_. n))) (
       thn (updb b (b_prev_update (\<lambda>_. HEAD))) (
       thn (updb b (b_dev_update (\<lambda>_. -1))) (
       thn (updb n (b_prev_update (\<lambda>_. b))) (
       updb HEAD (b_next_update (\<lambda>_. b)))))))))))"

text \<open>
  A walk along the list from \<open>b\<close> to the first buffer with a property, or to the head.
  A list of \<open>NBUF\<close> buffers that is followed further than that has a cycle, and the
  walk does not end: \<open>None\<close>.
\<close>

fun walk :: "nat \<Rightarrow> (nat \<Rightarrow> nat) \<Rightarrow> (nat \<Rightarrow> bool) \<Rightarrow> nat \<Rightarrow> nat option option" where
  "walk 0 nx P b = (if b = HEAD then Some None else None)"
| "walk (Suc k) nx P b =
     (if b = HEAD then Some None else if P b then Some (Some b) else walk k nx P (nx b))"

definition walkk :: "(buf \<Rightarrow> nat) \<Rightarrow> (buf \<Rightarrow> bool) \<Rightarrow> ('x bc_st_scheme, nat option) kernel" where
  "walkk nx P = (\<lambda>s. case walk NBUF (\<lambda>b. nx (bufs s b)) (\<lambda>b. P (bufs s b)) (nx (bufs s HEAD)) of
       None \<Rightarrow> Spin
     | Some r \<Rightarrow> Ret r s)"

text \<open>
  The code from the label \<^verbatim>\<open>loop\<close> on.  When the buffer is busy it sleeps; it starts
  over when it is woken.
\<close>

definition bget_loop :: "uint \<Rightarrow> uint \<Rightarrow> ('x bc_st_scheme, nat) kernel" where
  "bget_loop dev blockno =
     bnd (walkk b_next (\<lambda>b. b_dev b = dev \<and> b_blockno b = blockno)) (\<lambda>r.
     case r of
       Some i \<Rightarrow>
         bnd (gets (\<lambda>s. b_busy (bufs s i))) (\<lambda>busy.
         if \<not> busy then
           thn (updb i (b_busy_update (\<lambda>_. True))) (
           thn (rel BcacheLock) (
           ret i))
         else
           thn (sleep (Some (ChanBuf i)) (Some BcacheLock)) (ret i))
     | None \<Rightarrow>
         bnd (walkk b_prev (\<lambda>b. \<not> b_busy b \<and> \<not> b_dirty b)) (\<lambda>r.
         case r of
           Some i \<Rightarrow>
             thn (updb i (\<lambda>b. b\<lparr>b_dev := dev, b_blockno := blockno,
               b_busy := True, b_valid := False, b_dirty := False\<rparr>)) (
             thn (rel BcacheLock) (
             ret i))
         | None \<Rightarrow> panic ''bget: no buffers''))"

definition bget :: "uint \<Rightarrow> uint \<Rightarrow> ('x bc_st_scheme, nat) kernel" where
  "bget dev blockno = thn (acq BcacheLock) (bget_loop dev blockno)"

definition bget_resume :: "uint \<Rightarrow> uint \<Rightarrow> ('x bc_st_scheme, nat) kernel" where
  "bget_resume dev blockno = thn (sleep_resume BcacheLock) (bget_loop dev blockno)"

definition bread :: "uint \<Rightarrow> uint \<Rightarrow> ('x bc_st_scheme, nat) kernel" where
  "bread dev blockno =
     bnd (bget dev blockno) (\<lambda>b.
     bnd (gets (\<lambda>s. b_valid (bufs s b))) (\<lambda>v.
     thn (whenk (\<not> v) (iderw b)) (
     ret b)))"

definition bwrite :: "nat \<Rightarrow> ('x bc_st_scheme, unit) kernel" where
  "bwrite b =
     bnd (gets (\<lambda>s. b_busy (bufs s b))) (\<lambda>busy.
     if \<not> busy then panic ''bwrite'' else
     thn (updb b (b_dirty_update (\<lambda>_. True))) (
     iderw b))"

definition brelse :: "nat \<Rightarrow> ('x bc_st_scheme, unit) kernel" where
  "brelse b =
     bnd (gets (\<lambda>s. b_busy (bufs s b))) (\<lambda>busy.
     if \<not> busy then panic ''brelse'' else
     thn (acq BcacheLock) (
     bnd (gets (\<lambda>s. bufs s b)) (\<lambda>r.
     thn (updb (b_next r) (b_prev_update (\<lambda>_. b_prev r))) (
     bnd (gets (\<lambda>s. bufs s b)) (\<lambda>r.
     thn (updb (b_prev r) (b_next_update (\<lambda>_. b_next r))) (
     bnd (gets (\<lambda>s. b_next (bufs s HEAD))) (\<lambda>n.
     thn (updb b (b_next_update (\<lambda>_. n))) (
     thn (updb b (b_prev_update (\<lambda>_. HEAD))) (
     thn (updb n (b_prev_update (\<lambda>_. b))) (
     thn (updb HEAD (b_next_update (\<lambda>_. b))) (
     thn (updb b (b_busy_update (\<lambda>_. False))) (
     thn (wakeup (Some (ChanBuf b))) (
     rel BcacheLock)))))))))))))"

section \<open>Doubly linked lists\<close>

text \<open>
  \<open>links nx pv ys\<close>: neighbours in \<open>ys\<close> point at each other.  The ring of
  buffers \<open>xs\<close> around the head is \<^term>\<open>links nx pv (HEAD # xs @ [HEAD])\<close>.
\<close>

fun links :: "(nat \<Rightarrow> nat) \<Rightarrow> (nat \<Rightarrow> nat) \<Rightarrow> nat list \<Rightarrow> bool" where
  "links nx pv (a # b # ys) = (nx a = b \<and> pv b = a \<and> links nx pv (b # ys))"
| "links nx pv _ = True"

definition ring :: "(nat \<Rightarrow> nat) \<Rightarrow> (nat \<Rightarrow> nat) \<Rightarrow> nat list \<Rightarrow> bool" where
  "ring nx pv xs \<longleftrightarrow> links nx pv (HEAD # xs @ [HEAD]) \<and> distinct xs \<and> HEAD \<notin> set xs"

lemma links_append:
  "links nx pv (xs @ a # ys) \<longleftrightarrow> links nx pv (xs @ [a]) \<and> links nx pv (a # ys)"
proof (induction xs)
  case (Cons x xs)
  then show ?case by (cases xs) auto
qed simp

lemma links_join:
  "links nx pv (xs @ [a]) \<Longrightarrow> links nx pv (b # ys) \<Longrightarrow> nx a = b \<Longrightarrow> pv b = a
    \<Longrightarrow> links nx pv (xs @ a # b # ys)"
  by (simp add: links_append[of _ _ xs a "b # ys"])

lemma links_rev: "links pv nx (rev ys) \<longleftrightarrow> links nx pv ys"
proof (induction ys)
  case (Cons a ys)
  show ?case
  proof (cases ys)
    case (Cons b zs)
    have "links pv nx (rev zs @ [b, a]) \<longleftrightarrow> links pv nx (rev zs @ [b]) \<and> links pv nx [b, a]"
      using links_append[of pv nx "rev zs" b "[a]"] by simp
    with Cons.IH show ?thesis unfolding Cons by auto
  qed simp
qed simp

lemma links_cong:
  assumes "links nx pv ys" and "\<And>x. x \<in> set (butlast ys) \<Longrightarrow> nx' x = nx x"
    and "\<And>x. x \<in> set (tl ys) \<Longrightarrow> pv' x = pv x"
  shows "links nx' pv' ys"
  using assms by (induction nx pv ys rule: links.induct) (auto split: if_splits)

lemma ring_rev: "ring nx pv xs \<Longrightarrow> ring pv nx (rev xs)"
  using links_rev[of pv nx "HEAD # xs @ [HEAD]"] by (simp add: ring_def)

lemma walk_links:
  assumes "links nx pv (a # xs @ [HEAD])" and "HEAD \<notin> set xs" and "length xs \<le> k"
  shows "walk k nx P (nx a) = Some (find P xs)"
  using assms
proof (induction xs arbitrary: a k)
  case Nil
  then show ?case by (cases k) auto
next
  case (Cons x xs)
  then obtain k' where "k = Suc k'" by (cases k) auto
  with Cons show ?case by auto
qed

lemma ring_remove:
  assumes "ring nx pv (us @ b # vs)"
  shows "ring (nx(pv b := nx b)) (pv(nx b := pv b)) (us @ vs)"
proof -
  obtain A p where A: "HEAD # us = A @ [p]" by (metis append_butlast_last_id list.distinct(1))
  obtain n B where B: "vs @ [HEAD] = n # B" by (cases vs) auto
  have d: "distinct (us @ b # vs)" "HEAD \<notin> set (us @ b # vs)" using assms by (auto simp: ring_def)
  have "links nx pv ((HEAD # us) @ b # (vs @ [HEAD]))" using assms by (simp add: ring_def)
  then have l: "links nx pv ((HEAD # us) @ [b])" "links nx pv (b # (vs @ [HEAD]))"
    using links_append[of nx pv "HEAD # us" b "vs @ [HEAD]"] by blast+
  have "pv b = p" using l(1) links_append[of nx pv A p "[b]"] unfolding A by simp
  moreover have "nx b = n" using l(2) unfolding B by simp
  ultimately have pn: "pv b = p" "nx b = n" .
  have "links nx pv (A @ [p])"
    using l(1) links_append[of nx pv A p "[b]"] unfolding A by simp
  then have 1: "links (nx(p := n)) (pv(n := p)) (A @ [p])"
  proof (rule links_cong)
    fix x assume "x \<in> set (butlast (A @ [p]))"
    then have "x \<noteq> p" using d A by (cases us rule: rev_cases) (auto split: if_splits)
    then show "(nx(p := n)) x = nx x" by simp
  next
    fix x assume "x \<in> set (tl (A @ [p]))"
    then have "x \<in> set us" unfolding A[symmetric] by simp
    then have "x \<noteq> n" using d B by (cases vs) auto
    then show "(pv(n := p)) x = pv x" by simp
  qed
  have "links nx pv (n # B)" using l(2) unfolding B by simp
  then have 2: "links (nx(p := n)) (pv(n := p)) (n # B)"
  proof (rule links_cong)
    fix x assume "x \<in> set (butlast (n # B))"
    then have "x \<in> set vs" unfolding B[symmetric] by simp
    then have "x \<noteq> p" using d A by (cases us rule: rev_cases) auto
    then show "(nx(p := n)) x = nx x" by simp
  next
    fix x assume "x \<in> set (tl (n # B))"
    then have "x \<noteq> n" using d B by (cases vs) auto
    then show "(pv(n := p)) x = pv x" by simp
  qed
  have "links (nx(p := n)) (pv(n := p)) (A @ p # n # B)"
    by (rule links_join[OF 1 2]) simp_all
  moreover have "A @ p # n # B = HEAD # us @ vs @ [HEAD]"
    using A B by (metis append.assoc append_Cons append_Nil)
  ultimately show ?thesis using d unfolding ring_def pn by simp
qed

lemma ring_insert:
  assumes "ring nx pv xs" and "b \<notin> set xs" and "b \<noteq> HEAD"
  shows "ring (nx(b := nx HEAD, HEAD := b)) (pv(b := HEAD, nx HEAD := b)) (b # xs)"
proof -
  obtain h B where B: "xs @ [HEAD] = h # B" by (cases xs) auto
  have d: "distinct xs" "HEAD \<notin> set xs" using assms by (auto simp: ring_def)
  have l: "links nx pv (HEAD # h # B)" using assms(1) unfolding ring_def B by simp
  then have hd: "nx HEAD = h" by simp
  from l have "links nx pv (h # B)" by simp
  then have "links (nx(b := h, HEAD := b)) (pv(b := HEAD, h := b)) (h # B)"
  proof (rule links_cong)
    fix x assume "x \<in> set (butlast (h # B))"
    then have "x \<in> set xs" unfolding B[symmetric] by simp
    then show "(nx(b := h, HEAD := b)) x = nx x" using assms(2) d by auto
  next
    fix x assume "x \<in> set (tl (h # B))"
    then have "x \<noteq> h" "x \<noteq> b" using d assms(2,3) B by (cases xs; auto)+
    then show "(pv(b := HEAD, h := b)) x = pv x" by simp
  qed
  moreover have "h \<noteq> b" using assms(2,3) B by (cases xs) auto
  ultimately have "links (nx(b := h, HEAD := b)) (pv(b := HEAD, h := b)) (HEAD # b # h # B)"
    using assms(3) by simp
  then show ?thesis using d assms(2,3) unfolding ring_def hd B[symmetric] by simp
qed

section \<open>Invariant of the cache\<close>

definition lru :: "'x bc_st_scheme \<Rightarrow> nat list \<Rightarrow> bool" where
  "lru s xs \<longleftrightarrow> ring (\<lambda>i. b_next (bufs s i)) (\<lambda>i. b_prev (bufs s i)) xs \<and> set xs = {0..<NBUF}"

definition caches :: "buf \<Rightarrow> uint \<Rightarrow> bool" where
  "caches b n \<longleftrightarrow> b_dev b = 1 \<and> b_blockno b = n"

definition bc_inv :: "'x bc_st_scheme \<Rightarrow> bool" where
  "bc_inv s \<longleftrightarrow> (\<exists>xs. lru s xs)
     \<and> (\<forall>i < NBUF. \<forall>j < NBUF. \<forall>n. caches (bufs s i) n \<longrightarrow> caches (bufs s j) n \<longrightarrow> i = j)
     \<and> (\<forall>i < NBUF. b_valid (bufs s i) \<longrightarrow> caches (bufs s i) (b_blockno (bufs s i))
          \<and> b_blockno (bufs s i) < disksize s
          \<and> (b_busy (bufs s i) \<or> b_dirty (bufs s i) \<or> b_data (bufs s i) = disk s (b_blockno (bufs s i))))
     \<and> (\<forall>i < NBUF. b_dirty (bufs s i) \<or> b_busy (bufs s i) \<longrightarrow> b_valid (bufs s i))"

text \<open>What a client of the cache sees of a block, and the blocks it holds and has pinned.\<close>

definition view :: "'x bc_st_scheme \<Rightarrow> uint \<Rightarrow> block" where
  "view s n = (case find (\<lambda>i. caches (bufs s i) n \<and> b_valid (bufs s i)) [0..<NBUF] of
      None \<Rightarrow> disk s n
    | Some i \<Rightarrow> b_data (bufs s i))"

definition dirty_blocks :: "'x bc_st_scheme \<Rightarrow> uint set" where
  "dirty_blocks s = {n. \<exists>i < NBUF. caches (bufs s i) n \<and> b_dirty (bufs s i)}"

definition holds_buf :: "'x bc_st_scheme \<Rightarrow> nat \<Rightarrow> uint option" where
  "holds_buf s i = (if i < NBUF \<and> b_busy (bufs s i) then Some (b_blockno (bufs s i)) else None)"

definition bc_unlocked :: "'x bc_st_scheme \<Rightarrow> bool" where
  "bc_unlocked s \<longleftrightarrow> BcacheLock \<notin> set (held s) \<and> PtableLock \<notin> set (held s)"

section \<open>Lemmas: the routines\<close>

lemma updb_run [kstep]: "updb i f s = Ret () (s\<lparr>bufs := (bufs s)(i := f (bufs s i))\<rparr>)"
  by (simp add: updb_def kstep)

lemma find_SomeD: "find P xs = Some x \<Longrightarrow> x \<in> set xs \<and> P x"
  by (auto simp: find_Some_iff)

lemma walk_fwd:
  assumes "lru s xs"
  shows "walkk b_next P s = Ret (find (\<lambda>i. P (bufs s i)) xs) s"
proof -
  have "length xs \<le> NBUF" using assms distinct_card[of xs] by (simp add: lru_def ring_def)
  then show ?thesis
    using walk_links[of "\<lambda>i. b_next (bufs s i)" "\<lambda>i. b_prev (bufs s i)" HEAD xs NBUF "\<lambda>i. P (bufs s i)"] assms
    by (simp add: walkk_def lru_def ring_def)
qed

lemma walk_bwd:
  assumes "lru s xs"
  shows "walkk b_prev P s = Ret (find (\<lambda>i. P (bufs s i)) (rev xs)) s"
proof -
  have r: "ring (\<lambda>i. b_prev (bufs s i)) (\<lambda>i. b_next (bufs s i)) (rev xs)"
    using assms by (simp add: lru_def ring_rev)
  have "length xs \<le> NBUF" using assms distinct_card[of xs] by (simp add: lru_def ring_def)
  then show ?thesis
    using walk_links[of "\<lambda>i. b_prev (bufs s i)" "\<lambda>i. b_next (bufs s i)" HEAD "rev xs" NBUF "\<lambda>i. P (bufs s i)"] r
    by (simp add: walkk_def ring_def)
qed

lemma bc_inv_unique:
  assumes "bc_inv s" and "i < NBUF" and "j < NBUF" and "caches (bufs s i) n" and "caches (bufs s j) n"
  shows "i = j"
  using assms unfolding bc_inv_def by blast

lemma bc_inv_valid:
  assumes "bc_inv s" and "i < NBUF" and "b_valid (bufs s i)"
  shows "caches (bufs s i) (b_blockno (bufs s i))" and "b_blockno (bufs s i) < disksize s"
    and "\<not> b_busy (bufs s i) \<Longrightarrow> \<not> b_dirty (bufs s i) \<Longrightarrow>
      b_data (bufs s i) = disk s (b_blockno (bufs s i))"
  using assms unfolding bc_inv_def by blast+

lemma bc_inv_pinned:
  assumes "bc_inv s" and "i < NBUF" and "b_dirty (bufs s i) \<or> b_busy (bufs s i)"
  shows "b_valid (bufs s i)"
  using assms unfolding bc_inv_def by blast

lemma view_cached:
  assumes "bc_inv s" and "i < NBUF" and "caches (bufs s i) n" and "b_valid (bufs s i)"
  shows "view s n = b_data (bufs s i)"
proof -
  have "\<not> caches (bufs s j) n" if "j < i" for j
    using bc_inv_unique[OF assms(1) _ assms(2) _ assms(3), of j] that assms(2) by auto
  then have "find (\<lambda>i. caches (bufs s i) n \<and> b_valid (bufs s i)) [0..<NBUF] = Some i"
    using assms(2-4) by (simp add: find_upt_Some)
  then show ?thesis by (simp add: view_def)
qed

lemma view_uncached:
  "(\<And>i. i < NBUF \<Longrightarrow> caches (bufs s i) n \<Longrightarrow> \<not> b_valid (bufs s i)) \<Longrightarrow> view s n = disk s n"
  unfolding view_def by (subst find_upt_None[THEN iffD2]) auto

definition grab :: "uint \<Rightarrow> block \<Rightarrow> buf \<Rightarrow> buf" where
  "grab n d b = b\<lparr>b_busy := True, b_valid := True, b_dev := 1, b_blockno := n, b_data := d\<rparr>"

lemma bread_evict:
  assumes "bc_unlocked s" and "lru s xs" and "n < disksize s" and nc: "\<forall>j < NBUF. \<not> caches (bufs s j) n"
    and f: "find (\<lambda>i. \<not> b_busy (bufs s i) \<and> \<not> b_dirty (bufs s i)) (rev xs) = Some i"
  shows "i < NBUF" and "\<not> b_busy (bufs s i)" and "\<not> b_dirty (bufs s i)" and "view s n = disk s n"
    and "bread 1 n s = Ret i (s\<lparr>bufs := (bufs s)(i := grab n (disk s n) (bufs s i))\<rparr>)"
proof -
  define s1 where "s1 = s\<lparr>held := BcacheLock # held s\<rparr>"
  have xs1: "lru s1 xs" using assms(2) by (simp add: s1_def lru_def)
  have set: "set xs = {0..<NBUF}" using assms(2) by (simp add: lru_def)
  have "find (\<lambda>i. caches (bufs s i) n) xs = None" using nc set by (auto simp: find_None_iff)
  then have fwd: "walkk b_next (\<lambda>b. b_dev b = 1 \<and> b_blockno b = n) s1 = Ret None s1"
    using walk_fwd[OF xs1] by (simp add: s1_def caches_def)
  have bwd: "walkk b_prev (\<lambda>b. \<not> b_busy b \<and> \<not> b_dirty b) s1 = Ret (Some i) s1"
    using walk_bwd[OF xs1] f by (simp add: s1_def)
  show i: "i < NBUF" "\<not> b_busy (bufs s i)" "\<not> b_dirty (bufs s i)"
    using set find_SomeD[OF f] by auto
  show "view s n = disk s n" using nc by (intro view_uncached) auto
  have "bget 1 n s = bget_loop 1 n s1"
    using assms(1) by (simp add: bget_def kstep s1_def bc_unlocked_def)
  then have bg: "bget 1 n s = Ret i (s\<lparr>bufs := (bufs s)(i := (bufs s i)\<lparr>b_dev := 1, b_blockno := n,
      b_busy := True, b_valid := False, b_dirty := False\<rparr>)\<rparr>)"
    by (simp add: bget_loop_def fwd bwd kstep) (simp add: s1_def)
  have "(bufs s i)\<lparr>b_dev := 1, b_blockno := n, b_busy := True, b_dirty := False,
      b_data := disk s n, b_valid := True\<rparr> = grab n (disk s n) (bufs s i)"
    using i by (cases "bufs s i") (simp add: grab_def)
  then show "bread 1 n s = Ret i (s\<lparr>bufs := (bufs s)(i := grab n (disk s n) (bufs s i))\<rparr>)"
    using assms(3) by (simp add: bread_def bg iderw_def kstep)
qed

lemma bread_run:
  assumes "bc_inv s" and "bc_unlocked s" and "n < disksize s"
    and "\<And>i. i < NBUF \<Longrightarrow> caches (bufs s i) n \<Longrightarrow> \<not> b_busy (bufs s i)"
    and "\<exists>i < NBUF. caches (bufs s i) n \<or> \<not> b_busy (bufs s i) \<and> \<not> b_dirty (bufs s i)"
  shows "\<exists>i < NBUF. \<not> b_busy (bufs s i)
    \<and> (caches (bufs s i) n \<or> \<not> b_dirty (bufs s i) \<and> (\<forall>j < NBUF. \<not> caches (bufs s j) n))
    \<and> bread 1 n s = Ret i (s\<lparr>bufs := (bufs s)(i := grab n (view s n) (bufs s i))\<rparr>)"
proof -
  obtain xs where xs: "lru s xs" using assms(1) by (auto simp: bc_inv_def)
  define s1 where "s1 = s\<lparr>held := BcacheLock # held s\<rparr>"
  have xs1: "lru s1 xs" using xs by (simp add: s1_def lru_def)
  have fwd: "walkk b_next (\<lambda>b. b_dev b = 1 \<and> b_blockno b = n) s1
      = Ret (find (\<lambda>i. caches (bufs s i) n) xs) s1"
    using walk_fwd[OF xs1] by (simp add: s1_def caches_def)
  have set: "set xs = {0..<NBUF}" using xs by (simp add: lru_def)
  have g: "bget 1 n s = bget_loop 1 n s1"
    using assms(2) by (simp add: bget_def kstep s1_def bc_unlocked_def)
  show ?thesis
  proof (cases "find (\<lambda>i. caches (bufs s i) n) xs")
    case (Some i)
    then have i: "i < NBUF" "caches (bufs s i) n" using set by (auto simp: find_Some_iff)
    note nb = assms(4)[OF i]
    have bg: "bget 1 n s = Ret i (s\<lparr>bufs := (bufs s)(i := (bufs s i)\<lparr>b_busy := True\<rparr>)\<rparr>)"
      using nb by (simp add: g bget_loop_def fwd Some kstep) (simp add: s1_def)
    have "bread 1 n s = Ret i (s\<lparr>bufs := (bufs s)(i := grab n (view s n) (bufs s i))\<rparr>)"
    proof (cases "b_valid (bufs s i)")
      case True
      have "grab n (view s n) (bufs s i) = (bufs s i)\<lparr>b_busy := True\<rparr>"
        using i(2) True view_cached[OF assms(1) i True]
        by (cases "bufs s i") (simp add: grab_def caches_def)
      then show ?thesis using True by (simp add: bread_def bg kstep)
    next
      case False
      have v: "view s n = disk s n"
        using bc_inv_unique[OF assms(1) _ i(1) _ i(2)] False by (intro view_uncached) auto
      have nd: "\<not> b_dirty (bufs s i)" using False bc_inv_pinned[OF assms(1) i(1)] by blast
      have "(bufs s i)\<lparr>b_busy := True, b_data := disk s n, b_valid := True\<rparr>
          = grab n (view s n) (bufs s i)"
        using i(2) nd v by (cases "bufs s i") (simp add: grab_def caches_def)
      then show ?thesis
        using False nd i(2) assms(3) by (simp add: bread_def bg iderw_def kstep caches_def)
    qed
    then show ?thesis using i nb by blast
  next
    case None
    then have nc: "\<forall>j < NBUF. \<not> caches (bufs s j) n" using set by (auto simp: find_None_iff)
    then obtain j where "j < NBUF" "\<not> b_busy (bufs s j)" "\<not> b_dirty (bufs s j)"
      using assms(5) by blast
    then obtain i where f: "find (\<lambda>i. \<not> b_busy (bufs s i) \<and> \<not> b_dirty (bufs s i)) (rev xs) = Some i"
      using set by (cases "find (\<lambda>i. \<not> b_busy (bufs s i) \<and> \<not> b_dirty (bufs s i)) (rev xs)")
        (auto simp: find_None_iff)
    from bread_evict[OF assms(2) xs assms(3) nc f] show ?thesis using nc by auto
  qed
qed

lemma bwrite_run:
  assumes "b_busy (bufs s i)" and "caches (bufs s i) n" and "n < disksize s"
  shows "bwrite i s = Ret () (s\<lparr>disk := (disk s)(n := b_data (bufs s i)),
    dwrites := dwrites s @ [(n, b_data (bufs s i))],
    bufs := (bufs s)(i := (bufs s i)\<lparr>b_dirty := False, b_valid := True\<rparr>)\<rparr>)"
  using assms by (simp add: bwrite_def iderw_def kstep caches_def)

text \<open>A buffer without its list pointers.\<close>

definition core :: "buf \<Rightarrow> buf" where
  "core b = b\<lparr>b_prev := 0, b_next := 0\<rparr>"

lemma core_eq_iff:
  "core a = core b \<longleftrightarrow> b_busy a = b_busy b \<and> b_valid a = b_valid b \<and> b_dirty a = b_dirty b
     \<and> b_dev a = b_dev b \<and> b_blockno a = b_blockno b \<and> b_data a = b_data b"
  by (cases a; cases b) (auto simp: core_def)

text \<open>The pointer assignments of \<^verbatim>\<open>brelse\<close> on the array of buffers.\<close>

definition setn :: "nat \<Rightarrow> nat \<Rightarrow> (nat \<Rightarrow> buf) \<Rightarrow> nat \<Rightarrow> buf" where
  "setn i v f = f(i := (f i)\<lparr>b_next := v\<rparr>)"

definition setp :: "nat \<Rightarrow> nat \<Rightarrow> (nat \<Rightarrow> buf) \<Rightarrow> nat \<Rightarrow> buf" where
  "setp i v f = f(i := (f i)\<lparr>b_prev := v\<rparr>)"

lemma set_ptr_sel [simp]:
  "b_next (setn i v f j) = (if j = i then v else b_next (f j))"
  "b_prev (setn i v f j) = b_prev (f j)"
  "b_prev (setp i v f j) = (if j = i then v else b_prev (f j))"
  "b_next (setp i v f j) = b_next (f j)"
  "core (setn i v f j) = core (f j)" "core (setp i v f j) = core (f j)"
  by (simp_all add: setn_def setp_def core_def)

lemma updb_ptr:
  "updb i (b_next_update (\<lambda>_. v)) s = Ret () (s\<lparr>bufs := setn i v (bufs s)\<rparr>)"
  "updb i (b_prev_update (\<lambda>_. v)) s = Ret () (s\<lparr>bufs := setp i v (bufs s)\<rparr>)"
  by (simp_all add: updb_def kstep setn_def setp_def)

definition unlink_buf :: "nat \<Rightarrow> (nat \<Rightarrow> buf) \<Rightarrow> nat \<Rightarrow> buf" where
  "unlink_buf b f = (let g = setp (b_next (f b)) (b_prev (f b)) f in
     setn (b_prev (g b)) (b_next (g b)) g)"

definition link_buf :: "nat \<Rightarrow> (nat \<Rightarrow> buf) \<Rightarrow> nat \<Rightarrow> buf" where
  "link_buf b f = setn HEAD b (setp (b_next (f HEAD)) b (setp b HEAD (setn b (b_next (f HEAD)) f)))"

lemma brelse_run:
  assumes "b_busy (bufs s b)" and "bc_unlocked s" and "b \<noteq> HEAD"
  shows "brelse b s = Ret () (let f = link_buf b (unlink_buf b (bufs s)) in
     s\<lparr>bufs := f(b := (f b)\<lparr>b_busy := False\<rparr>), ptab := woken_tab (Some (ChanBuf b)) (ptab s)\<rparr>)"
proof -
  have u: "updb b (b_busy_update (\<lambda>_. False)) t
      = Ret () (t\<lparr>bufs := (bufs t)(b := (bufs t b)\<lparr>b_busy := False\<rparr>)\<rparr>)" for t :: "'a bc_st_scheme"
    by (simp add: kstep)
  show ?thesis
    using assms
    by (simp add: brelse_def bnd_run thn_run gets_run acq_run rel_run updb_ptr u bc_unlocked_def wakeup_run
        unlink_buf_def link_buf_def Let_def)
qed

lemma ring_self:
  assumes "ring nx pv (us @ b # vs)"
  shows "nx b \<noteq> b" and "pv b \<noteq> b"
proof -
  have *: "nx' b \<noteq> b" if "ring nx' pv' (us' @ b # vs')" for nx' pv' us' vs'
  proof -
    have "links nx' pv' ((HEAD # us') @ b # (vs' @ [HEAD]))" "b \<noteq> HEAD" "b \<notin> set vs'"
      using that by (auto simp: ring_def)
    then have "links nx' pv' (b # vs' @ [HEAD])" "b \<noteq> HEAD" "b \<notin> set vs'"
      using links_append[of nx' pv' "HEAD # us'" b "vs' @ [HEAD]"] by blast+
    then show ?thesis by (cases vs') auto
  qed
  show "nx b \<noteq> b" using *[OF assms] .
  show "pv b \<noteq> b" using *[of pv nx "rev vs" "rev us"] ring_rev[OF assms] by simp
qed

lemma relink_ring:
  assumes "ring (\<lambda>i. b_next (f i)) (\<lambda>i. b_prev (f i)) xs" and "b \<in> set xs"
  shows "ring (\<lambda>i. b_next (link_buf b (unlink_buf b f) i))
    (\<lambda>i. b_prev (link_buf b (unlink_buf b f) i)) (b # remove1 b xs)"
proof -
  let ?nx = "\<lambda>i. b_next (f i)" and ?pv = "\<lambda>i. b_prev (f i)"
  obtain us vs where xs: "xs = us @ b # vs" "b \<notin> set us" using split_list_first[OF assms(2)] by blast
  have d: "b \<noteq> HEAD" "b \<notin> set (us @ vs)" using assms(1) xs by (auto simp: ring_def)
  let ?nx1 = "?nx(?pv b := ?nx b)" and ?pv1 = "?pv(?nx b := ?pv b)"
  have r1: "ring ?nx1 ?pv1 (us @ vs)" using ring_remove[of ?nx ?pv us b vs] assms(1) xs by simp
  have self: "?nx b \<noteq> b" "?pv b \<noteq> b" using ring_self[of ?nx ?pv us b vs] assms(1) xs by auto
  have "(\<lambda>i. b_next (unlink_buf b f i)) = ?nx1" "(\<lambda>i. b_prev (unlink_buf b f i)) = ?pv1"
    using self by (auto simp: unlink_buf_def Let_def fun_eq_iff)
  with r1 have "ring (\<lambda>i. b_next (unlink_buf b f i)) (\<lambda>i. b_prev (unlink_buf b f i)) (us @ vs)"
    by simp
  from ring_insert[OF this d(2,1)]
  show ?thesis using d(1) xs by (simp add: link_buf_def fun_upd_def remove1_append cong: if_cong)
qed

lemma relink_core: "core (link_buf b (unlink_buf b f) i) = core (f i)"
  by (simp add: link_buf_def unlink_buf_def Let_def)

section \<open>Lemmas: what clients see\<close>

lemma lru_cong:
  "(\<And>i. b_next (bufs s' i) = b_next (bufs s i)) \<Longrightarrow> (\<And>i. b_prev (bufs s' i) = b_prev (bufs s i))
    \<Longrightarrow> lru s xs \<Longrightarrow> lru s' xs"
  by (simp add: lru_def)

lemma bc_invI:
  assumes "\<exists>xs. lru s xs"
    and "\<And>i j n. i < NBUF \<Longrightarrow> j < NBUF \<Longrightarrow> caches (bufs s i) n \<Longrightarrow> caches (bufs s j) n \<Longrightarrow> i = j"
    and "\<And>i. i < NBUF \<Longrightarrow> b_valid (bufs s i) \<Longrightarrow> caches (bufs s i) (b_blockno (bufs s i))
      \<and> b_blockno (bufs s i) < disksize s
      \<and> (b_busy (bufs s i) \<or> b_dirty (bufs s i) \<or> b_data (bufs s i) = disk s (b_blockno (bufs s i)))"
    and "\<And>i. i < NBUF \<Longrightarrow> b_dirty (bufs s i) \<or> b_busy (bufs s i) \<Longrightarrow> b_valid (bufs s i)"
  shows "bc_inv s"
  unfolding bc_inv_def using assms by blast

text \<open>
  Replacing one buffer by one with the same list pointers.
\<close>

lemma bc_inv_upd:
  assumes "bc_inv s" and "i < NBUF" and "bufs s' = (bufs s)(i := b)" and "disksize s' = disksize s"
    and "b_next b = b_next (bufs s i)" and "b_prev b = b_prev (bufs s i)"
    and "\<And>j n. j < NBUF \<Longrightarrow> j \<noteq> i \<Longrightarrow> caches b n \<Longrightarrow> \<not> caches (bufs s j) n"
    and "b_valid b" and "caches b (b_blockno b)" and "b_blockno b < disksize s"
    and "b_busy b \<or> b_dirty b \<or> b_data b = disk s' (b_blockno b)"
    and "\<And>n. n \<noteq> b_blockno b \<Longrightarrow> disk s' n = disk s n"
  shows "bc_inv s'"
proof (rule bc_invI)
  obtain xs where "lru s xs" using assms(1) by (auto simp: bc_inv_def)
  then have "lru s' xs" by (rule lru_cong[rotated 2]) (simp_all add: assms(3,5,6))
  then show "\<exists>xs. lru s' xs" ..
next
  fix j k n assume "j < NBUF" "k < NBUF" "caches (bufs s' j) n" "caches (bufs s' k) n"
  then show "j = k"
    using bc_inv_unique[OF assms(1), of j k n] assms(7)[of j n] assms(7)[of k n]
    by (auto simp: assms(3) split: if_splits)
next
  fix j assume j: "j < NBUF" "b_valid (bufs s' j)"
  show "caches (bufs s' j) (b_blockno (bufs s' j)) \<and> b_blockno (bufs s' j) < disksize s'
      \<and> (b_busy (bufs s' j) \<or> b_dirty (bufs s' j) \<or> b_data (bufs s' j) = disk s' (b_blockno (bufs s' j)))"
  proof (cases "j = i")
    case False
    then have v: "b_valid (bufs s j)" using j by (simp add: assms(3))
    have "b_blockno (bufs s j) \<noteq> b_blockno b"
      using assms(7)[OF j(1) False assms(9)] bc_inv_valid(1)[OF assms(1) j(1) v] by auto
    then show ?thesis
      using False bc_inv_valid[OF assms(1) j(1) v] by (auto simp: assms(3,4,12))
  qed (use assms in simp)
next
  fix j assume "j < NBUF" "b_dirty (bufs s' j) \<or> b_busy (bufs s' j)"
  then show "b_valid (bufs s' j)"
    using bc_inv_pinned[OF assms(1), of j] assms(8) by (auto simp: assms(3) split: if_splits)
qed

lemma view_upd:
  assumes "bc_inv s" and "bc_inv s'" and "i < NBUF" and "bufs s' = (bufs s)(i := b)"
    and "caches b n" and "b_valid b" and "\<And>m. m \<noteq> n \<Longrightarrow> disk s' m = disk s m"
    and "caches (bufs s i) n \<or> \<not> b_busy (bufs s i) \<and> \<not> b_dirty (bufs s i)"
  shows "view s' = (view s)(n := b_data b)"
proof
  fix m
  show "view s' m = ((view s)(n := b_data b)) m"
  proof (cases "m = n")
    case True
    then show ?thesis using view_cached[OF assms(2,3), of n] assms(4-6) by simp
  next
    case False
    then have nm: "\<not> caches b m" using assms(5) by (auto simp: caches_def)
    show ?thesis
    proof (cases "\<exists>j < NBUF. j \<noteq> i \<and> caches (bufs s j) m \<and> b_valid (bufs s j)")
      case True
      then obtain j where j: "j < NBUF" "j \<noteq> i" "caches (bufs s j) m" "b_valid (bufs s j)" by blast
      then have "view s' m = b_data (bufs s j)"
        using view_cached[OF assms(2) j(1), of m] by (simp add: assms(4))
      then show ?thesis using view_cached[OF assms(1) j(1,3,4)] False by simp
    next
      case none: False
      have "view s' m = disk s' m"
        using none nm by (intro view_uncached) (auto simp: assms(4))
      moreover have "view s m = disk s m"
      proof (cases "caches (bufs s i) m \<and> b_valid (bufs s i)")
        case True
        then have "\<not> b_busy (bufs s i)" "\<not> b_dirty (bufs s i)" "b_blockno (bufs s i) = m"
          using assms(8) False by (auto simp: caches_def)
        then show ?thesis
          using True view_cached[OF assms(1,3)] bc_inv_valid(3)[OF assms(1,3)] by auto
      next
        case False
        then show ?thesis using none by (intro view_uncached) auto
      qed
      ultimately show ?thesis using False assms(7) by simp
    qed
  qed
qed

definition bl_inv :: "'x bc_st_scheme \<Rightarrow> bool" where
  "bl_inv s \<longleftrightarrow> bc_inv s \<and> bc_unlocked s \<and> (\<forall>n. length (disk s n) = BSIZE)
     \<and> (\<forall>i < NBUF. b_valid (bufs s i) \<longrightarrow> length (b_data (bufs s i)) = BSIZE)"

text \<open>A client stores into the data of a buffer it holds, or pins it in the cache.\<close>

definition put_data :: "nat \<Rightarrow> block \<Rightarrow> 'x bc_st_scheme \<Rightarrow> 'x bc_st_scheme" where
  "put_data i d s = s\<lparr>bufs := (bufs s)(i := (bufs s i)\<lparr>b_data := d\<rparr>)\<rparr>"

definition pin_buf :: "nat \<Rightarrow> 'x bc_st_scheme \<Rightarrow> 'x bc_st_scheme" where
  "pin_buf i s = s\<lparr>bufs := (bufs s)(i := (bufs s i)\<lparr>b_dirty := True\<rparr>)\<rparr>"

definition rest_same :: "'x bc_st_scheme \<Rightarrow> 'x bc_st_scheme \<Rightarrow> bool" where
  "rest_same s s' \<longleftrightarrow>
     (\<exists>f p d w. s' = s\<lparr>bufs := f, ptab := p, disk := d, dwrites := w\<rparr>)"

definition buf_data :: "'x bc_st_scheme \<Rightarrow> nat \<Rightarrow> block" where
  "buf_data s i = b_data (bufs s i)"

lemma rest_sameI: "s' = s\<lparr>bufs := f, ptab := p, disk := d, dwrites := w\<rparr> \<Longrightarrow> rest_same s s'"
  unfolding rest_same_def by blast

lemma rest_same_refl [simp]: "rest_same s s"
  by (rule rest_sameI[where f = "bufs s" and p = "ptab s" and d = "disk s" and w = "dwrites s"]) simp

lemma rest_same_upd [simp]:
  "rest_same s (s\<lparr>bufs := f\<rparr>)" "rest_same s (s\<lparr>bufs := f, ptab := p\<rparr>)"
  "rest_same s (s\<lparr>disk := d, dwrites := w, bufs := f\<rparr>)"
  by (rule rest_sameI[where p = "ptab s" and d = "disk s" and w = "dwrites s"], simp)
    (rule rest_sameI[where d = "disk s" and w = "dwrites s"], simp,
     rule rest_sameI[where f = f and p = "ptab s" and d = d and w = w], simp)

lemma rest_same_trans: "rest_same s t \<Longrightarrow> rest_same t u \<Longrightarrow> rest_same s u"
  unfolding rest_same_def by (elim exE) (simp, blast)

lemma pinned_room:
  assumes "bc_inv s" and "card (dom (holds_buf s)) + card (dirty_blocks s) < NBUF"
  shows "\<exists>i < NBUF. \<not> b_busy (bufs s i) \<and> \<not> b_dirty (bufs s i)"
proof (rule ccontr)
  assume n: "\<not> ?thesis"
  let ?D = "{i. i < NBUF \<and> b_dirty (bufs s i)}"
  have dom: "dom (holds_buf s) = {i. i < NBUF \<and> b_busy (bufs s i)}"
    by (auto simp: holds_buf_def split: if_splits)
  have c: "caches (bufs s i) (b_blockno (bufs s i))" if "i \<in> ?D" for i
    using bc_inv_valid(1)[OF assms(1)] bc_inv_pinned[OF assms(1)] that by auto
  then have img: "(\<lambda>i. b_blockno (bufs s i)) ` ?D = dirty_blocks s"
    by (fastforce simp: dirty_blocks_def caches_def)
  have "inj_on (\<lambda>i. b_blockno (bufs s i)) ?D"
  proof (rule inj_onI)
    fix i j assume "i \<in> ?D" "j \<in> ?D" "b_blockno (bufs s i) = b_blockno (bufs s j)"
    then show "i = j" using c[of i] c[of j] bc_inv_unique[OF assms(1), of i j] by simp
  qed
  then have "card ?D = card (dirty_blocks s)" using card_image img by fastforce
  moreover have "{0..<NBUF} \<subseteq> dom (holds_buf s) \<union> ?D" using n dom by auto
  then have "card {0..<NBUF} \<le> card (dom (holds_buf s) \<union> ?D)" by (rule card_mono[rotated]) (simp add: dom)
  moreover have "card (dom (holds_buf s) \<union> ?D) \<le> card (dom (holds_buf s)) + card ?D" by (rule card_Un_le)
  ultimately show False using assms(2) by simp
qed

lemma hold_caches:
  assumes "bc_inv s" and "holds_buf s i = Some n"
  shows "i < NBUF" and "b_busy (bufs s i)" and "b_valid (bufs s i)" and "caches (bufs s i) n"
    and "n < disksize s" and "b_blockno (bufs s i) = n"
proof -
  show i: "i < NBUF" "b_busy (bufs s i)" "b_blockno (bufs s i) = n"
    using assms(2) by (auto simp: holds_buf_def split: if_splits)
  then show v: "b_valid (bufs s i)" using bc_inv_pinned[OF assms(1)] by blast
  show "caches (bufs s i) n" "n < disksize s"
    using bc_inv_valid[OF assms(1) i(1) v] i(3) by auto
qed

lemma dirty_upd:
  assumes "bc_inv s" and "i < NBUF" and "bufs s' = (bufs s)(i := b)" and "caches b n"
    and "caches (bufs s i) n \<or> \<not> b_dirty (bufs s i) \<and> (\<forall>j < NBUF. \<not> caches (bufs s j) n)"
  shows "dirty_blocks s' = (if b_dirty b then insert n (dirty_blocks s) else dirty_blocks s - {n})"
proof -
  have i: "caches (bufs s i) m \<Longrightarrow> b_dirty (bufs s i) \<Longrightarrow> m = n" for m
    using assms(4,5) by (auto simp: caches_def)
  have j: "\<not> caches (bufs s j) n" if "j < NBUF" "j \<noteq> i" for j
    using assms(5) bc_inv_unique[OF assms(1) that(1) assms(2)] that by blast
  have b: "caches b m \<longleftrightarrow> m = n" for m using assms(4) by (auto simp: caches_def)
  have "m \<in> dirty_blocks s' \<longleftrightarrow> (m = n \<and> b_dirty b) \<or> (m \<noteq> n \<and> m \<in> dirty_blocks s)" for m
  proof (cases "m = n")
    case True
    then show ?thesis using assms(2) b j by (auto simp: dirty_blocks_def assms(3))
  next
    case False
    then show ?thesis using i[of m] b[of m]
      by (fastforce simp: dirty_blocks_def assms(3) split: if_splits)
  qed
  then show ?thesis by auto
qed

lemma hold_upd:
  "i < NBUF \<Longrightarrow> bufs s' = (bufs s)(i := b) \<Longrightarrow>
     holds_buf s' = (holds_buf s)(i := (if b_busy b then Some (b_blockno b) else None))"
  by (auto simp: holds_buf_def fun_eq_iff)

lemma bread_law:
  assumes "bl_inv s" and "n < disksize s" and "n \<notin> ran (holds_buf s)"
    and "n \<in> dirty_blocks s \<or> card (dom (holds_buf s)) + card (dirty_blocks s) < NBUF"
  shows "runs (bread 1 n) s (\<lambda>i s'. bl_inv s' \<and> rest_same s s' \<and> holds_buf s i = None
    \<and> holds_buf s' = (holds_buf s)(i \<mapsto> n) \<and> view s' = view s
    \<and> dirty_blocks s' = dirty_blocks s \<and> disk s' = disk s \<and> dwrites s' = dwrites s)"
proof -
  have inv: "bc_inv s" "bc_unlocked s" using assms(1) by (auto simp: bl_inv_def)
  have nb: "\<not> b_busy (bufs s i)" if "i < NBUF" "caches (bufs s i) n" for i
    using assms(3) that ranI[of "holds_buf s" i n] by (auto simp: holds_buf_def caches_def)
  have "\<exists>i < NBUF. caches (bufs s i) n \<or> \<not> b_busy (bufs s i) \<and> \<not> b_dirty (bufs s i)"
    using assms(4) pinned_room[OF inv(1)] by (auto simp: dirty_blocks_def)
  from bread_run[OF inv assms(2) nb this] obtain i where i: "i < NBUF" "\<not> b_busy (bufs s i)"
      "caches (bufs s i) n \<or> \<not> b_dirty (bufs s i) \<and> (\<forall>j < NBUF. \<not> caches (bufs s j) n)"
      "bread 1 n s = Ret i (s\<lparr>bufs := (bufs s)(i := grab n (view s n) (bufs s i))\<rparr>)"
    by blast
  let ?b = "grab n (view s n) (bufs s i)" and ?s = "s\<lparr>bufs := (bufs s)(i := grab n (view s n) (bufs s i))\<rparr>"
  have b: "caches ?b m \<longleftrightarrow> m = n" "b_valid ?b" "b_busy ?b" "b_blockno ?b = n" "b_data ?b = view s n"
      "b_dirty ?b = b_dirty (bufs s i)" "b_next ?b = b_next (bufs s i)" "b_prev ?b = b_prev (bufs s i)" for m
    by (auto simp: grab_def caches_def)
  have nc: "\<not> caches (bufs s j) n" if "j < NBUF" "j \<noteq> i" for j
    using i(3) bc_inv_unique[OF inv(1) that(1) i(1)] that by blast
  have inv': "bc_inv ?s"
    by (rule bc_inv_upd[OF inv(1) i(1), where b = ?b]) (use b nc assms(2) in auto)
  have v: "view ?s = (view s)(n := b_data ?b)"
    by (rule view_upd[OF inv(1) inv' i(1), where b = ?b]) (use b i(2,3) in auto)
  have dn: "n \<in> dirty_blocks s \<longleftrightarrow> b_dirty (bufs s i)"
    using i(1,3) nc by (auto simp: dirty_blocks_def)
  have d: "dirty_blocks ?s = dirty_blocks s"
    using dirty_upd[OF inv(1) i(1), of ?s ?b n] i(3) b dn by (auto split: if_splits)
  have len: "length (view s n) = BSIZE"
    using assms(1) inv(1) by (auto simp: view_def bl_inv_def find_upt_Some split: option.split)
  have "bl_inv ?s" using assms(1) inv' len b by (auto simp: bl_inv_def bc_unlocked_def)
  moreover have "holds_buf ?s = (holds_buf s)(i \<mapsto> n)"
    using hold_upd[OF i(1), of ?s s ?b] b by simp
  moreover have "holds_buf s i = None" using i(2) by (simp add: holds_buf_def)
  ultimately show ?thesis using v d b by (simp add: runs_def i(4))
qed

lemma bwrite_law:
  assumes "bl_inv s" and "holds_buf s i = Some n"
  shows "runs (bwrite i) s (\<lambda>_ s'. bl_inv s' \<and> rest_same s s' \<and> holds_buf s' = holds_buf s
    \<and> view s' = view s \<and> dirty_blocks s' = dirty_blocks s - {n}
    \<and> disk s' = (disk s)(n := view s n) \<and> dwrites s' = dwrites s @ [(n, view s n)])"
proof -
  have inv: "bc_inv s" using assms(1) by (auto simp: bl_inv_def)
  note h = hold_caches[OF inv assms(2)]
  have vd: "view s n = b_data (bufs s i)" by (rule view_cached[OF inv h(1,4,3)])
  let ?b = "(bufs s i)\<lparr>b_dirty := False, b_valid := True\<rparr>"
  let ?s = "s\<lparr>disk := (disk s)(n := view s n), dwrites := dwrites s @ [(n, view s n)],
    bufs := (bufs s)(i := ?b)\<rparr>"
  have run: "bwrite i s = Ret () ?s" using bwrite_run[OF h(2,4,5)] by (simp add: vd)
  have b: "caches ?b m \<longleftrightarrow> m = n" for m using h(4) by (auto simp: caches_def)
  have nc: "\<not> caches (bufs s j) n" if "j < NBUF" "j \<noteq> i" for j
    using bc_inv_unique[OF inv that(1) h(1) _ h(4)] that by blast
  have inv': "bc_inv ?s"
    by (rule bc_inv_upd[OF inv h(1), where b = ?b]) (use b nc h in auto)
  have v: "view ?s = (view s)(n := b_data ?b)"
    by (rule view_upd[OF inv inv' h(1), where b = ?b]) (use b h(4) in auto)
  have d: "dirty_blocks ?s = dirty_blocks s - {n}"
    using dirty_upd[OF inv h(1), of ?s ?b n] h(4) b by simp
  have "length (view s n) = BSIZE" using assms(1) h(1,3) vd by (simp add: bl_inv_def)
  then have "bl_inv ?s" using assms(1) inv' h vd by (auto simp: bl_inv_def bc_unlocked_def)
  moreover have "holds_buf ?s = holds_buf s"
    using hold_upd[OF h(1), of ?s s ?b] assms(2) h by auto
  moreover have "view ?s = view s" using v vd by auto
  ultimately show ?thesis using d by (simp add: runs_def run)
qed

lemma bc_view_core:
  assumes "\<And>i. i < NBUF \<Longrightarrow> caches (bufs s' i) = caches (bufs s i)"
    and "\<And>i. i < NBUF \<Longrightarrow> b_valid (bufs s' i) = b_valid (bufs s i)"
    and "\<And>i. i < NBUF \<Longrightarrow> b_data (bufs s' i) = b_data (bufs s i)" and "disk s' = disk s"
  shows "view s' = view s"
proof
  fix n
  have e: "find (\<lambda>i. caches (bufs s' i) n \<and> b_valid (bufs s' i)) [0..<NBUF]
      = find (\<lambda>i. caches (bufs s i) n \<and> b_valid (bufs s i)) [0..<NBUF]"
    using assms(1,2) by (intro find_upt_cong) simp
  show "view s' n = view s n"
  proof (cases "find (\<lambda>i. caches (bufs s i) n \<and> b_valid (bufs s i)) [0..<NBUF]")
    case None
    then show ?thesis by (simp add: view_def e assms(4))
  next
    case (Some i)
    then have "i < NBUF" by (simp add: find_upt_Some)
    then show ?thesis using Some by (simp add: view_def e assms(3))
  qed
qed

lemma brelse_law:
  assumes "bl_inv s" and "holds_buf s i = Some n" and "n \<in> dirty_blocks s \<or> view s n = disk s n"
  shows "runs (brelse i) s (\<lambda>_ s'. bl_inv s' \<and> rest_same s s' \<and> holds_buf s' = (holds_buf s)(i := None)
    \<and> view s' = view s \<and> dirty_blocks s' = dirty_blocks s
    \<and> disk s' = disk s \<and> dwrites s' = dwrites s)"
proof -
  have inv: "bc_inv s" "bc_unlocked s" using assms(1) by (auto simp: bl_inv_def)
  note h = hold_caches[OF inv(1) assms(2)]
  define f where "f = link_buf i (unlink_buf i (bufs s))"
  define t where "t = s\<lparr>bufs := f(i := (f i)\<lparr>b_busy := False\<rparr>),
    ptab := woken_tab (Some (ChanBuf i)) (ptab s)\<rparr>"
  have run: "brelse i s = Ret () t"
    using brelse_run[OF h(2) inv(2)] h(1) by (simp add: Let_def f_def t_def)
  have f: "core (f j) = core (bufs s j)" for j by (simp add: f_def relink_core)
  have c: "b_valid (bufs t j) = b_valid (bufs s j)" "b_dirty (bufs t j) = b_dirty (bufs s j)"
      "caches (bufs t j) = caches (bufs s j)" "b_blockno (bufs t j) = b_blockno (bufs s j)"
      "b_data (bufs t j) = b_data (bufs s j)"
      "b_busy (bufs t j) = (b_busy (bufs s j) \<and> j \<noteq> i)" for j
    using f[of j] by (auto simp: t_def core_eq_iff caches_def fun_eq_iff)
  have dt: "disk t = disk s" "dwrites t = dwrites s" "held t = held s" "disksize t = disksize s"
    by (simp_all add: t_def)
  obtain xs where xs: "lru s xs" using inv(1) by (auto simp: bc_inv_def)
  have "ring (\<lambda>j. b_next (f j)) (\<lambda>j. b_prev (f j)) (i # remove1 i xs)"
    unfolding f_def using xs h(1) by (intro relink_ring) (auto simp: lru_def)
  moreover have "b_next (bufs t j) = b_next (f j)" "b_prev (bufs t j) = b_prev (f j)" for j
    by (simp_all add: t_def)
  moreover have "set (i # remove1 i xs) = {0..<NBUF}"
  proof -
    have "distinct xs" "set xs = {0..<NBUF}" "i \<in> set xs" using xs h(1) by (auto simp: lru_def ring_def)
    then show ?thesis using insert_Diff[of i "set xs"] by simp
  qed
  ultimately have "lru t (i # remove1 i xs)" by (simp add: lru_def)
  then have inv': "bc_inv t"
  proof (intro bc_invI exI[of _ "i # remove1 i xs"])
    fix j assume j: "j < NBUF" "b_valid (bufs t j)"
    have "b_busy (bufs t j) \<or> b_dirty (bufs t j) \<or> b_data (bufs t j) = disk t (b_blockno (bufs t j))"
    proof (cases "j = i")
      case True
      have "b_dirty (bufs s i)" if "n \<in> dirty_blocks s"
        using that bc_inv_unique[OF inv(1) _ h(1) _ h(4)] by (auto simp: dirty_blocks_def)
      then show ?thesis
        using True assms(3) view_cached[OF inv(1) h(1,4,3)] h(6) by (auto simp: c dt)
    next
      case False
      then show ?thesis using bc_inv_valid(3)[OF inv(1) j(1)] j(2) by (auto simp: c dt)
    qed
    then show "caches (bufs t j) (b_blockno (bufs t j)) \<and> b_blockno (bufs t j) < disksize t
      \<and> (b_busy (bufs t j) \<or> b_dirty (bufs t j) \<or> b_data (bufs t j) = disk t (b_blockno (bufs t j)))"
      using bc_inv_valid(1,2)[OF inv(1) j(1)] j(2) by (auto simp: c dt)
  next
    fix j k m assume "j < NBUF" "k < NBUF" "caches (bufs t j) m" "caches (bufs t k) m"
    then show "j = k" using bc_inv_unique[OF inv(1), of j k m] by (simp add: c)
  next
    fix j assume "j < NBUF" "b_dirty (bufs t j) \<or> b_busy (bufs t j)"
    then show "b_valid (bufs t j)" using bc_inv_pinned[OF inv(1), of j] by (auto simp: c)
  qed
  have "view t = view s" by (rule bc_view_core) (simp_all add: c dt)
  moreover have "dirty_blocks t = dirty_blocks s" by (simp add: dirty_blocks_def c)
  moreover have "holds_buf t = (holds_buf s)(i := None)" by (auto simp: holds_buf_def c fun_eq_iff)
  moreover have "bl_inv t" using assms(1) inv' by (simp add: bl_inv_def c dt bc_unlocked_def)
  moreover have "rest_same s t" by (simp add: t_def)
  ultimately show ?thesis by (simp add: runs_def run dt)
qed

lemma put_data_law:
  assumes "bl_inv s" and "holds_buf s i = Some n" and "length d = BSIZE"
  shows "bl_inv (put_data i d s)" and "view (put_data i d s) = (view s)(n := d)"
    and "holds_buf (put_data i d s) = holds_buf s" and "rest_same s (put_data i d s)"
    and "dirty_blocks (put_data i d s) = dirty_blocks s" and "disk (put_data i d s) = disk s"
    and "dwrites (put_data i d s) = dwrites s"
proof -
  have inv: "bc_inv s" using assms(1) by (auto simp: bl_inv_def)
  note h = hold_caches[OF inv assms(2)]
  let ?b = "(bufs s i)\<lparr>b_data := d\<rparr>" and ?s = "put_data i d s"
  have e: "bufs ?s = (bufs s)(i := ?b)" "disk ?s = disk s" "disksize ?s = disksize s"
    by (simp_all add: put_data_def)
  have b: "caches ?b m \<longleftrightarrow> m = n" for m using h(4) by (auto simp: caches_def)
  have nc: "\<not> caches (bufs s j) n" if "j < NBUF" "j \<noteq> i" for j
    using bc_inv_unique[OF inv that(1) h(1) _ h(4)] that by blast
  have inv': "bc_inv ?s"
    by (rule bc_inv_upd[OF inv h(1) e(1)]) (use b nc h e in auto)
  have "view ?s = (view s)(n := b_data ?b)"
    by (rule view_upd[OF inv inv' h(1) e(1)]) (use b h e in auto)
  then show "view ?s = (view s)(n := d)" by simp
  have "dirty_blocks ?s = (if b_dirty ?b then insert n (dirty_blocks s) else dirty_blocks s - {n})"
    by (rule dirty_upd[OF inv h(1) e(1)]) (use b h(4) in auto)
  then show "dirty_blocks ?s = dirty_blocks s"
    using h(1,4) nc by (auto simp: dirty_blocks_def split: if_splits)
  show "holds_buf ?s = holds_buf s" using hold_upd[OF h(1) e(1)] h assms(2) by auto
  show "bl_inv ?s" using assms inv' by (auto simp: bl_inv_def bc_unlocked_def put_data_def)
qed (simp_all add: put_data_def)

lemma pin_buf_law:
  assumes "bl_inv s" and "holds_buf s i = Some n"
  shows "bl_inv (pin_buf i s)" and "view (pin_buf i s) = view s"
    and "holds_buf (pin_buf i s) = holds_buf s" and "rest_same s (pin_buf i s)"
    and "dirty_blocks (pin_buf i s) = insert n (dirty_blocks s)" and "disk (pin_buf i s) = disk s"
    and "dwrites (pin_buf i s) = dwrites s"
proof -
  have inv: "bc_inv s" using assms(1) by (auto simp: bl_inv_def)
  note h = hold_caches[OF inv assms(2)]
  let ?b = "(bufs s i)\<lparr>b_dirty := True\<rparr>" and ?s = "pin_buf i s"
  have e: "bufs ?s = (bufs s)(i := ?b)" "disk ?s = disk s" "disksize ?s = disksize s"
    by (simp_all add: pin_buf_def)
  have b: "caches ?b m \<longleftrightarrow> m = n" for m using h(4) by (auto simp: caches_def)
  have nc: "\<not> caches (bufs s j) n" if "j < NBUF" "j \<noteq> i" for j
    using bc_inv_unique[OF inv that(1) h(1) _ h(4)] that by blast
  have inv': "bc_inv ?s"
    by (rule bc_inv_upd[OF inv h(1) e(1)]) (use b nc h e in auto)
  have "view ?s = (view s)(n := b_data ?b)"
    by (rule view_upd[OF inv inv' h(1) e(1)]) (use b h e in auto)
  then show "view ?s = view s" using view_cached[OF inv h(1,4,3)] by auto
  have "dirty_blocks ?s = (if b_dirty ?b then insert n (dirty_blocks s) else dirty_blocks s - {n})"
    by (rule dirty_upd[OF inv h(1) e(1)]) (use b h(4) in auto)
  then show "dirty_blocks ?s = insert n (dirty_blocks s)" by simp
  show "holds_buf ?s = holds_buf s" using hold_upd[OF h(1) e(1)] h assms(2) by auto
  show "bl_inv ?s" using assms inv' by (auto simp: bl_inv_def bc_unlocked_def pin_buf_def)
qed (simp_all add: pin_buf_def)

lemma buf_data_law:
  assumes "bl_inv s" and "holds_buf s i = Some n"
  shows "buf_data s i = view s n"
  using assms view_cached[of s i n] hold_caches[of s i n] by (simp add: bl_inv_def buf_data_def)

lemma view_clean_law:
  assumes "bl_inv s" and "n \<notin> dirty_blocks s" and "n \<notin> ran (holds_buf s)"
  shows "view s n = disk s n"
proof (cases "\<exists>i < NBUF. caches (bufs s i) n \<and> b_valid (bufs s i)")
  case True
  then obtain i where i: "i < NBUF" "caches (bufs s i) n" "b_valid (bufs s i)" by blast
  have inv: "bc_inv s" using assms(1) by (simp add: bl_inv_def)
  have "\<not> b_dirty (bufs s i)" using assms(2) i by (auto simp: dirty_blocks_def)
  moreover have "\<not> b_busy (bufs s i)"
    using assms(3) i ranI[of "holds_buf s" i n] by (auto simp: holds_buf_def caches_def)
  ultimately show ?thesis
    using view_cached[OF inv i] bc_inv_valid(3)[OF inv i(1,3)] i(2) by (simp add: caches_def)
next
  case False
  then show ?thesis by (intro view_uncached) blast
qed

lemma view_length: "bl_inv s \<Longrightarrow> length (view s n) = BSIZE"
  by (auto simp: view_def bl_inv_def find_upt_Some split: option.split)

lemma dirty_finite: "finite (dirty_blocks s)"
proof -
  have "dirty_blocks s \<subseteq> (\<lambda>i. b_blockno (bufs s i)) ` {0..<NBUF}"
    by (auto simp: dirty_blocks_def caches_def)
  then show ?thesis by (rule finite_subset) simp
qed

section \<open>The interface of the block layer\<close>

text \<open>
  What the log and the file system rely on.  \<open>vw\<close> is the contents of a block as
  clients see it, \<open>dk\<close> its contents on the disk, \<open>hist\<close> the writes the disk has
  received, \<open>hld\<close> the blocks held and \<open>dty\<close> the blocks pinned in the cache.
\<close>

locale block_layer =
  fixes rdb :: "uint \<Rightarrow> ('s, nat) kernel"
    and wrb rlb :: "nat \<Rightarrow> ('s, unit) kernel"
    and put :: "nat \<Rightarrow> block \<Rightarrow> 's \<Rightarrow> 's"
    and dat :: "'s \<Rightarrow> nat \<Rightarrow> block"
    and vw dk :: "'s \<Rightarrow> uint \<Rightarrow> block"
    and dty :: "'s \<Rightarrow> uint set"
    and hld :: "'s \<Rightarrow> nat \<Rightarrow> uint option"
    and hist :: "'s \<Rightarrow> (uint \<times> block) list"
    and inv :: "'s \<Rightarrow> bool"
    and size :: "'s \<Rightarrow> uint"
    and same :: "'s \<Rightarrow> 's \<Rightarrow> bool"
  assumes read_law: "inv s \<Longrightarrow> n < size s \<Longrightarrow> n \<notin> ran (hld s) \<Longrightarrow>
      n \<in> dty s \<or> card (dom (hld s)) + card (dty s) < NBUF \<Longrightarrow>
      runs (rdb n) s (\<lambda>i s'. inv s' \<and> same s s' \<and> hld s i = None \<and> hld s' = (hld s)(i \<mapsto> n)
        \<and> vw s' = vw s \<and> dty s' = dty s \<and> dk s' = dk s \<and> hist s' = hist s)"
    and write_law: "inv s \<Longrightarrow> hld s i = Some n \<Longrightarrow>
      runs (wrb i) s (\<lambda>_ s'. inv s' \<and> same s s' \<and> hld s' = hld s \<and> vw s' = vw s
        \<and> dty s' = dty s - {n} \<and> dk s' = (dk s)(n := vw s n) \<and> hist s' = hist s @ [(n, vw s n)])"
    and release_law: "inv s \<Longrightarrow> hld s i = Some n \<Longrightarrow> n \<in> dty s \<or> vw s n = dk s n \<Longrightarrow>
      runs (rlb i) s (\<lambda>_ s'. inv s' \<and> same s s' \<and> hld s' = (hld s)(i := None) \<and> vw s' = vw s
        \<and> dty s' = dty s \<and> dk s' = dk s \<and> hist s' = hist s)"
    and put_law: "inv s \<Longrightarrow> hld s i = Some n \<Longrightarrow> length d = BSIZE \<Longrightarrow>
      inv (put i d s) \<and> same s (put i d s) \<and> hld (put i d s) = hld s
        \<and> vw (put i d s) = (vw s)(n := d) \<and> dty (put i d s) = dty s
        \<and> dk (put i d s) = dk s \<and> hist (put i d s) = hist s"
    and dat_law: "inv s \<Longrightarrow> hld s i = Some n \<Longrightarrow> dat s i = vw s n"
    and clean_law: "inv s \<Longrightarrow> n \<notin> dty s \<Longrightarrow> n \<notin> ran (hld s) \<Longrightarrow> vw s n = dk s n"
    and length_law: "inv s \<Longrightarrow> length (vw s n) = BSIZE"
    and same_trans: "same s t \<Longrightarrow> same t u \<Longrightarrow> same s u"
    and same_size: "same s t \<Longrightarrow> size t = size s"
begin

text \<open>The relation between the states before and after one block is copied to another.\<close>

definition copied :: "uint \<Rightarrow> uint \<Rightarrow> 's \<Rightarrow> 's \<Rightarrow> bool" where
  "copied a b s s' \<longleftrightarrow> inv s' \<and> same s s' \<and> hld s' = hld s \<and> vw s' = (vw s)(b := vw s a)
     \<and> dty s' = dty s - {b} \<and> dk s' = (dk s)(b := vw s a) \<and> hist s' = hist s @ [(b, vw s a)]"

text \<open>Both blocks are held, \<open>i\<close> the source and \<open>j\<close> the destination.\<close>

lemma copy_held:
  assumes "inv t" and "hld t i = Some a" and "hld t j = Some b" and "a \<noteq> b" and "i \<noteq> j"
    and "a \<in> dty t \<or> vw t a = dk t a"
  shows "runs (thn (modify (\<lambda>s. put j (dat s i) s)) (thn (wrb j) (thn (rlb i) (rlb j)))) t
    (\<lambda>_ s'. inv s' \<and> same t s' \<and> hld s' = (hld t)(i := None, j := None) \<and> vw s' = (vw t)(b := vw t a)
      \<and> dty s' = dty t - {b} \<and> dk s' = (dk t)(b := vw t a) \<and> hist s' = hist t @ [(b, vw t a)])"
proof -
  let ?t1 = "put j (dat t i) t"
  have t1: "inv ?t1 \<and> same t ?t1 \<and> hld ?t1 = hld t \<and> vw ?t1 = (vw t)(b := vw t a)
      \<and> dty ?t1 = dty t \<and> dk ?t1 = dk t \<and> hist ?t1 = hist t"
    using put_law[OF assms(1,3)] dat_law[OF assms(1,2)] length_law[OF assms(1)] by simp
  have "runs (wrb j) ?t1 (\<lambda>_ t2. inv t2 \<and> same t t2 \<and> hld t2 = hld t \<and> vw t2 = (vw t)(b := vw t a)
      \<and> dty t2 = dty t - {b} \<and> dk t2 = (dk t)(b := vw t a) \<and> hist t2 = hist t @ [(b, vw t a)])"
    by (rule runs_mono[OF write_law[of ?t1 j b]]) (use t1 assms(3) same_trans in auto)
  then have "runs (wrb j) ?t1 (\<lambda>_ t2. runs (rlb i) t2 (\<lambda>_ t3. runs (rlb j) t3
      (\<lambda>_ s'. inv s' \<and> same t s' \<and> hld s' = (hld t)(i := None, j := None) \<and> vw s' = (vw t)(b := vw t a)
      \<and> dty s' = dty t - {b} \<and> dk s' = (dk t)(b := vw t a) \<and> hist s' = hist t @ [(b, vw t a)])))"
  proof (rule runs_mono, elim conjE)
    fix t2 assume t2: "inv t2" "same t t2" "hld t2 = hld t" "vw t2 = (vw t)(b := vw t a)"
      "dty t2 = dty t - {b}" "dk t2 = (dk t)(b := vw t a)" "hist t2 = hist t @ [(b, vw t a)]"
    have "runs (rlb i) t2 (\<lambda>_ t3. inv t3 \<and> same t t3 \<and> hld t3 = (hld t)(i := None)
        \<and> vw t3 = (vw t)(b := vw t a) \<and> dty t3 = dty t - {b} \<and> dk t3 = (dk t)(b := vw t a)
        \<and> hist t3 = hist t @ [(b, vw t a)])"
      by (rule runs_mono[OF release_law[of t2 i a]])
        (use t2 assms same_trans in auto)
    then show "runs (rlb i) t2 (\<lambda>_ t3. runs (rlb j) t3
      (\<lambda>_ s'. inv s' \<and> same t s' \<and> hld s' = (hld t)(i := None, j := None) \<and> vw s' = (vw t)(b := vw t a)
      \<and> dty s' = dty t - {b} \<and> dk s' = (dk t)(b := vw t a) \<and> hist s' = hist t @ [(b, vw t a)]))"
    proof (rule runs_mono, elim conjE)
      fix t3 assume t3: "inv t3" "same t t3" "hld t3 = (hld t)(i := None)"
        "vw t3 = (vw t)(b := vw t a)" "dty t3 = dty t - {b}" "dk t3 = (dk t)(b := vw t a)"
        "hist t3 = hist t @ [(b, vw t a)]"
      show "runs (rlb j) t3
        (\<lambda>_ s'. inv s' \<and> same t s' \<and> hld s' = (hld t)(i := None, j := None) \<and> vw s' = (vw t)(b := vw t a)
        \<and> dty s' = dty t - {b} \<and> dk s' = (dk t)(b := vw t a) \<and> hist s' = hist t @ [(b, vw t a)])"
        by (rule runs_mono[OF release_law[of t3 j b]])
          (use t3 assms same_trans in \<open>auto simp: fun_eq_iff\<close>)
    qed
  qed
  then show ?thesis by simp
qed

lemma read_two:
  assumes "inv s" and "hld s = Map.empty" and "a < size s" and "b < size s" and "a \<noteq> b"
    and "card (dty s) < NBUF" and "b \<in> dty s \<or> Suc (card (dty s)) < NBUF"
    and "\<And>i j t. inv t \<Longrightarrow> same s t \<Longrightarrow> i \<noteq> j \<Longrightarrow> hld t = [i \<mapsto> a, j \<mapsto> b] \<Longrightarrow> vw t = vw s
      \<Longrightarrow> dty t = dty s \<Longrightarrow> dk t = dk s \<Longrightarrow> hist t = hist s \<Longrightarrow> runs (f i j) t Q"
  shows "runs (bnd (rdb a) (\<lambda>i. bnd (rdb b) (\<lambda>j. f i j))) s Q"
proof -
  have "runs (rdb a) s (\<lambda>i t. inv t \<and> same s t \<and> hld t = [i \<mapsto> a] \<and> vw t = vw s
      \<and> dty t = dty s \<and> dk t = dk s \<and> hist t = hist s)"
    by (rule runs_mono[OF read_law]) (use assms in auto)
  then have "runs (rdb a) s (\<lambda>i t. runs (bnd (rdb b) (\<lambda>j. f i j)) t Q)"
  proof (rule runs_mono, elim conjE)
    fix i t assume t: "inv t" "same s t" "hld t = [i \<mapsto> a]" "vw t = vw s" "dty t = dty s"
      "dk t = dk s" "hist t = hist s"
    have "runs (rdb b) t (\<lambda>j u. runs (f i j) u Q)"
    proof (rule runs_mono[OF read_law[of t b]], goal_cases)
      case (5 j u)
      then show ?case using t same_trans[of s t u] by (intro assms(8)) (auto split: if_splits)
    qed (use t assms same_size[OF t(2)] in auto)
    then show "runs (bnd (rdb b) (\<lambda>j. f i j)) t Q" by simp
  qed
  then show ?thesis by simp
qed

text \<open>Reading the source first, as in \<^verbatim>\<open>install_trans\<close>, or the destination first, as in
  \<^verbatim>\<open>write_log\<close>.\<close>

lemma copy_src_first:
  assumes "inv s" and "hld s = Map.empty" and "a < size s" and "b < size s" and "a \<noteq> b"
    and "card (dty s) < NBUF" and "b \<in> dty s \<or> Suc (card (dty s)) < NBUF"
  shows "runs (bnd (rdb a) (\<lambda>i. bnd (rdb b) (\<lambda>j.
    thn (modify (\<lambda>s. put j (dat s i) s)) (thn (wrb j) (thn (rlb i) (rlb j)))))) s (\<lambda>_. copied a b s)"
proof (rule read_two[OF assms])
  fix i j t assume t: "inv t" "same s t" "i \<noteq> j" "hld t = [i \<mapsto> a, j \<mapsto> b]" "vw t = vw s"
      "dty t = dty s" "dk t = dk s" "hist t = hist s"
  have "a \<in> dty t \<or> vw t a = dk t a" using clean_law[OF assms(1), of a] assms(2) t by auto
  then show "runs (thn (modify (\<lambda>s. put j (dat s i) s)) (thn (wrb j) (thn (rlb i) (rlb j)))) t (\<lambda>_. copied a b s)"
    using runs_mono[OF copy_held[of t i a j b]] t assms(2,5) same_trans[of s t]
    by (auto simp: copied_def fun_eq_iff)
qed

lemma copy_dst_first:
  assumes "inv s" and "hld s = Map.empty" and "a < size s" and "b < size s" and "a \<noteq> b"
    and "card (dty s) < NBUF" and "a \<in> dty s \<or> Suc (card (dty s)) < NBUF"
  shows "runs (bnd (rdb b) (\<lambda>j. bnd (rdb a) (\<lambda>i.
    thn (modify (\<lambda>s. put j (dat s i) s)) (thn (wrb j) (thn (rlb i) (rlb j)))))) s (\<lambda>_. copied a b s)"
proof (rule read_two[OF assms(1,2,4,3) assms(5)[symmetric] assms(6,7)])
  fix j i t assume t: "inv t" "same s t" "j \<noteq> i" "hld t = [j \<mapsto> b, i \<mapsto> a]" "vw t = vw s"
      "dty t = dty s" "dk t = dk s" "hist t = hist s"
  have "a \<in> dty t \<or> vw t a = dk t a" using clean_law[OF assms(1), of a] assms(2) t by auto
  then show "runs (thn (modify (\<lambda>s. put j (dat s i) s)) (thn (wrb j) (thn (rlb i) (rlb j)))) t (\<lambda>_. copied a b s)"
    using runs_mono[OF copy_held[of t i a j b]] t assms(2,5) same_trans[of s t]
    by (auto simp: copied_def fun_eq_iff)
qed

end

lemma rest_same_sel:
  "rest_same s t \<Longrightarrow> disksize t = disksize s" "rest_same s t \<Longrightarrow> held t = held s"
  "rest_same s t \<Longrightarrow> bc_st.more t = bc_st.more s"
  by (auto simp: rest_same_def)

interpretation bl: block_layer "bread 1" bwrite brelse put_data buf_data view disk dirty_blocks
  holds_buf dwrites bl_inv disksize rest_same
  by unfold_locales
    (auto simp: put_data_law buf_data_law view_clean_law view_length rest_same_sel
      intro: bread_law bwrite_law brelse_law rest_same_trans)

section \<open>Initialisation of the cache\<close>

lemma core_caches: "core a = core b \<Longrightarrow> caches a = caches b"
  by (auto simp: core_eq_iff caches_def fun_eq_iff)

text \<open>One iteration of \<^verbatim>\<open>binit\<close>, on the array of buffers.\<close>

definition init_buf :: "nat \<Rightarrow> (nat \<Rightarrow> buf) \<Rightarrow> nat \<Rightarrow> buf" where
  "init_buf b f = (let g = setp b HEAD (setn b (b_next (f HEAD)) f) in
     setn HEAD b (setp (b_next (f HEAD)) b (g(b := (g b)\<lparr>b_dev := -1\<rparr>))))"

lemma init_buf_sel:
  assumes "b \<noteq> HEAD"
  shows "b_next (init_buf b f i) = (if i = HEAD then b else if i = b then b_next (f HEAD) else b_next (f i))"
    and "b_prev (init_buf b f i) = (if i = b_next (f HEAD) then b else if i = b then HEAD else b_prev (f i))"
    and "core (init_buf b f i) = (if i = b then (core (f i))\<lparr>b_dev := -1\<rparr> else core (f i))"
  using assms by (auto simp: init_buf_def Let_def core_def setn_def setp_def)

lemma updb_dev: "updb b (b_dev_update (\<lambda>_. v)) s
    = Ret () (s\<lparr>bufs := (bufs s)(b := (bufs s b)\<lparr>b_dev := v\<rparr>)\<rparr>)"
  by (simp add: kstep)

lemma initlk_free: "l \<notin> set (held s) \<Longrightarrow> initlk l s = Ret () s"
  by (simp add: initlk_def kstep)

lemma binit_body:
  "b \<noteq> HEAD \<Longrightarrow> bnd (gets (\<lambda>s. b_next (bufs s HEAD))) (\<lambda>n.
     thn (updb b (b_next_update (\<lambda>_. n))) (
     thn (updb b (b_prev_update (\<lambda>_. HEAD))) (
     thn (updb b (b_dev_update (\<lambda>_. -1))) (
     thn (updb n (b_prev_update (\<lambda>_. b))) (
     updb HEAD (b_next_update (\<lambda>_. b))))))) s = Ret () (s\<lparr>bufs := init_buf b (bufs s)\<rparr>)"
  by (simp add: bnd_run thn_run gets_run updb_ptr updb_dev init_buf_def Let_def)

lemma binit_loop:
  assumes "b_next (bufs s HEAD) = HEAD" and "b_prev (bufs s HEAD) = HEAD" and "k \<le> NBUF"
  shows "\<exists>f. forM [0..<k] (\<lambda>b.
       bnd (gets (\<lambda>s. b_next (bufs s HEAD))) (\<lambda>n.
       thn (updb b (b_next_update (\<lambda>_. n))) (
       thn (updb b (b_prev_update (\<lambda>_. HEAD))) (
       thn (updb b (b_dev_update (\<lambda>_. -1))) (
       thn (updb n (b_prev_update (\<lambda>_. b))) (
       updb HEAD (b_next_update (\<lambda>_. b)))))))) s = Ret () (s\<lparr>bufs := f\<rparr>)
     \<and> ring (\<lambda>i. b_next (f i)) (\<lambda>i. b_prev (f i)) (rev [0..<k])
     \<and> (\<forall>i. core (f i) = (if i < k then (core (bufs s i))\<lparr>b_dev := -1\<rparr> else core (bufs s i)))"
    (is "\<exists>f. forM _ ?g s = _ \<and> _")
proof -
  define I where "I = (\<lambda>k s'. \<exists>f. s' = s\<lparr>bufs := f\<rparr>
     \<and> ring (\<lambda>i. b_next (f i)) (\<lambda>i. b_prev (f i)) (rev [0..<k])
     \<and> (\<forall>i. core (f i) = (if i < k then (core (bufs s i))\<lparr>b_dev := -1\<rparr> else core (bufs s i))))"
  have "runs (forM [0..<k] ?g) s (\<lambda>_. I k)"
  proof (rule runs_forM_upt)
    have "ring (\<lambda>i. b_next (bufs s i)) (\<lambda>i. b_prev (bufs s i)) (rev [0..<0])"
      using assms by (simp add: ring_def)
    then show "I 0 s" unfolding I_def by (intro exI[of _ "bufs s"]) simp
  next
    fix j t assume j: "0 \<le> j" "j < k" and "I j t"
    then obtain f where f: "t = s\<lparr>bufs := f\<rparr>" "ring (\<lambda>i. b_next (f i)) (\<lambda>i. b_prev (f i)) (rev [0..<j])"
      "\<forall>i. core (f i) = (if i < j then (core (bufs s i))\<lparr>b_dev := -1\<rparr> else core (bufs s i))"
      by (auto simp: I_def)
    have h: "j \<noteq> HEAD" using j assms(3) by simp
    have "ring (\<lambda>i. b_next (init_buf j f i)) (\<lambda>i. b_prev (init_buf j f i)) (j # rev [0..<j])"
      using ring_insert[OF f(2) _ h] h by (simp add: init_buf_sel fun_upd_def cong: if_cong)
    moreover have "core (init_buf j f i) = (if i < Suc j then (core (bufs s i))\<lparr>b_dev := -1\<rparr>
        else core (bufs s i))" for i
      using f(3) by (auto simp: init_buf_sel[OF h] less_Suc_eq)
    ultimately have "I (Suc j) (t\<lparr>bufs := init_buf j (bufs t)\<rparr>)"
      unfolding I_def by (intro exI[of _ "init_buf j f"]) (simp add: f(1))
    then show "runs (?g j) t (\<lambda>_. I (Suc j))" by (simp only: runs_Ret[OF binit_body[OF h]])
  qed simp
  then show ?thesis by (auto simp: runs_iff I_def)
qed

text \<open>The static array the cache starts from: no buffer is in use.\<close>

definition idle_bufs :: "'x bc_st_scheme \<Rightarrow> bool" where
  "idle_bufs s \<longleftrightarrow> (\<forall>i < NBUF. \<not> b_busy (bufs s i) \<and> \<not> b_valid (bufs s i) \<and> \<not> b_dirty (bufs s i))"

lemma binit_run:
  assumes "idle_bufs s" and "BcacheLock \<notin> set (held s)"
  shows "\<exists>f. binit s = Ret () (s\<lparr>bufs := f\<rparr>) \<and> lru (s\<lparr>bufs := f\<rparr>) (rev [0..<NBUF])
    \<and> bc_inv (s\<lparr>bufs := f\<rparr>)
    \<and> (\<forall>i < NBUF. \<not> b_busy (f i) \<and> \<not> b_valid (f i) \<and> \<not> b_dirty (f i) \<and> b_dev (f i) = -1)"
proof -
  let ?s = "s\<lparr>bufs := setn HEAD HEAD (setp HEAD HEAD (bufs s))\<rparr>"
  obtain f where f: "binit s = Ret () (s\<lparr>bufs := f\<rparr>)"
      "ring (\<lambda>i. b_next (f i)) (\<lambda>i. b_prev (f i)) (rev [0..<NBUF])"
      "\<And>i. core (f i) = (if i < NBUF then (core (bufs s i))\<lparr>b_dev := -1\<rparr> else core (bufs s i))"
    using binit_loop[of ?s NBUF] assms(2) by (auto simp: binit_def thn_run updb_ptr initlk_free)
  have i: "\<not> b_busy (f i) \<and> \<not> b_valid (f i) \<and> \<not> b_dirty (f i) \<and> b_dev (f i) = -1" if "i < NBUF" for i
    using f(3)[of i] that assms(1) by (cases "f i"; cases "bufs s i") (auto simp: idle_bufs_def core_def)
  have l: "lru (s\<lparr>bufs := f\<rparr>) (rev [0..<NBUF])" using f(2) by (simp add: lru_def)
  then have "bc_inv (s\<lparr>bufs := f\<rparr>)" using i by (auto simp: bc_inv_def caches_def)
  then show ?thesis using f(1) l i by blast
qed

lemma idle_clean:
  assumes "\<forall>i < NBUF. \<not> b_busy (bufs s i) \<and> \<not> b_dirty (bufs s i)"
  shows "holds_buf s = Map.empty" and "dirty_blocks s = {}"
  using assms by (auto simp: holds_buf_def dirty_blocks_def)

lemma boot_cache:
  fixes s :: "'x bc_st_scheme"
  assumes "held s = []" and "\<forall>n. length (disk s n) = BSIZE"
  shows "\<exists>f. bl_inv (s\<lparr>bufs := f\<rparr>) \<and> lru (s\<lparr>bufs := f\<rparr>) (rev [0..<NBUF])
    \<and> holds_buf (s\<lparr>bufs := f\<rparr>) = Map.empty \<and> dirty_blocks (s\<lparr>bufs := f\<rparr>) = {}
    \<and> (\<forall>i < NBUF. \<not> b_busy (f i) \<and> \<not> b_valid (f i) \<and> \<not> b_dirty (f i) \<and> b_dev (f i) = -1)"
proof -
  let ?z = "\<lparr>b_busy = False, b_valid = False, b_dirty = False, b_dev = 0, b_blockno = 0,
    b_prev = 0, b_next = 0, b_data = []\<rparr>"
  let ?s = "s\<lparr>bufs := \<lambda>_. ?z\<rparr>"
  have "idle_bufs ?s" "BcacheLock \<notin> set (held ?s)" using assms(1) by (simp_all add: idle_bufs_def)
  from binit_run[OF this] obtain f where f: "lru (s\<lparr>bufs := f\<rparr>) (rev [0..<NBUF])" "bc_inv (s\<lparr>bufs := f\<rparr>)"
      "\<forall>i < NBUF. \<not> b_busy (f i) \<and> \<not> b_valid (f i) \<and> \<not> b_dirty (f i) \<and> b_dev (f i) = -1"
    by auto
  have "bl_inv (s\<lparr>bufs := f\<rparr>)" using f(2,3) assms by (simp add: bl_inv_def bc_unlocked_def)
  then show ?thesis using f idle_clean[of "s\<lparr>bufs := f\<rparr>"] by auto
qed

lemma busy_ptr:
  "b_next ((f(i := (f i)\<lparr>b_busy := v\<rparr>)) j) = b_next (f j)"
  "b_prev ((f(i := (f i)\<lparr>b_busy := v\<rparr>)) j) = b_prev (f j)"
  by simp_all

lemma brelse_lru:
  assumes "bl_inv s" and "holds_buf s i = Some n" and "lru s xs"
  shows "runs (brelse i) s (\<lambda>_ s'. lru s' (i # remove1 i xs))"
proof -
  have inv: "bc_inv s" "bc_unlocked s" using assms(1) by (auto simp: bl_inv_def)
  note h = hold_caches[OF inv(1) assms(2)]
  let ?f = "link_buf i (unlink_buf i (bufs s))"
  have d: "distinct xs" "set xs = {0..<NBUF}" "i \<in> set xs"
    using assms(3) h(1) by (auto simp: lru_def ring_def)
  have "ring (\<lambda>j. b_next (?f j)) (\<lambda>j. b_prev (?f j)) (i # remove1 i xs)"
    using assms(3) d(3) by (intro relink_ring) (auto simp: lru_def)
  moreover have "set (i # remove1 i xs) = {0..<NBUF}" using d insert_Diff[of i "set xs"] by simp
  ultimately show ?thesis
    using brelse_run[OF h(2) inv(2)] h(1)
    by (simp add: runs_def Let_def lru_def busy_ptr del: fun_upd_apply)
qed

section \<open>Properties\<close>

text \<open>
  C38 (cache initialisation): \<^verbatim>\<open>binit\<close> makes the cache well formed: all buffers are on the list, the last
  one at its front, and the invariant of the cache holds.
\<close>

theorem binit_establishes:
  assumes "idle_bufs s" and "BcacheLock \<notin> set (held s)"
  shows "runs binit s (\<lambda>_ s'. bc_inv s' \<and> lru s' (rev [0..<NBUF])
    \<and> holds_buf s' = Map.empty \<and> dirty_blocks s' = {} \<and> view s' = disk s)"
proof -
  obtain f where f: "binit s = Ret () (s\<lparr>bufs := f\<rparr>)" "lru (s\<lparr>bufs := f\<rparr>) (rev [0..<NBUF])"
      "bc_inv (s\<lparr>bufs := f\<rparr>)" "\<forall>i < NBUF. \<not> b_busy (f i) \<and> \<not> b_valid (f i) \<and> \<not> b_dirty (f i)"
    using binit_run[OF assms] by blast
  have "view (s\<lparr>bufs := f\<rparr>) n = disk s n" for n
    using f(4) view_uncached[of "s\<lparr>bufs := f\<rparr>" n] by auto
  then show ?thesis using f idle_clean[of "s\<lparr>bufs := f\<rparr>"] by (auto simp: runs_def)
qed

theorem binit_establishes_witness:
  "\<exists>s :: bc_st. idle_bufs s \<and> runs binit s (\<lambda>_ s'. bc_inv s' \<and> lru s' (rev [0..<NBUF])
    \<and> holds_buf s' = Map.empty \<and> dirty_blocks s' = {} \<and> view s' = disk s)"
proof -
  define s :: bc_st where "s = (undefined :: bc_st)\<lparr>held := [], bufs := \<lambda>_. \<lparr>b_busy = False, b_valid = False,
    b_dirty = False, b_dev = 0, b_blockno = 0, b_prev = 0, b_next = 0, b_data = []\<rparr>\<rparr>"
  have "idle_bufs s" "BcacheLock \<notin> set (held s)" by (simp_all add: s_def idle_bufs_def)
  then show ?thesis using binit_establishes[of s] by blast
qed

text \<open>
  C23 (replacement): the replacement policy: reading a block that is not cached reuses the least recently
  released buffer that is neither busy nor dirty and fills it from the disk, and releasing a
  buffer makes it the most recently released one.
\<close>

theorem cache_is_lru:
  assumes "bl_inv s" and "lru s xs" and "n < disksize s" and "\<forall>j < NBUF. \<not> caches (bufs s j) n"
    and "find (\<lambda>i. \<not> b_busy (bufs s i) \<and> \<not> b_dirty (bufs s i)) (rev xs) = Some i"
  shows "runs (bread 1 n) s (\<lambda>j t. j = i \<and> buf_data t j = disk s n \<and> lru t xs
    \<and> runs (brelse j) t (\<lambda>_ t'. lru t' (i # remove1 i xs)))"
proof -
  have u: "bc_unlocked s" using assms(1) by (simp add: bl_inv_def)
  note e = bread_evict[OF u assms(2-5)]
  let ?t = "s\<lparr>bufs := (bufs s)(i := grab n (disk s n) (bufs s i))\<rparr>"
  have l: "lru ?t xs"
    by (rule lru_cong[OF _ _ assms(2)]) (simp_all add: grab_def)
  have "holds_buf ?t i = Some n" using e(1) by (simp add: holds_buf_def grab_def)
  moreover have "bl_inv ?t"
  proof -
    have inv: "bc_inv s" using assms(1) by (simp add: bl_inv_def)
    have "bc_inv ?t"
      by (rule bc_inv_upd[OF inv e(1), where b = "grab n (disk s n) (bufs s i)"])
        (use assms(3,4) in \<open>auto simp: grab_def caches_def\<close>)
    then show ?thesis using assms(1) by (auto simp: bl_inv_def bc_unlocked_def grab_def)
  qed
  ultimately show ?thesis using brelse_lru[OF _ _ l] l by (simp add: runs_def e(5) buf_data_def grab_def)
qed

theorem cache_is_lru_witness:
  "\<exists>s :: bc_st. bl_inv s \<and> lru s (rev [0..<NBUF]) \<and> 7 < disksize s
    \<and> runs (bread 1 7) s (\<lambda>j t. j = 0 \<and> buf_data t j = disk s 7 \<and> lru t (rev [0..<NBUF])
      \<and> runs (brelse j) t (\<lambda>_ t'. lru t' (0 # remove1 0 (rev [0..<NBUF]))))"
proof -
  define s0 :: bc_st where "s0 = (undefined :: bc_st)\<lparr>held := [], disk := \<lambda>_. replicate 512 0, disksize := 1000\<rparr>"
  have "held s0 = []" "\<forall>n. length (disk s0 n) = BSIZE" by (simp_all add: s0_def)
  from boot_cache[OF this] obtain f where f: "bl_inv (s0\<lparr>bufs := f\<rparr>)" "lru (s0\<lparr>bufs := f\<rparr>) (rev [0..<NBUF])"
      "\<forall>i < NBUF. \<not> b_busy (f i) \<and> \<not> b_valid (f i) \<and> \<not> b_dirty (f i) \<and> b_dev (f i) = -1"
    by blast
  let ?s = "s0\<lparr>bufs := f\<rparr>"
  have "find (\<lambda>i. \<not> b_busy (bufs ?s i) \<and> \<not> b_dirty (bufs ?s i)) (rev (rev [0..<NBUF])) = Some 0"
    unfolding rev_rev_ident find_upt_Some using f(3) by simp
  moreover have "7 < disksize ?s" "\<forall>j < NBUF. \<not> caches (bufs ?s j) 7"
    using f(3) by (simp_all add: s0_def caches_def)
  ultimately show ?thesis using cache_is_lru[OF f(1,2)] f(1,2) by blast
qed

text \<open>
  C22 (coherence): what is written to a block is read back: storing a block through the cache puts it on the
  disk, later reads return it, and no other block changes.
\<close>

theorem block_write_read:
  assumes "bl_inv s" and "n < disksize s" and "holds_buf s = Map.empty" and "card (dirty_blocks s) < NBUF"
    and "length d = BSIZE"
  shows "runs (bnd (bread 1 n) (\<lambda>i. thn (modify (put_data i d)) (thn (bwrite i) (thn (brelse i) (
      bnd (bread 1 n) (\<lambda>j. gets (\<lambda>s. buf_data s j))))))) s
    (\<lambda>r s'. r = d \<and> disk s' = (disk s)(n := d) \<and> view s' = (view s)(n := d) \<and> bl_inv s')"
proof -
  have "runs (bread 1 n) s (\<lambda>i t. bl_inv t \<and> disksize t = disksize s \<and> holds_buf t = [i \<mapsto> n]
      \<and> view t = view s \<and> dirty_blocks t = dirty_blocks s \<and> disk t = disk s)"
    by (rule runs_mono[OF bl.read_law]) (use assms in \<open>auto dest!: rest_same_sel(1)\<close>)
  then show ?thesis
    unfolding runs_simps
  proof (rule runs_mono, elim conjE)
    fix i and t :: "'a bc_st_scheme"
    assume t: "bl_inv t" "disksize t = disksize s" "holds_buf t = [i \<mapsto> n]" "view t = view s"
      "dirty_blocks t = dirty_blocks s" "disk t = disk s"
    note p = put_data_law[OF t(1), of i n d]
    have "runs (bwrite i) (put_data i d t) (\<lambda>_ u. bl_inv u \<and> disksize u = disksize s
        \<and> holds_buf u = [i \<mapsto> n] \<and> view u = (view s)(n := d)
        \<and> dirty_blocks u = dirty_blocks s - {n} \<and> disk u = (disk s)(n := d))"
      by (rule runs_mono[OF bl.write_law[of _ i n]])
        (use t p assms(5) in \<open>auto dest!: rest_same_sel(1)\<close>)
    then show "runs (bwrite i) (put_data i d t) (\<lambda>_ u. runs (brelse i) u (\<lambda>_ v. runs (bread 1 n) v
        (\<lambda>j w. buf_data w j = d \<and> disk w = (disk s)(n := d) \<and> view w = (view s)(n := d) \<and> bl_inv w)))"
    proof (rule runs_mono, elim conjE)
      fix u :: "'a bc_st_scheme"
      assume u: "bl_inv u" "disksize u = disksize s" "holds_buf u = [i \<mapsto> n]" "view u = (view s)(n := d)"
        "dirty_blocks u = dirty_blocks s - {n}" "disk u = (disk s)(n := d)"
      have "runs (brelse i) u (\<lambda>_ v. bl_inv v \<and> disksize v = disksize s \<and> holds_buf v = Map.empty
          \<and> view v = (view s)(n := d) \<and> dirty_blocks v = dirty_blocks s - {n} \<and> disk v = (disk s)(n := d))"
      proof (rule runs_mono[OF bl.release_law[OF u(1), of i n]], goal_cases)
        case (3 _ v)
        then show ?case using u rest_same_sel(1)[of u v] by simp
      qed (use u in simp_all)
      then show "runs (brelse i) u (\<lambda>_ v. runs (bread 1 n) v
        (\<lambda>j w. buf_data w j = d \<and> disk w = (disk s)(n := d) \<and> view w = (view s)(n := d) \<and> bl_inv w))"
      proof (rule runs_mono, elim conjE)
        fix v :: "'a bc_st_scheme"
        assume v: "bl_inv v" "disksize v = disksize s" "holds_buf v = Map.empty"
          "view v = (view s)(n := d)" "dirty_blocks v = dirty_blocks s - {n}" "disk v = (disk s)(n := d)"
        have "card (dirty_blocks s - {n}) < NBUF"
          using assms(4) card_mono[OF dirty_finite, of "dirty_blocks s - {n}" s] by simp
        then show "runs (bread 1 n) v
          (\<lambda>j w. buf_data w j = d \<and> disk w = (disk s)(n := d) \<and> view w = (view s)(n := d) \<and> bl_inv w)"
          proof (intro runs_mono[OF bl.read_law[OF v(1), of n]], goal_cases)
            case (4 j w)
            then have "holds_buf w j = Some n" "view w n = d" using v by auto
            then show ?case using buf_data_law[of w j n] 4 v by auto
          qed (use v assms(2) in simp_all)
      qed
    qed
  qed
qed

theorem block_write_read_witness:
  "\<exists>s :: bc_st. bl_inv s \<and> holds_buf s = Map.empty \<and> 7 < disksize s
    \<and> runs (bnd (bread 1 7) (\<lambda>i. thn (modify (put_data i (replicate 512 1))) (thn (bwrite i) (thn (brelse i) (
      bnd (bread 1 7) (\<lambda>j. gets (\<lambda>s. buf_data s j))))))) s
    (\<lambda>r s'. r = replicate 512 1 \<and> disk s' = (disk s)(7 := replicate 512 1)
      \<and> view s' = (view s)(7 := replicate 512 1) \<and> bl_inv s')"
proof -
  define s0 :: bc_st where "s0 = (undefined :: bc_st)\<lparr>held := [], disk := \<lambda>_. replicate 512 0, disksize := 1000\<rparr>"
  have "held s0 = []" "\<forall>n. length (disk s0 n) = BSIZE" by (simp_all add: s0_def)
  from boot_cache[OF this] obtain f where f: "bl_inv (s0\<lparr>bufs := f\<rparr>)"
      "holds_buf (s0\<lparr>bufs := f\<rparr>) = Map.empty" "dirty_blocks (s0\<lparr>bufs := f\<rparr>) = {}"
    by blast
  have "7 < disksize (s0\<lparr>bufs := f\<rparr>)" by (simp add: s0_def)
  then show ?thesis using block_write_read[of "s0\<lparr>bufs := f\<rparr>" 7 "replicate 512 1"] f by fastforce
qed

end
