(* ===== verification/Bytes.thy ===== *)
theory Bytes
  imports Prelude
begin

text \<open>
  Little-endian fields inside a block of bytes: how C code reads and writes a 16-bit or
  32-bit member of a structure that overlays \<^verbatim>\<open>b->data\<close>.  Used for the log header,
  the superblock, disk inodes, indirect blocks and directory entries.
\<close>

definition get16 :: "byte list \<Rightarrow> nat \<Rightarrow> ushort" where
  "get16 xs k = ucast (xs ! k) OR push_bit 8 (ucast (xs ! (k + 1)))"

definition put16 :: "byte list \<Rightarrow> nat \<Rightarrow> ushort \<Rightarrow> byte list" where
  "put16 xs k v = xs[k := ucast v, k + 1 := ucast (drop_bit 8 v)]"

definition get32 :: "byte list \<Rightarrow> nat \<Rightarrow> uint" where
  "get32 xs k = ucast (xs ! k) OR push_bit 8 (ucast (xs ! (k + 1)))
     OR push_bit 16 (ucast (xs ! (k + 2))) OR push_bit 24 (ucast (xs ! (k + 3)))"

definition put32 :: "byte list \<Rightarrow> nat \<Rightarrow> uint \<Rightarrow> byte list" where
  "put32 xs k v = xs[k := ucast v, k + 1 := ucast (drop_bit 8 v),
     k + 2 := ucast (drop_bit 16 v), k + 3 := ucast (drop_bit 24 v)]"

lemma put_length [simp]: "length (put16 xs k v) = length xs" "length (put32 xs k w) = length xs"
  by (simp_all add: put16_def put32_def)

lemma get32_put32 [simp]: "k + 3 < length xs \<Longrightarrow> get32 (put32 xs k v) k = v"
proof (rule bit_word_eqI)
  fix n assume "k + 3 < length xs" "n < LENGTH(32)"
  then show "bit (get32 (put32 xs k v) k) n = bit v n"
    by (cases "n < 8"; cases "n < 16"; cases "n < 24")
      (auto simp: get32_def put32_def bit_simps)
qed

lemma get16_put16 [simp]: "k + 1 < length xs \<Longrightarrow> get16 (put16 xs k v) k = v"
proof (rule bit_word_eqI)
  fix n assume "k + 1 < length xs" "n < LENGTH(16)"
  then show "bit (get16 (put16 xs k v) k) n = bit v n"
    by (cases "n < 8") (auto simp: get16_def put16_def bit_simps)
qed

text \<open>Fields that do not overlap do not disturb each other.\<close>

lemma nth_put32: "i < k \<or> k + 3 < i \<Longrightarrow> put32 xs k v ! i = xs ! i"
  by (auto simp: put32_def)

lemma nth_put16: "i < k \<or> k + 1 < i \<Longrightarrow> put16 xs k v ! i = xs ! i"
  by (auto simp: put16_def)

lemma get_put_other:
  "j + 3 < k \<or> k + 3 < j \<Longrightarrow> get32 (put32 xs k v) j = get32 xs j"
  "j + 3 < k \<or> k + 1 < j \<Longrightarrow> get32 (put16 xs k w) j = get32 xs j"
  "j + 1 < k \<or> k + 3 < j \<Longrightarrow> get16 (put32 xs k v) j = get16 xs j"
  "j + 1 < k \<or> k + 1 < j \<Longrightarrow> get16 (put16 xs k w) j = get16 xs j"
  by (auto simp: get32_def get16_def nth_put32 nth_put16)

lemma get32_cong:
  "(\<And>i. k \<le> i \<Longrightarrow> i < k + 4 \<Longrightarrow> xs ! i = ys ! i) \<Longrightarrow> get32 xs k = get32 ys k"
  by (simp add: get32_def)

text \<open>Bytes copied into a block, as \<^verbatim>\<open>memmove\<close> and \<^verbatim>\<open>memset\<close> do.\<close>

definition splice :: "byte list \<Rightarrow> nat \<Rightarrow> byte list \<Rightarrow> byte list" where
  "splice d k xs = take k d @ xs @ drop (k + length xs) d"

lemma splice_length [simp]: "k + length xs \<le> length d \<Longrightarrow> length (splice d k xs) = length d"
  by (simp add: splice_def)

lemma splice_nth:
  "k + length xs \<le> length d \<Longrightarrow> i < length d \<Longrightarrow>
     splice d k xs ! i = (if k \<le> i \<and> i < k + length xs then xs ! (i - k) else d ! i)"
  by (auto simp: splice_def nth_append)

text \<open>An array of 32-bit words at offset \<open>k\<close>.\<close>

definition get_words :: "byte list \<Rightarrow> nat \<Rightarrow> nat \<Rightarrow> uint list" where
  "get_words xs k n = map (\<lambda>i. get32 xs (k + 4 * i)) [0..<n]"

text \<open>A loop that stores the words \<open>f 0, f 1, \<dots>\<close> from offset \<open>p\<close> on.\<close>

lemma store_words_length [simp]: "length (foldl (\<lambda>d i. put32 d (p + 4 * i) (f i)) d [0..<n]) = length d"
  by (induction n) simp_all

lemma store_words_other:
  "j < p \<or> p + 4 * n \<le> j \<Longrightarrow> foldl (\<lambda>d i. put32 d (p + 4 * i) (f i)) d [0..<n] ! j = d ! j"
  by (induction n) (auto simp: nth_put32)

lemma store_words_get:
  "i < n \<Longrightarrow> p + 4 * n \<le> length d \<Longrightarrow> get32 (foldl (\<lambda>d i. put32 d (p + 4 * i) (f i)) d [0..<n]) (p + 4 * i) = f i"
  by (induction n) (auto simp: less_Suc_eq get_put_other)

lemma store_words_before:
  "j + 4 \<le> p \<Longrightarrow> get32 (foldl (\<lambda>d i. put32 d (p + 4 * i) (f i)) d [0..<n]) j = get32 d j"
  "j + 2 \<le> p \<Longrightarrow> get16 (foldl (\<lambda>d i. put32 d (p + 4 * i) (f i)) d [0..<n]) j = get16 d j"
  by (simp_all add: get32_def get16_def store_words_other)

end
