(* ===== verification/Ring.thy ===== *)
theory Ring
  imports Prelude
begin

text \<open>
  Ring buffers indexed by free-running 32-bit counters, the idiom of the pipe and of the
  console input buffer: the bytes between a read counter and a write counter, each stored in
  the slot its counter value selects.  The counters may wrap around.
\<close>

locale ring_buffer =
  fixes slot :: "uint \<Rightarrow> nat" and cap :: nat
  assumes slot_less: "slot i < cap"
    and slot_inj: "j < cap \<Longrightarrow> k < cap \<Longrightarrow> slot (i + of_nat j) = slot (i + of_nat k) \<Longrightarrow> j = k"
    and cap_small: "cap < 2 ^ 32"
begin

definition contents :: "byte list \<Rightarrow> uint \<Rightarrow> uint \<Rightarrow> byte list" where
  "contents d r w = map (\<lambda>k. d ! slot (r + of_nat k)) [0..<unat (w - r)]"

definition ok :: "byte list \<Rightarrow> uint \<Rightarrow> uint \<Rightarrow> bool" where
  "ok d r w \<longleftrightarrow> length d = cap \<and> unat (w - r) \<le> cap"

lemma contents_length [simp]: "length (contents d r w) = unat (w - r)"
  by (simp add: contents_def)

lemma contents_empty: "contents d r w = [] \<longleftrightarrow> r = w"
proof -
  have "contents d r w = [] \<longleftrightarrow> unat (w - r) = 0" by (simp add: contents_def)
  then show ?thesis by (auto simp: unat_eq_0)
qed

lemma full_iff: "unat (w - r :: uint) = cap \<longleftrightarrow> w = r + of_nat cap"
proof
  assume a: "unat (w - r) = cap"
  have "(of_nat (unat (w - r)) :: uint) = w - r" by simp
  then show "w = r + of_nat cap" unfolding a by simp
qed (use cap_small unat_of_nat32[of cap] in simp)

lemma count_push: "unat (w - r :: uint) < cap \<Longrightarrow> unat (w + 1 - r) = Suc (unat (w - r))"
proof -
  assume a: "unat (w - r) < cap"
  have "(w + 1 - r :: uint) = of_nat (Suc (unat (w - r)))" by simp
  moreover have "Suc (unat (w - r)) < 2 ^ 32" using a cap_small by simp
  ultimately show ?thesis using unat_of_nat32 by metis
qed

lemma push:
  assumes "ok d r w" and "unat (w - r) < cap"
  shows "ok (d[slot w := c]) r (w + 1)" and "contents (d[slot w := c]) r (w + 1) = contents d r w @ [c]"
proof -
  note n = count_push[OF assms(2)]
  show "ok (d[slot w := c]) r (w + 1)" using assms n by (simp add: ok_def)
  have w: "w = r + of_nat (unat (w - r))" by simp
  have "d[slot w := c] ! slot (r + of_nat k) = d ! slot (r + of_nat k)" if "k < unat (w - r)" for k
  proof -
    have "slot (r + of_nat k) \<noteq> slot w"
      using slot_inj[of k "unat (w - r)" r] that assms(2) w by (metis less_trans nat_neq_iff)
    then show ?thesis by simp
  qed
  moreover have "d[slot w := c] ! slot (r + of_nat (unat (w - r))) = c"
    using w assms(1) slot_less[of w] by (simp add: ok_def)
  ultimately show "contents (d[slot w := c]) r (w + 1) = contents d r w @ [c]"
    by (simp add: contents_def n)
qed

lemma pop:
  assumes "r \<noteq> w"
  shows "contents d r w = d ! slot r # contents d (r + 1) w" and "unat (w - (r + 1)) = unat (w - r) - 1"
proof -
  have "w - r \<noteq> 0" using assms by simp
  then have "unat (w - r - 1) = unat (w - r) - 1" by (simp add: unat_minus_one)
  then show n: "unat (w - (r + 1)) = unat (w - r) - 1" by (simp add: algebra_simps)
  have "0 < unat (w - r)" using assms by (simp add: unat_gt_0)
  then have "[0..<unat (w - r)] = 0 # map Suc [0..<unat (w - r) - 1]"
    by (metis Suc_diff_1 map_Suc_upt upt_conv_Cons)
  then show "contents d r w = d ! slot r # contents d (r + 1) w"
    unfolding contents_def n by (simp add: comp_def add.assoc)
qed

lemma pop_ok: "ok d r w \<Longrightarrow> r \<noteq> w \<Longrightarrow> ok d (r + 1) w"
  using pop(2)[of r w] by (auto simp: ok_def)

text \<open>The newest byte taken back, as the line editor does.\<close>

lemma unpush:
  assumes "ok d r w" and "r \<noteq> w"
  shows "ok d r (w - 1)" and "contents d r w = contents d r (w - 1) @ [d ! slot (w - 1)]"
proof -
  have "w - r \<noteq> 0" using assms(2) by simp
  then have "unat (w - r - 1) = unat (w - r) - 1" by (simp add: unat_minus_one)
  then have n: "unat (w - 1 - r) = unat (w - r) - 1" by (simp add: algebra_simps)
  have p: "0 < unat (w - r)" using assms(2) by (simp add: unat_gt_0)
  show "ok d r (w - 1)" using assms(1) n by (auto simp: ok_def)
  have "[0..<unat (w - r)] = [0..<unat (w - r) - 1] @ [unat (w - r) - 1]"
    using p by (metis Suc_diff_1 upt_Suc_append zero_le)
  moreover have "r + of_nat (unat (w - r) - 1) = w - 1"
    using p by (simp add: of_nat_diff)
  ultimately show "contents d r w = contents d r (w - 1) @ [d ! slot (w - 1)]"
    by (simp add: contents_def n)
qed

end

lemma mod_add_cancel:
  assumes "(a + j) mod n = (a + k) mod (n :: nat)" and "j < n" and "k < n"
  shows "j = k"
proof -
  have *: "j = k" if "j \<le> k" "(a + k) mod n = (a + j) mod n" "k < n" for j k
  proof -
    have "n dvd (a + k) - (a + j)" using that(1,2) by (simp add: mod_eq_dvd_iff_nat)
    then have "n dvd k - j" by simp
    then show ?thesis using that(1,3) dvd_imp_le[of n "k - j"] by (cases "k - j = 0") auto
  qed
  show ?thesis using *[of j k] *[of k j] assms by (cases "j \<le> k") auto
qed

lemma unat_add_mod:
  assumes "n dvd 2 ^ 32"
  shows "unat (i + of_nat m :: uint) mod n = (unat i + m) mod n"
proof -
  have "unat (i + of_nat m :: uint) = (unat i + m) mod 2 ^ 32"
    by (simp add: unat_word_ariths unat_of_nat mod_simps)
  then show ?thesis using assms by (simp add: mod_mod_cancel)
qed

lemma dvd_slot:
  assumes "n dvd 2 ^ 32" and "j < n" and "k < n"
    and "unat (i + of_nat j :: uint) mod n = unat (i + of_nat k) mod n"
  shows "j = k"
  using mod_add_cancel[of "unat i" j n k] assms unat_add_mod[OF assms(1)] by simp

end
