(* ===== verification/Log.thy ===== *)
theory Log
  imports Bio Bytes
begin

text \<open>
  Model of \<^verbatim>\<open>log.c\<close>, the redo log, with \<^verbatim>\<open>readsb\<close> of \<^verbatim>\<open>fs.c\<close>, which
  \<^verbatim>\<open>initlog\<close> calls.  The header block overlays the data of a buffer with the
  structure \<^verbatim>\<open>logheader\<close>.  A crash keeps a prefix of the writes the disk has received
  and loses everything else.
\<close>

section \<open>Data\<close>

record superblock =
  sb_size :: uint
  sb_nblocks :: uint
  sb_ninodes :: uint
  sb_nlog :: uint
  sb_logstart :: uint
  sb_inodestart :: uint
  sb_bmapstart :: uint

record log_st = bc_st +
  lg_start :: uint
  lg_size :: int
  lg_outstanding :: int
  lg_committing :: bool
  lg_dev :: uint
  lh_n :: int
  lh_block :: "uint list"

section \<open>Superblock\<close>

definition decode_sb :: "block \<Rightarrow> superblock" where
  "decode_sb d = \<lparr>sb_size = get32 d 0, sb_nblocks = get32 d 4, sb_ninodes = get32 d 8,
     sb_nlog = get32 d 12, sb_logstart = get32 d 16, sb_inodestart = get32 d 20,
     sb_bmapstart = get32 d 24\<rparr>"

definition readsb :: "uint \<Rightarrow> ('x bc_st_scheme, superblock) kernel" where
  "readsb dev =
     bnd (bread dev 1) (\<lambda>bp.
     bnd (gets (\<lambda>s. decode_sb (buf_data s bp))) (\<lambda>sb.
     thn (brelse bp) (
     ret sb)))"

section \<open>The log\<close>

text \<open>Accesses to \<^verbatim>\<open>lh.block\<close> beyond its \<open>LOGSIZE\<close> entries are undefined.\<close>

definition lh_block_at :: "nat \<Rightarrow> ('x log_st_scheme, uint) kernel" where
  "lh_block_at i = (if LOGSIZE \<le> i then undef else gets (\<lambda>s. lh_block s ! i))"

definition set_lh_block :: "nat \<Rightarrow> uint \<Rightarrow> ('x log_st_scheme, unit) kernel" where
  "set_lh_block i v = (if LOGSIZE \<le> i then undef else modify (\<lambda>s. s\<lparr>lh_block := (lh_block s)[i := v]\<rparr>))"

definition install_trans :: "('x log_st_scheme, unit) kernel" where
  "install_trans =
     bnd (gets lh_n) (\<lambda>n.
     forM [0..<nat n] (\<lambda>tail.
       bnd (gets (\<lambda>s. (lg_dev s, lg_start s))) (\<lambda>(dev, start).
       bnd (bread dev (start + of_nat tail + 1)) (\<lambda>lbuf.
       bnd (lh_block_at tail) (\<lambda>dst.
       bnd (bread dev dst) (\<lambda>dbuf.
       thn (modify (\<lambda>s. put_data dbuf (buf_data s lbuf) s)) (
       thn (bwrite dbuf) (
       thn (brelse lbuf) (
       brelse dbuf)))))))))"

definition read_head :: "('x log_st_scheme, unit) kernel" where
  "read_head =
     bnd (gets (\<lambda>s. (lg_dev s, lg_start s))) (\<lambda>(dev, start).
     bnd (bread dev start) (\<lambda>b.
     bnd (gets (\<lambda>s. buf_data s b)) (\<lambda>d.
     thn (modify (\<lambda>s. s\<lparr>lh_n := sint (get32 d 0)\<rparr>)) (
     bnd (gets lh_n) (\<lambda>n.
     thn (forM [0..<nat n] (\<lambda>i. set_lh_block i (get32 d (4 + 4 * i)))) (
     brelse b))))))"

definition write_head :: "('x log_st_scheme, unit) kernel" where
  "write_head =
     bnd (gets (\<lambda>s. (lg_dev s, lg_start s))) (\<lambda>(dev, start).
     bnd (bread dev start) (\<lambda>b.
     thn (modify (\<lambda>s. put_data b (put32 (buf_data s b) 0 (word_of_int (lh_n s))) s)) (
     bnd (gets lh_n) (\<lambda>n.
     thn (forM [0..<nat n] (\<lambda>i.
       bnd (lh_block_at i) (\<lambda>v.
       modify (\<lambda>s. put_data b (put32 (buf_data s b) (4 + 4 * i) v) s)))) (
     thn (bwrite b) (
     brelse b))))))"

definition recover_from_log :: "('x log_st_scheme, unit) kernel" where
  "recover_from_log =
     thn read_head (
     thn install_trans (
     thn (modify (\<lambda>s. s\<lparr>lh_n := 0\<rparr>)) (
     write_head)))"

text \<open>\<^verbatim>\<open>sizeof(struct logheader)\<close> is 124, below the block size.\<close>

definition initlog :: "uint \<Rightarrow> ('x log_st_scheme, unit) kernel" where
  "initlog dev =
     thn (initlk LogLock) (
     bnd (readsb dev) (\<lambda>sb.
     thn (modify (\<lambda>s. s\<lparr>lg_start := sb_logstart sb\<rparr>)) (
     thn (modify (\<lambda>s. s\<lparr>lg_size := sint (sb_nlog sb)\<rparr>)) (
     thn (modify (\<lambda>s. s\<lparr>lg_dev := dev\<rparr>)) (
     recover_from_log)))))"

definition begin_op_loop :: "('x log_st_scheme, unit) kernel" where
  "begin_op_loop =
     bnd (gets (\<lambda>s. (lg_committing s, lh_n s, lg_outstanding s))) (\<lambda>(c, n, out).
     if c then sleep (Some ChanLog) (Some LogLock)
     else if n + (out + 1) * 10 > 30 then sleep (Some ChanLog) (Some LogLock)
     else
       thn (modify (\<lambda>s. s\<lparr>lg_outstanding := lg_outstanding s + 1\<rparr>)) (
       rel LogLock))"

definition begin_op :: "('x log_st_scheme, unit) kernel" where
  "begin_op = thn (acq LogLock) begin_op_loop"

definition begin_op_resume :: "('x log_st_scheme, unit) kernel" where
  "begin_op_resume = thn (sleep_resume LogLock) begin_op_loop"

definition write_log :: "('x log_st_scheme, unit) kernel" where
  "write_log =
     bnd (gets lh_n) (\<lambda>n.
     forM [0..<nat n] (\<lambda>tail.
       bnd (gets (\<lambda>s. (lg_dev s, lg_start s))) (\<lambda>(dev, start).
       bnd (bread dev (start + of_nat tail + 1)) (\<lambda>to.
       bnd (lh_block_at tail) (\<lambda>src.
       bnd (bread dev src) (\<lambda>from.
       thn (modify (\<lambda>s. put_data to (buf_data s from) s)) (
       thn (bwrite to) (
       thn (brelse from) (
       brelse to)))))))))"

definition commit :: "('x log_st_scheme, unit) kernel" where
  "commit =
     bnd (gets lh_n) (\<lambda>n.
     whenk (0 < n) (
       thn write_log (
       thn write_head (
       thn install_trans (
       thn (modify (\<lambda>s. s\<lparr>lh_n := 0\<rparr>)) (
       write_head))))))"

definition end_op :: "('x log_st_scheme, unit) kernel" where
  "end_op =
     thn (acq LogLock) (
     thn (modify (\<lambda>s. s\<lparr>lg_outstanding := lg_outstanding s - 1\<rparr>)) (
     bnd (gets lg_committing) (\<lambda>c.
     if c then panic ''log.committing'' else
     bnd (gets lg_outstanding) (\<lambda>out.
     thn (if out = 0 then modify (\<lambda>s. s\<lparr>lg_committing := True\<rparr>)
          else wakeup (Some ChanLog)) (
     thn (rel LogLock) (
     whenk (out = 0) (
       thn commit (
       thn (acq LogLock) (
       thn (modify (\<lambda>s. s\<lparr>lg_committing := False\<rparr>)) (
       thn (wakeup (Some ChanLog)) (
       rel LogLock)))))))))))"

definition log_write :: "nat \<Rightarrow> ('x log_st_scheme, unit) kernel" where
  "log_write b =
     bnd (gets (\<lambda>s. (lh_n s, lg_size s))) (\<lambda>(n, size).
     if 30 \<le> n \<or> size - 1 \<le> n then panic ''too big a transaction'' else
     bnd (gets lg_outstanding) (\<lambda>out.
     if out < 1 then panic ''log_write outside of trans'' else
     thn (acq LogLock) (
     bnd (gets (\<lambda>s. b_blockno (bufs s b))) (\<lambda>bn.
     bnd (gets (\<lambda>s. find (\<lambda>i. lh_block s ! i = bn) [0..<nat n])) (\<lambda>r.
     let i = (case r of Some i \<Rightarrow> i | None \<Rightarrow> nat n) in
     thn (set_lh_block i bn) (
     thn (whenk (int i = n) (modify (\<lambda>s. s\<lparr>lh_n := lh_n s + 1\<rparr>))) (
     thn (modify (pin_buf b)) (
     rel LogLock))))))))"

section \<open>Sequences of disk writes\<close>

definition apply_ws :: "(uint \<Rightarrow> block) \<Rightarrow> (uint \<times> block) list \<Rightarrow> uint \<Rightarrow> block" where
  "apply_ws d ws = foldl (\<lambda>d (b, x). d(b := x)) d ws"

lemma apply_ws_Nil [simp]: "apply_ws d [] = d"
  by (simp add: apply_ws_def)

lemma apply_ws_append: "apply_ws d (xs @ ys) = apply_ws (apply_ws d xs) ys"
  by (simp add: apply_ws_def)

lemma apply_ws_snoc [simp]: "apply_ws d (xs @ [(b, x)]) = (apply_ws d xs)(b := x)"
  by (simp add: apply_ws_def)

lemma apply_ws_single [simp]: "apply_ws d [(b, x)] = d(b := x)"
  by (simp add: apply_ws_def)

lemma apply_ws_other: "b \<notin> fst ` set ws \<Longrightarrow> apply_ws d ws b = d b"
  by (induction ws rule: rev_induct) (auto simp: apply_ws_append split: prod.splits)

lemma apply_ws_in:
  "distinct (map fst ws) \<Longrightarrow> (b, x) \<in> set ws \<Longrightarrow> apply_ws d ws b = x"
proof (induction ws rule: rev_induct)
  case (snoc w ws)
  obtain c y where w: "w = (c, y)" by (cases w)
  show ?case
  proof (cases "b = c")
    case True
    then have "(b, x) = w" using snoc.prems w by (auto simp: rev_image_eqI)
    then show ?thesis using w by simp
  next
    case False
    then show ?thesis using snoc w by auto
  qed
qed simp

section \<open>The header block and the log region\<close>

text \<open>\<open>region st m\<close>: the \<open>m\<close> blocks of the on-disk log, the header first.\<close>

definition region :: "uint \<Rightarrow> nat \<Rightarrow> uint set" where
  "region st m = (\<lambda>k. st + of_nat k) ` {0..<m}"

definition hdr_ok :: "uint \<Rightarrow> nat \<Rightarrow> uint \<Rightarrow> uint list \<Rightarrow> bool" where
  "hdr_ok st m sz blks \<longleftrightarrow> length blks < m \<and> m \<le> LOGSIZE \<and> distinct blks
     \<and> set blks \<inter> region st m = {} \<and> (\<forall>b \<in> set blks \<union> region st m. b < sz)"

definition head_bytes :: "uint list \<Rightarrow> block \<Rightarrow> block" where
  "head_bytes blks d = foldl (\<lambda>d i. put32 d (4 + 4 * i) (blks ! i))
     (put32 d 0 (of_nat (length blks))) [0..<length blks]"

definition lh_is :: "'x log_st_scheme \<Rightarrow> uint list \<Rightarrow> bool" where
  "lh_is s blks \<longleftrightarrow> lh_n s = int (length blks) \<and> length (lh_block s) = LOGSIZE
     \<and> take (length blks) (lh_block s) = blks"

lemma region_log: "Suc k < m \<Longrightarrow> st + of_nat k + 1 \<in> region st m"
  by (auto simp: region_def intro!: image_eqI[of _ _ "Suc k"])

lemma region_head: "0 < m \<Longrightarrow> st \<in> region st m"
  by (auto simp: region_def intro!: image_eqI[of _ _ 0])

lemma of_nat_small: "a < 2 ^ 32 \<Longrightarrow> b < 2 ^ 32 \<Longrightarrow> (of_nat a :: uint) = of_nat b \<longleftrightarrow> a = b"
  using unat_of_nat32[of a] unat_of_nat32[of b] by metis

lemma log_block_inj:
  assumes "i < LOGSIZE" and "j < LOGSIZE"
  shows "(st :: uint) + of_nat i + 1 = st + of_nat j + 1 \<longleftrightarrow> i = j" and "st + of_nat i + 1 \<noteq> st"
proof -
  show "st + of_nat i + 1 = st + of_nat j + 1 \<longleftrightarrow> i = j"
    using of_nat_small[of i j] assms by simp
  have "(of_nat (Suc i) :: uint) \<noteq> of_nat 0"
    using of_nat_small[of "Suc i" 0] assms by simp
  then show "st + of_nat i + 1 \<noteq> st" by (simp add: add.commute)
qed

lemma head_bytes_prefix:
  assumes "length d = BSIZE" and "m \<le> length blks" and "length blks \<le> LOGSIZE"
  defines "f \<equiv> \<lambda>m. foldl (\<lambda>d i. put32 d (4 + 4 * i) (blks ! i))
     (put32 d 0 (of_nat (length blks))) [0..<m]"
  shows "length (f m) = BSIZE \<and> get32 (f m) 0 = of_nat (length blks)
    \<and> (\<forall>i < m. get32 (f m) (4 + 4 * i) = blks ! i)"
  using assms(2)
proof (induction m)
  case 0
  then show ?case using assms(1) by (simp add: f_def)
next
  case (Suc m)
  have "f (Suc m) = put32 (f m) (4 + 4 * m) (blks ! m)" by (simp add: f_def)
  moreover have "get32 (put32 (f m) (4 + 4 * m) (blks ! m)) 0 = get32 (f m) 0"
    by (rule get_put_other(1)) simp
  ultimately show ?case
    using Suc assms(3) by (auto simp: get_put_other less_Suc_eq)
qed

lemma head_bytes_props:
  assumes "length d = BSIZE" and "length blks \<le> LOGSIZE"
  shows "length (head_bytes blks d) = BSIZE" and "get32 (head_bytes blks d) 0 = of_nat (length blks)"
    and "i < length blks \<Longrightarrow> get32 (head_bytes blks d) (4 + 4 * i) = blks ! i"
  using head_bytes_prefix[OF assms(1) order_refl assms(2)] by (auto simp: head_bytes_def)

lemma sint_small: "n \<le> LOGSIZE \<Longrightarrow> sint (of_nat n :: uint) = int n"
  by (simp add: signed_of_nat signed_take_bit_int_eq_self)

section \<open>Frame lemmas\<close>

lemma bl_frame [simp]:
  "bl_inv (s\<lparr>lh_n := a\<rparr>) = bl_inv s" "bl_inv (s\<lparr>lh_block := b\<rparr>) = bl_inv s"
  "view (s\<lparr>lh_n := a\<rparr>) = view s" "view (s\<lparr>lh_block := b\<rparr>) = view s"
  "dirty_blocks (s\<lparr>lh_n := a\<rparr>) = dirty_blocks s" "dirty_blocks (s\<lparr>lh_block := b\<rparr>) = dirty_blocks s"
  "holds_buf (s\<lparr>lh_n := a\<rparr>) = holds_buf s" "holds_buf (s\<lparr>lh_block := b\<rparr>) = holds_buf s"
  by (simp_all add: bl_inv_def bc_inv_def lru_def bc_unlocked_def view_def dirty_blocks_def
      holds_buf_def fun_eq_iff split: option.split)

lemma rest_same_log:
  fixes s :: "'x log_st_scheme"
  assumes "rest_same s t"
  shows "lg_dev t = lg_dev s" "lg_start t = lg_start s" "lg_size t = lg_size s" "lh_n t = lh_n s"
    "lh_block t = lh_block s" "lg_outstanding t = lg_outstanding s" "lg_committing t = lg_committing s"
    "disksize t = disksize s" "held t = held s" "lh_is t blks = lh_is s blks"
  using assms by (auto simp: rest_same_def lh_is_def)

lemma lh_block_at_run [kstep]:
  "lh_is s blks \<Longrightarrow> i < length blks \<Longrightarrow> length blks \<le> LOGSIZE \<Longrightarrow> lh_block_at i s = Ret (blks ! i) s"
  by (auto simp: lh_block_at_def kstep lh_is_def) (metis nth_take)

section \<open>Lemmas: the loops of the log\<close>

definition install_ws :: "uint \<Rightarrow> uint list \<Rightarrow> (uint \<Rightarrow> block) \<Rightarrow> (uint \<times> block) list" where
  "install_ws st blks v = map (\<lambda>k. (blks ! k, v (st + of_nat k + 1))) [0..<length blks]"

definition log_ws :: "uint \<Rightarrow> uint list \<Rightarrow> (uint \<Rightarrow> block) \<Rightarrow> (uint \<times> block) list" where
  "log_ws st blks v = map (\<lambda>k. (st + of_nat k + 1, v (blks ! k))) [0..<length blks]"

lemma ws_take_Suc:
  "k < length blks \<Longrightarrow> take (Suc k) (install_ws st blks v)
     = take k (install_ws st blks v) @ [(blks ! k, v (st + of_nat k + 1))]"
  "k < length blks \<Longrightarrow> take (Suc k) (log_ws st blks v)
     = take k (log_ws st blks v) @ [(st + of_nat k + 1, v (blks ! k))]"
  by (simp_all add: install_ws_def log_ws_def take_Suc_conv_app_nth)

lemma ws_fst:
  "map fst (install_ws st blks v) = blks"
  "map fst (log_ws st blks v) = map (\<lambda>k. st + of_nat k + 1) [0..<length blks]"
  "length (install_ws st blks v) = length blks" "length (log_ws st blks v) = length blks"
  by (simp_all add: install_ws_def log_ws_def comp_def map_nth)

lemma hdr_ok_log_block:
  assumes "hdr_ok st m sz blks" and "k < length blks"
  shows "st + of_nat k + 1 \<in> region st m" and "st + of_nat k + 1 < sz" and "blks ! k < sz"
    and "blks ! k \<notin> region st m" and "st + of_nat k + 1 \<noteq> blks ! k" and "st + of_nat k + 1 \<notin> set blks"
proof -
  show r: "st + of_nat k + 1 \<in> region st m"
    using assms by (intro region_log) (simp add: hdr_ok_def)
  then show "st + of_nat k + 1 < sz" "st + of_nat k + 1 \<notin> set blks"
    using assms(1) by (auto simp: hdr_ok_def)
  have b: "blks ! k \<in> set blks" using assms(2) by simp
  then show "blks ! k < sz" using assms(1) by (auto simp: hdr_ok_def)
  show "blks ! k \<notin> region st m" using assms(1) b by (auto simp: hdr_ok_def)
  with r show "st + of_nat k + 1 \<noteq> blks ! k" by auto
qed

definition log_ready :: "'x log_st_scheme \<Rightarrow> bool" where
  "log_ready s \<longleftrightarrow> bl_inv s \<and> holds_buf s = Map.empty \<and> lg_dev s = 1"

lemma copied_simps:
  "bl.copied a b s s' \<longleftrightarrow> bl_inv s' \<and> rest_same s s' \<and> holds_buf s' = holds_buf s
     \<and> view s' = (view s)(b := view s a) \<and> dirty_blocks s' = dirty_blocks s - {b}
     \<and> disk s' = (disk s)(b := view s a) \<and> dwrites s' = dwrites s @ [(b, view s a)]"
  by (simp add: bl.copied_def)

text \<open>A look at the state between two steps, when the first step does not change what it sees.\<close>

lemma runs_peek:
  assumes "runs m s (\<lambda>_. G)" and "\<And>t. G t \<Longrightarrow> g t = Ret v t" and "runs (bnd m (\<lambda>a. F a v)) s Q"
  shows "runs (bnd m (\<lambda>a. bnd g (F a))) s Q"
  using assms(1,3) by (auto simp: runs_iff kstep assms(2) split: outcome.splits)

lemma copies_loop:
  fixes s :: "'x log_st_scheme"
  assumes "log_ready s"
    and "\<And>k t. k < n \<Longrightarrow> log_ready t \<Longrightarrow> rest_same s t \<Longrightarrow> dirty_blocks t = dirty_blocks s - b ` {0..<k}
      \<Longrightarrow> runs (f k) t (\<lambda>_. bl.copied (a k) (b k) t)"
    and "\<And>j k. j < n \<Longrightarrow> k < n \<Longrightarrow> a k \<noteq> b j"
  defines "ws \<equiv> map (\<lambda>k. (b k, view s (a k))) [0..<n]"
  shows "runs (forM [0..<n] f) s (\<lambda>_ s'. log_ready s' \<and> rest_same s s'
    \<and> dirty_blocks s' = dirty_blocks s - b ` {0..<n} \<and> dwrites s' = dwrites s @ ws
    \<and> disk s' = apply_ws (disk s) ws \<and> view s' = apply_ws (view s) ws)"
proof -
  let ?w = "\<lambda>k. map (\<lambda>k. (b k, view s (a k))) [0..<k]"
  let ?I = "\<lambda>k s'. log_ready s' \<and> rest_same s s' \<and> dirty_blocks s' = dirty_blocks s - b ` {0..<k}
    \<and> dwrites s' = dwrites s @ ?w k \<and> disk s' = apply_ws (disk s) (?w k)
    \<and> view s' = apply_ws (view s) (?w k)"
  have "runs (forM [0..<n] f) s (\<lambda>_. ?I n)"
  proof (rule runs_forM_upt[where I = ?I])
    fix k and t :: "'x log_st_scheme" assume k: "k < n" and I: "?I k t"
    have "a k \<noteq> b j" if "j < k" for j using assms(3)[of j k] that k by simp
    then have "a k \<notin> fst ` set (?w k)" by (auto simp: image_iff)
    from apply_ws_other[OF this] have va: "view t (a k) = view s (a k)" using I by simp
    have "runs (f k) t (\<lambda>_. bl.copied (a k) (b k) t)" using I k by (intro assms(2)) simp_all
    then show "runs (f k) t (\<lambda>_. ?I (Suc k))"
    proof (rule runs_mono)
      fix t' assume "bl.copied (a k) (b k) t t'"
      note c = this[unfolded copied_simps]
      have "rest_same s t'" using I c rest_same_trans by blast
      moreover have "log_ready t'" using I c rest_same_log(1)[of t t'] by (simp add: log_ready_def)
      moreover have "dirty_blocks t' = dirty_blocks s - b ` {0..<Suc k}"
        using I c by (auto simp: atLeast0_lessThan_Suc)
      ultimately show "?I (Suc k) t'" using I c va by simp
    qed
  qed (use assms(1) in simp_all)
  then show ?thesis by (simp add: ws_def)
qed

lemma copy_src_log:
  assumes "log_ready t" and "lh_is t blks" and "hdr_ok (lg_start t) m (disksize t) blks"
    and "k < length blks" and "card (dirty_blocks t) < NBUF"
    and "blks ! k \<in> dirty_blocks t \<or> Suc (card (dirty_blocks t)) < NBUF"
  shows "runs (bnd (gets (\<lambda>s. (lg_dev s, lg_start s))) (\<lambda>(dev, start).
       bnd (bread dev (start + of_nat k + 1)) (\<lambda>lbuf.
       bnd (lh_block_at k) (\<lambda>dst.
       bnd (bread dev dst) (\<lambda>dbuf.
       thn (modify (\<lambda>s. put_data dbuf (buf_data s lbuf) s)) (
       thn (bwrite dbuf) (
       thn (brelse lbuf) (
       brelse dbuf)))))))) t (\<lambda>_. bl.copied (lg_start t + of_nat k + 1) (blks ! k) t)"
proof -
  let ?a = "lg_start t + of_nat k + 1" and ?b = "blks ! k"
  note ab = hdr_ok_log_block[OF assms(3,4)]
  have t: "lg_dev t = 1" "bl_inv t" "holds_buf t = Map.empty" "length blks \<le> LOGSIZE"
    using assms(1,3) by (auto simp: log_ready_def hdr_ok_def)
  have "runs (bread 1 ?a) t (\<lambda>_ t'. rest_same t t')"
    by (rule runs_mono[OF bl.read_law[OF t(2)]]) (use ab assms(5) t in auto)
  then have "runs (bread 1 ?a) t (\<lambda>_ t'. lh_is t' blks)"
    by (rule runs_mono) (drule rest_same_log(10)[where blks = blks], simp add: assms(2))
  then have "runs (bnd (bread 1 ?a) (\<lambda>i. bnd (lh_block_at k) (\<lambda>dst. bnd (bread 1 dst) (\<lambda>j.
      thn (modify (\<lambda>s. put_data j (buf_data s i) s)) (thn (bwrite j) (thn (brelse i) (brelse j))))))) t
      (\<lambda>_. bl.copied ?a ?b t)"
  proof (rule runs_peek)
    show "lh_block_at k t' = Ret ?b t'" if "lh_is t' blks" for t' :: "'a log_st_scheme"
      using that assms(4) t(4) by (rule lh_block_at_run)
    show "runs (bnd (bread 1 ?a) (\<lambda>i. bnd (bread 1 ?b) (\<lambda>j.
      thn (modify (\<lambda>s. put_data j (buf_data s i) s)) (thn (bwrite j) (thn (brelse i) (brelse j)))))) t
      (\<lambda>_. bl.copied ?a ?b t)"
      by (rule bl.copy_src_first[OF t(2,3)]) (use ab assms(5,6) in auto)
  qed
  then show ?thesis using t(1) by simp
qed

lemma copy_dst_log:
  assumes "log_ready t" and "lh_is t blks" and "hdr_ok (lg_start t) m (disksize t) blks"
    and "k < length blks" and "card (dirty_blocks t) < NBUF"
    and "blks ! k \<in> dirty_blocks t \<or> Suc (card (dirty_blocks t)) < NBUF"
  shows "runs (bnd (gets (\<lambda>s. (lg_dev s, lg_start s))) (\<lambda>(dev, start).
       bnd (bread dev (start + of_nat k + 1)) (\<lambda>to.
       bnd (lh_block_at k) (\<lambda>src.
       bnd (bread dev src) (\<lambda>from.
       thn (modify (\<lambda>s. put_data to (buf_data s from) s)) (
       thn (bwrite to) (
       thn (brelse from) (
       brelse to)))))))) t (\<lambda>_. bl.copied (blks ! k) (lg_start t + of_nat k + 1) t)"
proof -
  let ?a = "lg_start t + of_nat k + 1" and ?b = "blks ! k"
  note ab = hdr_ok_log_block[OF assms(3,4)]
  have t: "lg_dev t = 1" "bl_inv t" "holds_buf t = Map.empty" "length blks \<le> LOGSIZE"
    using assms(1,3) by (auto simp: log_ready_def hdr_ok_def)
  have "runs (bread 1 ?a) t (\<lambda>_ t'. rest_same t t')"
    by (rule runs_mono[OF bl.read_law[OF t(2)]]) (use ab assms(5) t in auto)
  then have "runs (bread 1 ?a) t (\<lambda>_ t'. lh_is t' blks)"
    by (rule runs_mono) (drule rest_same_log(10)[where blks = blks], simp add: assms(2))
  then have "runs (bnd (bread 1 ?a) (\<lambda>j. bnd (lh_block_at k) (\<lambda>src. bnd (bread 1 src) (\<lambda>i.
      thn (modify (\<lambda>s. put_data j (buf_data s i) s)) (thn (bwrite j) (thn (brelse i) (brelse j))))))) t
      (\<lambda>_. bl.copied ?b ?a t)"
  proof (rule runs_peek)
    show "lh_block_at k t' = Ret ?b t'" if "lh_is t' blks" for t' :: "'a log_st_scheme"
      using that assms(4) t(4) by (rule lh_block_at_run)
    show "runs (bnd (bread 1 ?a) (\<lambda>j. bnd (bread 1 ?b) (\<lambda>i.
      thn (modify (\<lambda>s. put_data j (buf_data s i) s)) (thn (bwrite j) (thn (brelse i) (brelse j)))))) t
      (\<lambda>_. bl.copied ?b ?a t)"
      by (rule bl.copy_dst_first[OF t(2,3)]) (use ab assms(5,6) in auto)
  qed
  then show ?thesis using t(1) by simp
qed

lemma install_trans_runs:
  fixes s :: "'x log_st_scheme"
  assumes "log_ready s" and "lh_is s blks" and "hdr_ok (lg_start s) m (disksize s) blks"
    and "card (dirty_blocks s) < NBUF"
    and "set blks \<subseteq> dirty_blocks s \<or> Suc (card (dirty_blocks s)) < NBUF"
  defines "ws \<equiv> install_ws (lg_start s) blks (view s)"
  shows "runs install_trans s (\<lambda>_ s'. log_ready s' \<and> rest_same s s'
    \<and> dirty_blocks s' = dirty_blocks s - set blks \<and> dwrites s' = dwrites s @ ws
    \<and> disk s' = apply_ws (disk s) ws \<and> view s' = apply_ws (view s) ws)"
proof -
  let ?n = "length blks" and ?a = "\<lambda>k. lg_start s + of_nat k + 1"
  have n: "nat (lh_n s) = ?n" using assms(2) by (simp add: lh_is_def)
  have "runs install_trans s (\<lambda>_ s'. log_ready s' \<and> rest_same s s'
    \<and> dirty_blocks s' = dirty_blocks s - (\<lambda>k. blks ! k) ` {0..<?n} \<and> dwrites s' = dwrites s @ ws
    \<and> disk s' = apply_ws (disk s) ws \<and> view s' = apply_ws (view s) ws)"
    unfolding install_trans_def runs_bnd runs_gets ws_def install_ws_def n
  proof (rule copies_loop[OF assms(1)])
    fix k and t :: "'x log_st_scheme"
    assume k: "k < ?n" and t: "log_ready t" "rest_same s t"
      and d: "dirty_blocks t = dirty_blocks s - (\<lambda>k. blks ! k) ` {0..<k}"
    note eq = rest_same_log[OF t(2)]
    have le: "card (dirty_blocks t) \<le> card (dirty_blocks s)"
      unfolding d by (rule card_mono[OF dirty_finite]) blast
    have "blks ! k \<notin> (\<lambda>k. blks ! k) ` {0..<k}"
      using k assms(3) by (auto simp: hdr_ok_def nth_eq_iff_index_eq)
    then have "blks ! k \<in> dirty_blocks t \<or> Suc (card (dirty_blocks t)) < NBUF"
      using assms(5) k le nth_mem[OF k] unfolding d by auto
    then show "runs (bnd (gets (\<lambda>s. (lg_dev s, lg_start s))) (\<lambda>(dev, start).
       bnd (bread dev (start + of_nat k + 1)) (\<lambda>lbuf.
       bnd (lh_block_at k) (\<lambda>dst.
       bnd (bread dev dst) (\<lambda>dbuf.
       thn (modify (\<lambda>s. put_data dbuf (buf_data s lbuf) s)) (
       thn (bwrite dbuf) (
       thn (brelse lbuf) (
       brelse dbuf)))))))) t (\<lambda>_. bl.copied (?a k) (blks ! k) t)"
      using copy_src_log[OF t(1), of blks m k] assms(2-4) k le by (simp only: eq)
  next
    fix j k assume j: "j < ?n" and k: "k < ?n"
    show "?a k \<noteq> blks ! j" using hdr_ok_log_block(6)[OF assms(3) k] nth_mem[OF j] by auto
  qed
  moreover have "(\<lambda>k. blks ! k) ` {0..<?n} = set blks" by (auto simp: in_set_conv_nth)
  ultimately show ?thesis by simp
qed

lemma write_log_runs:
  fixes s :: "'x log_st_scheme"
  assumes "log_ready s" and "lh_is s blks" and "hdr_ok (lg_start s) m (disksize s) blks"
    and "dirty_blocks s = set blks"
  defines "ws \<equiv> log_ws (lg_start s) blks (view s)"
  shows "runs write_log s (\<lambda>_ s'. log_ready s' \<and> rest_same s s'
    \<and> dirty_blocks s' = set blks \<and> dwrites s' = dwrites s @ ws
    \<and> disk s' = apply_ws (disk s) ws \<and> view s' = apply_ws (view s) ws)"
proof -
  let ?n = "length blks" and ?a = "\<lambda>k. lg_start s + of_nat k + 1"
  have n: "nat (lh_n s) = ?n" using assms(2) by (simp add: lh_is_def)
  have disj: "?a k \<notin> set blks" if "k < ?n" for k using hdr_ok_log_block(6)[OF assms(3) that] .
  have same: "set blks - ?a ` {0..<k} = set blks" if "k \<le> ?n" for k
    using disj that by (auto simp: set_eq_iff image_iff)
  have "runs write_log s (\<lambda>_ s'. log_ready s' \<and> rest_same s s'
    \<and> dirty_blocks s' = dirty_blocks s - ?a ` {0..<?n} \<and> dwrites s' = dwrites s @ ws
    \<and> disk s' = apply_ws (disk s) ws \<and> view s' = apply_ws (view s) ws)"
    unfolding write_log_def runs_bnd runs_gets ws_def log_ws_def n
  proof (rule copies_loop[OF assms(1)])
    fix k and t :: "'x log_st_scheme"
    assume k: "k < ?n" and t: "log_ready t" "rest_same s t"
      and d: "dirty_blocks t = dirty_blocks s - ?a ` {0..<k}"
    note eq = rest_same_log[OF t(2)]
    have d': "dirty_blocks t = set blks" using d same[of k] k by (simp add: assms(4))
    have "?n < NBUF" using assms(3) by (simp add: hdr_ok_def)
    then have "card (dirty_blocks t) < NBUF" using card_length[of blks] by (simp add: d')
    moreover have "blks ! k \<in> dirty_blocks t" using k by (simp add: d')
    ultimately show "runs (bnd (gets (\<lambda>s. (lg_dev s, lg_start s))) (\<lambda>(dev, start).
       bnd (bread dev (start + of_nat k + 1)) (\<lambda>to.
       bnd (lh_block_at k) (\<lambda>src.
       bnd (bread dev src) (\<lambda>from.
       thn (modify (\<lambda>s. put_data to (buf_data s from) s)) (
       thn (bwrite to) (
       thn (brelse from) (
       brelse to)))))))) t (\<lambda>_. bl.copied (blks ! k) (?a k) t)"
      using copy_dst_log[OF t(1), of blks m k] assms(2,3) k by (simp only: eq simp_thms)
  next
    fix j k assume j: "j < ?n" and k: "k < ?n"
    show "blks ! k \<noteq> ?a j" using disj[OF j] nth_mem[OF k] by auto
  qed
  then show ?thesis using same[of ?n] by (simp add: assms(4))
qed

lemma head_loop_runs:
  fixes s :: "'x log_st_scheme"
  assumes "bl_inv s" and "holds_buf s b = Some n" and "lh_is s blks" and "length blks \<le> LOGSIZE"
    and "\<forall>x \<in> set xs. x < length blks"
  shows "runs (forM xs (\<lambda>i. bnd (lh_block_at i) (\<lambda>v.
       modify (\<lambda>s. put_data b (put32 (buf_data s b) (4 + 4 * i) v) s)))) s
    (\<lambda>_ s'. bl_inv s' \<and> rest_same s s' \<and> holds_buf s' = holds_buf s \<and> dirty_blocks s' = dirty_blocks s
      \<and> disk s' = disk s \<and> dwrites s' = dwrites s
      \<and> view s' = (view s)(n := foldl (\<lambda>d i. put32 d (4 + 4 * i) (blks ! i)) (view s n) xs))"
  using assms
proof (induction xs arbitrary: s)
  case (Cons x xs)
  let ?d = "put32 (buf_data s b) (4 + 4 * x) (blks ! x)"
  let ?s = "put_data b ?d s"
  have x: "lh_block_at x s = Ret (blks ! x) s"
    using Cons.prems by (intro lh_block_at_run) auto
  have "length ?d = BSIZE"
    using buf_data_law[OF Cons.prems(1,2)] view_length[OF Cons.prems(1)] by simp
  note p = put_data_law[OF Cons.prems(1,2) this]
  have "holds_buf ?s b = Some n" "lh_is ?s blks"
    using p(3) Cons.prems(2,3) rest_same_log(10)[OF p(4)] by simp_all
  note IH = Cons.IH[OF p(1) this]
  have "runs (forM xs (\<lambda>i. bnd (lh_block_at i) (\<lambda>v.
       modify (\<lambda>s. put_data b (put32 (buf_data s b) (4 + 4 * i) v) s)))) ?s
    (\<lambda>_ s'. bl_inv s' \<and> rest_same s s' \<and> holds_buf s' = holds_buf s \<and> dirty_blocks s' = dirty_blocks s
      \<and> disk s' = disk s \<and> dwrites s' = dwrites s
      \<and> view s' = (view s)(n := foldl (\<lambda>d i. put32 d (4 + 4 * i) (blks ! i)) ?d xs))"
  proof (rule runs_mono[OF IH])
    fix s' assume *: "bl_inv s' \<and> rest_same ?s s' \<and> holds_buf s' = holds_buf ?s
      \<and> dirty_blocks s' = dirty_blocks ?s \<and> disk s' = disk ?s \<and> dwrites s' = dwrites ?s
      \<and> view s' = (view ?s)(n := foldl (\<lambda>d i. put32 d (4 + 4 * i) (blks ! i)) (view ?s n) xs)"
    then have "rest_same s s'" using p(4) rest_same_trans by blast
    with * show "bl_inv s' \<and> rest_same s s' \<and> holds_buf s' = holds_buf s
      \<and> dirty_blocks s' = dirty_blocks s \<and> disk s' = disk s \<and> dwrites s' = dwrites s
      \<and> view s' = (view s)(n := foldl (\<lambda>d i. put32 d (4 + 4 * i) (blks ! i)) ?d xs)"
      by (simp add: p)
  qed (use Cons.prems in simp_all)
  then show ?case
    unfolding forM.simps runs_thn runs_bnd runs_Ret[of "lh_block_at x" s, OF x] runs_modify foldl.simps
      buf_data_law[OF Cons.prems(1,2)] .
qed simp

lemma write_head_runs:
  fixes s :: "'x log_st_scheme"
  assumes "log_ready s" and "lh_is s blks" and "length blks \<le> LOGSIZE" and "lg_start s < disksize s"
    and "card (dirty_blocks s) < NBUF" and "lg_start s \<notin> dirty_blocks s"
  defines "hb \<equiv> head_bytes blks (view s (lg_start s))"
  shows "runs write_head s (\<lambda>_ s'. log_ready s' \<and> rest_same s s'
    \<and> dirty_blocks s' = dirty_blocks s \<and> dwrites s' = dwrites s @ [(lg_start s, hb)]
    \<and> disk s' = (disk s)(lg_start s := hb) \<and> view s' = (view s)(lg_start s := hb))" (is "runs _ s ?Q")
proof -
  let ?st = "lg_start s" and ?n = "length blks"
  have s: "lg_dev s = 1" "bl_inv s" "holds_buf s = Map.empty" "nat (lh_n s) = ?n"
    using assms(1,2) by (auto simp: log_ready_def lh_is_def)
  let ?tl = "\<lambda>b. thn (modify (\<lambda>s. put_data b (put32 (buf_data s b) 0 (word_of_int (lh_n s))) s)) (
     bnd (gets lh_n) (\<lambda>n.
     thn (forM [0..<nat n] (\<lambda>i.
       bnd (lh_block_at i) (\<lambda>v.
       modify (\<lambda>s. put_data b (put32 (buf_data s b) (4 + 4 * i) v) s)))) (
     thn (bwrite b) (
     brelse b))))"
  have "runs (bread 1 ?st) s (\<lambda>b t. runs (?tl b) t ?Q)"
  proof (rule runs_mono[OF bl.read_law[OF s(2) assms(4)]], goal_cases)
    case (3 b t)
    then have t: "bl_inv t" "rest_same s t" "holds_buf t b = Some ?st" "holds_buf t = [b \<mapsto> ?st]"
        "view t = view s" "dirty_blocks t = dirty_blocks s" "disk t = disk s" "dwrites t = dwrites s"
      using s(3) by auto
    let ?d = "put32 (buf_data t b) 0 (word_of_int (lh_n t))"
    let ?u = "put_data b ?d t"
    have d: "?d = put32 (view s ?st) 0 (of_nat ?n)"
      using buf_data_law[OF t(1,3)] rest_same_log(4)[OF t(2)] assms(2) t(5) by (simp add: lh_is_def)
    have "length ?d = BSIZE" using view_length[OF s(2)] by (simp add: d)
    note p = put_data_law[OF t(1,3) this]
    have su: "rest_same s ?u" using t(2) p(4) by (rule rest_same_trans)
    have u: "holds_buf ?u b = Some ?st" "lh_is ?u blks" "nat (lh_n ?u) = ?n" "lg_dev ?u = 1"
      using p(3) t(3) rest_same_log[OF su] assms(2) s by simp_all
    have "runs (forM [0..<?n] (\<lambda>i. bnd (lh_block_at i) (\<lambda>v.
         modify (\<lambda>s. put_data b (put32 (buf_data s b) (4 + 4 * i) v) s)))) ?u
       (\<lambda>_ w. runs (thn (bwrite b) (brelse b)) w ?Q)"
    proof (rule runs_mono[OF head_loop_runs[OF p(1) u(1,2) assms(3)]])
      fix w :: "'x log_st_scheme"
      assume w: "bl_inv w \<and> rest_same ?u w \<and> holds_buf w = holds_buf ?u
        \<and> dirty_blocks w = dirty_blocks ?u \<and> disk w = disk ?u \<and> dwrites w = dwrites ?u
        \<and> view w = (view ?u)(?st := foldl (\<lambda>d i. put32 d (4 + 4 * i) (blks ! i)) (view ?u ?st) [0..<?n])"
      have vw: "view w = (view s)(?st := hb)"
        using w unfolding d by (simp add: p[unfolded d] t hb_def head_bytes_def)
      have w': "bl_inv w" "holds_buf w b = Some ?st" "rest_same s w"
        using w u(1) su rest_same_trans by auto
      show "runs (thn (bwrite b) (brelse b)) w ?Q"
        unfolding runs_thn
      proof (rule runs_mono[OF bl.write_law[OF w'(1,2)]])
        fix x :: "'x log_st_scheme"
        assume x: "bl_inv x \<and> rest_same w x \<and> holds_buf x = holds_buf w \<and> view x = view w
          \<and> dirty_blocks x = dirty_blocks w - {?st} \<and> disk x = (disk w)(?st := view w ?st)
          \<and> dwrites x = dwrites w @ [(?st, view w ?st)]"
        have sx: "rest_same s x" using w'(3) x rest_same_trans by blast
        show "runs (brelse b) x ?Q"
        proof (rule runs_mono[OF bl.release_law[of x b ?st]], goal_cases)
          case (4 _ y)
          then have sy: "rest_same s y" using sx rest_same_trans by blast
          have "holds_buf w = [b \<mapsto> ?st]" "disk w = disk s" "dwrites w = dwrites s"
              "dirty_blocks w = dirty_blocks s"
            using w by (simp_all only: p t)
          then have "holds_buf y = Map.empty" "disk y = (disk s)(?st := hb)"
              "dwrites y = dwrites s @ [(?st, hb)]" "dirty_blocks y = dirty_blocks s"
              "view y = (view s)(?st := hb)"
            using 4 x vw assms(6) by auto
          moreover have "lg_dev y = 1" using s(1) rest_same_log(1)[OF sy] by simp
          ultimately show ?case using 4 sy by (simp add: log_ready_def)
        qed (use x w'(2) in auto)
      qed
    qed simp
    then show ?case using u(3) by simp
  qed (use s assms(5) in auto)
  then show ?thesis using s(1) by (simp add: write_head_def)
qed

definition hdr_is :: "block \<Rightarrow> uint list \<Rightarrow> bool" where
  "hdr_is d blks \<longleftrightarrow> length blks \<le> LOGSIZE \<and> get32 d 0 = of_nat (length blks)
     \<and> (\<forall>i < length blks. get32 d (4 + 4 * i) = blks ! i)"

lemma set_lh_loop:
  assumes "n \<le> LOGSIZE" and "length (lh_block s) = LOGSIZE"
  shows "forM [0..<n] (\<lambda>i. set_lh_block i (g i)) s
    = Ret () (s\<lparr>lh_block := map g [0..<n] @ drop n (lh_block s)\<rparr>)"
proof -
  let ?I = "\<lambda>k s'. s' = s\<lparr>lh_block := map g [0..<k] @ drop k (lh_block s)\<rparr>"
  have "runs (forM [0..<n] (\<lambda>i. set_lh_block i (g i))) s (\<lambda>_. ?I n)"
  proof (rule runs_forM_upt[where I = ?I])
    fix k t assume k: "k < n" and t: "?I k t"
    have "drop k (lh_block s) = lh_block s ! k # drop (Suc k) (lh_block s)"
      using k assms by (intro Cons_nth_drop_Suc[symmetric]) simp
    then have "(map g [0..<k] @ drop k (lh_block s))[k := g k] = map g [0..<Suc k] @ drop (Suc k) (lh_block s)"
      by (simp add: list_update_append)
    then show "runs (set_lh_block k (g k)) t (\<lambda>_. ?I (Suc k))"
      using k assms t by (simp add: set_lh_block_def)
  qed simp_all
  then show ?thesis by (auto simp: runs_iff)
qed

lemma read_head_runs:
  fixes s :: "'x log_st_scheme"
  assumes "log_ready s" and "lg_start s < disksize s" and "card (dirty_blocks s) < NBUF"
    and "lg_start s \<notin> dirty_blocks s" and "length (lh_block s) = LOGSIZE"
    and "hdr_is (view s (lg_start s)) blks"
  shows "runs read_head s (\<lambda>_ s'. log_ready s' \<and> lh_is s' blks \<and> dirty_blocks s' = dirty_blocks s
    \<and> disk s' = disk s \<and> dwrites s' = dwrites s \<and> view s' = view s
    \<and> lg_start s' = lg_start s \<and> lg_size s' = lg_size s \<and> disksize s' = disksize s
    \<and> lg_outstanding s' = lg_outstanding s \<and> held s' = held s)"
    (is "runs _ s ?Q")
proof -
  let ?st = "lg_start s" and ?n = "length blks"
  have s: "lg_dev s = 1" "bl_inv s" "holds_buf s = Map.empty"
    using assms(1) by (auto simp: log_ready_def)
  have h: "?n \<le> LOGSIZE" "sint (get32 (view s ?st) 0) = int ?n"
      "map (\<lambda>i. get32 (view s ?st) (4 + 4 * i)) [0..<?n] = blks"
    using assms(6) by (auto simp: hdr_is_def sint_small intro: nth_equalityI)
  let ?tl = "\<lambda>b. bnd (gets (\<lambda>s. buf_data s b)) (\<lambda>d.
     thn (modify (\<lambda>s. s\<lparr>lh_n := sint (get32 d 0)\<rparr>)) (
     bnd (gets lh_n) (\<lambda>n.
     thn (forM [0..<nat n] (\<lambda>i. set_lh_block i (get32 d (4 + 4 * i)))) (
     brelse b))))"
  have "runs (bread 1 ?st) s (\<lambda>b t. runs (?tl b) t ?Q)"
  proof (rule runs_mono[OF bl.read_law[OF s(2) assms(2)]], goal_cases)
    case (3 b t)
    then have t: "bl_inv t" "rest_same s t" "holds_buf t b = Some ?st" "holds_buf t = [b \<mapsto> ?st]"
        "view t = view s" "dirty_blocks t = dirty_blocks s" "disk t = disk s" "dwrites t = dwrites s"
      using s(3) by auto
    note eq = rest_same_log[OF t(2)]
    let ?u = "t\<lparr>lh_n := int ?n, lh_block := blks @ drop ?n (lh_block s)\<rparr>"
    have d: "buf_data t b = view s ?st" using buf_data_law[OF t(1,3)] t(5) by simp
    have f: "forM [0..<?n] (\<lambda>i. set_lh_block i (get32 (view s ?st) (4 + 4 * i))) (t\<lparr>lh_n := int ?n\<rparr>)
        = Ret () ?u"
      using set_lh_loop[OF h(1), of "t\<lparr>lh_n := int ?n\<rparr>" "\<lambda>i. get32 (view s ?st) (4 + 4 * i)"]
        assms(5) eq(5) by (simp add: h(3))
    have "runs (brelse b) ?u ?Q"
    proof (rule runs_mono[OF bl.release_law[of ?u b ?st]], goal_cases)
      case 3
      then show ?case using bl.clean_law[OF s(2), of ?st] assms(4) s(3) t by simp
    next
      case (4 _ y)
      then have y: "bl_inv y" "rest_same ?u y" "holds_buf y = Map.empty" "view y = view s"
          "dirty_blocks y = dirty_blocks s" "disk y = disk s" "dwrites y = dwrites s"
        using t by simp_all
      show ?case using y rest_same_log[OF y(2)] eq s(1) h(1) assms(5)
        by (simp add: log_ready_def lh_is_def)
    qed (use t in simp_all)
    then have "runs (forM [0..<?n] (\<lambda>i. set_lh_block i (get32 (view s ?st) (4 + 4 * i))))
        (t\<lparr>lh_n := int ?n\<rparr>) (\<lambda>_ u. runs (brelse b) u ?Q)"
      unfolding runs_def[of "forM _ _"] f by simp
    then show ?case by (simp add: d h(2))
  qed (use s assms(3) in auto)
  then show ?thesis using s(1) by (simp add: read_head_def)
qed

lemma lh_n_zero: "length (lh_block s) = LOGSIZE \<Longrightarrow> lh_is (s\<lparr>lh_n := 0\<rparr>) []"
  by (simp add: lh_is_def)

definition recover_ws :: "uint \<Rightarrow> uint list \<Rightarrow> (uint \<Rightarrow> block) \<Rightarrow> (uint \<times> block) list" where
  "recover_ws st blks d = install_ws st blks d @ [(st, head_bytes [] (d st))]"

definition commit_ws :: "uint \<Rightarrow> uint list \<Rightarrow> (uint \<Rightarrow> block) \<Rightarrow> (uint \<times> block) list" where
  "commit_ws st blks v = log_ws st blks v @ (st, head_bytes blks (v st)) # map (\<lambda>b. (b, v b)) blks
     @ [(st, head_bytes [] (head_bytes blks (v st)))]"

lemma hdr_ok_head:
  assumes "hdr_ok st m sz blks"
  shows "st < sz" and "st \<notin> set blks" and "length blks \<le> LOGSIZE" and "length blks < NBUF"
  using assms region_head[of m st] by (auto simp: hdr_ok_def)

lemma clean_view: "log_ready s \<Longrightarrow> dirty_blocks s = {} \<Longrightarrow> view s = disk s"
  using bl.clean_law[of s] by (auto simp: log_ready_def)

lemma recover_runs:
  fixes s :: "'x log_st_scheme"
  assumes "log_ready s" and "dirty_blocks s = {}" and "length (lh_block s) = LOGSIZE"
    and "hdr_ok (lg_start s) m (disksize s) blks" and "hdr_is (disk s (lg_start s)) blks"
  shows "runs recover_from_log s (\<lambda>_ s'. log_ready s' \<and> dirty_blocks s' = {} \<and> lh_n s' = 0
    \<and> length (lh_block s') = LOGSIZE \<and> lg_start s' = lg_start s \<and> lg_size s' = lg_size s
    \<and> disksize s' = disksize s \<and> dwrites s' = dwrites s @ recover_ws (lg_start s) blks (disk s)
    \<and> disk s' = apply_ws (disk s) (recover_ws (lg_start s) blks (disk s)))"
proof -
  let ?st = "lg_start s"
  note st = hdr_ok_head[OF assms(4)]
  have v: "view s = disk s" by (rule clean_view[OF assms(1,2)])
  have iws: "?st \<notin> fst ` set (install_ws ?st blks (disk s))"
    using st(2) ws_fst(1)[of ?st blks "disk s"] by (metis image_set)
  have "runs read_head s (\<lambda>_ t. log_ready t \<and> lh_is t blks \<and> dirty_blocks t = {} \<and> disk t = disk s
    \<and> dwrites t = dwrites s \<and> view t = disk s \<and> lg_start t = ?st \<and> lg_size t = lg_size s
    \<and> disksize t = disksize s)"
    by (rule runs_mono[OF read_head_runs[OF assms(1) st(1)]]) (use assms v in auto)
  then show ?thesis
    unfolding recover_from_log_def runs_thn
  proof (rule runs_mono, elim conjE)
    fix t :: "'x log_st_scheme"
    assume t: "log_ready t" "lh_is t blks" "dirty_blocks t = {}" "disk t = disk s"
      "dwrites t = dwrites s" "view t = disk s" "lg_start t = ?st" "lg_size t = lg_size s"
      "disksize t = disksize s"
    have "hdr_ok (lg_start t) m (disksize t) blks" using assms(4) t by simp
    note inst = install_trans_runs[OF t(1,2) this]
    show "runs install_trans t (\<lambda>_ s'. runs (modify (\<lambda>s. s\<lparr>lh_n := 0\<rparr>)) s' (\<lambda>_ s'. runs write_head s'
      (\<lambda>_ s'. log_ready s' \<and> dirty_blocks s' = {} \<and> lh_n s' = 0
      \<and> length (lh_block s') = LOGSIZE \<and> lg_start s' = ?st \<and> lg_size s' = lg_size s
      \<and> disksize s' = disksize s \<and> dwrites s' = dwrites s @ recover_ws ?st blks (disk s)
      \<and> disk s' = apply_ws (disk s) (recover_ws ?st blks (disk s)))))"
    proof (rule runs_mono[OF inst], goal_cases)
      case (3 _ u)
      then have u: "log_ready u" "rest_same t u" "dirty_blocks u = {}"
          "dwrites u = dwrites s @ install_ws ?st blks (disk s)"
          "disk u = apply_ws (disk s) (install_ws ?st blks (disk s))"
          "view u = apply_ws (disk s) (install_ws ?st blks (disk s))"
        using t by simp_all
      note eq = rest_same_log[OF u(2)]
      let ?w = "u\<lparr>lh_n := 0\<rparr>"
      have lb: "length (lh_block u) = LOGSIZE" using eq(5) t(2) by (simp add: lh_is_def)
      have w: "log_ready ?w" "lh_is ?w []" "lg_start ?w = ?st" "disksize ?w = disksize s"
        using u(1) lh_n_zero[OF lb] eq t by (simp_all add: log_ready_def)
      have vst: "view ?w ?st = disk s ?st" using u(6) iws by (simp add: apply_ws_other)
      have "runs write_head ?w (\<lambda>_ s'. log_ready s' \<and> rest_same ?w s' \<and> dirty_blocks s' = {}
          \<and> dwrites s' = dwrites s @ recover_ws ?st blks (disk s)
          \<and> disk s' = apply_ws (disk s) (recover_ws ?st blks (disk s)))"
        by (rule runs_mono[OF write_head_runs[OF w(1,2)]])
          (use u w(3,4) st(1) vst in \<open>auto simp: recover_ws_def\<close>)
      then have "runs write_head ?w (\<lambda>_ s'. log_ready s' \<and> dirty_blocks s' = {} \<and> lh_n s' = 0
          \<and> length (lh_block s') = LOGSIZE \<and> lg_start s' = ?st \<and> lg_size s' = lg_size s
          \<and> disksize s' = disksize s \<and> dwrites s' = dwrites s @ recover_ws ?st blks (disk s)
          \<and> disk s' = apply_ws (disk s) (recover_ws ?st blks (disk s)))"
      proof (rule runs_mono, elim conjE)
        fix s' :: "'x log_st_scheme" assume s': "log_ready s'" "rest_same ?w s'" "dirty_blocks s' = {}"
          "dwrites s' = dwrites s @ recover_ws ?st blks (disk s)"
          "disk s' = apply_ws (disk s) (recover_ws ?st blks (disk s))"
        then show "log_ready s' \<and> dirty_blocks s' = {} \<and> lh_n s' = 0
          \<and> length (lh_block s') = LOGSIZE \<and> lg_start s' = ?st \<and> lg_size s' = lg_size s
          \<and> disksize s' = disksize s \<and> dwrites s' = dwrites s @ recover_ws ?st blks (disk s)
          \<and> disk s' = apply_ws (disk s) (recover_ws ?st blks (disk s))"
          using rest_same_log[OF s'(2)] lb eq t w by simp
      qed
      then show ?case by simp
    qed (use t in simp_all)
  qed
qed

lemma log_ws_at:
  assumes "hdr_ok st m sz blks" and "k < length blks"
  shows "apply_ws d (log_ws st blks v) (st + of_nat k + 1) = v (blks ! k)"
proof (rule apply_ws_in)
  have "inj_on (\<lambda>k. st + of_nat k + 1) {0..<length blks}"
    using log_block_inj(1)[of _ _ st] hdr_ok_head(3)[OF assms(1)] by (auto simp: inj_on_def)
  then show "distinct (map fst (log_ws st blks v))" by (simp add: ws_fst distinct_map)
qed (use assms(2) in \<open>auto simp: log_ws_def\<close>)

lemma log_ws_other:
  assumes "hdr_ok st m sz blks" and "b \<notin> region st m \<or> b = st"
  shows "apply_ws d (take k (log_ws st blks v)) b = d b"
proof (rule apply_ws_other)
  have "b \<noteq> st + of_nat i + 1" if "i < length blks" for i
    using hdr_ok_log_block(1)[OF assms(1) that] log_block_inj(2)[of i i st] assms(2)
      hdr_ok_head(3)[OF assms(1)] that by auto
  then have "b \<notin> fst ` set (log_ws st blks v)"
    unfolding log_ws_def set_map image_image fst_conv image_iff set_upt by fastforce
  then show "b \<notin> fst ` set (take k (log_ws st blks v))"
    using set_take_subset[of k] by fastforce
qed

lemma install_after_log:
  assumes "hdr_ok st m sz blks"
    and "\<And>k. k < length blks \<Longrightarrow> d (st + of_nat k + 1) = v (blks ! k)"
  shows "install_ws st blks d = map (\<lambda>b. (b, v b)) blks"
  using assms(2) by (auto simp: install_ws_def intro: nth_equalityI)

lemma commit_runs:
  fixes s :: "'x log_st_scheme"
  assumes "log_ready s" and "lh_is s blks" and "hdr_ok (lg_start s) m (disksize s) blks"
    and "dirty_blocks s = set blks" and "blks \<noteq> []"
  defines "ws \<equiv> commit_ws (lg_start s) blks (view s)"
  shows "runs commit s (\<lambda>_ s'. log_ready s' \<and> dirty_blocks s' = {} \<and> lh_n s' = 0
    \<and> length (lh_block s') = LOGSIZE \<and> lg_start s' = lg_start s \<and> lg_size s' = lg_size s
    \<and> lg_outstanding s' = lg_outstanding s \<and> lg_committing s' = lg_committing s
    \<and> disksize s' = disksize s \<and> held s' = held s
    \<and> dwrites s' = dwrites s @ ws \<and> disk s' = apply_ws (disk s) ws)" (is "runs _ s ?Q")
proof -
  let ?st = "lg_start s" and ?v = "view s"
  note st = hdr_ok_head[OF assms(3)]
  have card: "card (set blks) < NBUF" using card_length[of blks] st(4) by simp
  define d1 where "d1 = log_ws ?st blks ?v"
  define hb where "hb = head_bytes blks (?v ?st)"
  define d2 where "d2 = map (\<lambda>b. (b, ?v b)) blks"
  have ws: "ws = d1 @ (?st, hb) # d2 @ [(?st, head_bytes [] hb)]"
    by (simp add: ws_def commit_ws_def d1_def hb_def d2_def)
  have v1: "apply_ws ?v d1 ?st = ?v ?st"
    using log_ws_other[OF assms(3), of ?st ?v "length blks" ?v] by (simp add: d1_def ws_fst)
  have d2: "install_ws ?st blks ((apply_ws ?v d1)(?st := hb)) = d2"
    unfolding d2_def
  proof (rule install_after_log[OF assms(3)])
    fix k assume k: "k < length blks"
    then have "?st + of_nat k + 1 \<noteq> ?st" using st(3) by (intro log_block_inj(2)[of k k]) simp_all
    then show "((apply_ws ?v d1)(?st := hb)) (?st + of_nat k + 1) = ?v (blks ! k)"
      using log_ws_at[OF assms(3) k, of ?v ?v] by (simp only: d1_def fun_upd_apply if_False)
  qed
  have st2: "?st \<notin> fst ` set d2" using st(2) by (auto simp: d2_def)
  have "runs write_log s (\<lambda>_ t. runs write_head t (\<lambda>_ t. runs install_trans t (\<lambda>_ t.
      runs write_head (t\<lparr>lh_n := 0\<rparr>) ?Q)))"
  proof (rule runs_mono[OF write_log_runs[OF assms(1-4)]], elim conjE)
    fix t assume t: "log_ready t" "rest_same s t" "dirty_blocks t = set blks"
      "dwrites t = dwrites s @ log_ws ?st blks ?v" "disk t = apply_ws (disk s) (log_ws ?st blks ?v)"
      "view t = apply_ws ?v (log_ws ?st blks ?v)"
    note et = rest_same_log[OF t(2)]
    have lt: "lh_is t blks" using et assms(2) by simp
    show "runs write_head t (\<lambda>_ t. runs install_trans t (\<lambda>_ t. runs write_head (t\<lparr>lh_n := 0\<rparr>) ?Q))"
    proof (rule runs_mono[OF write_head_runs[OF t(1) lt st(3)]], goal_cases)
      case (4 _ u)
      then have u: "log_ready u" "rest_same t u" "dirty_blocks u = set blks"
          "dwrites u = dwrites s @ d1 @ [(?st, hb)]" "disk u = apply_ws (disk s) (d1 @ [(?st, hb)])"
          "view u = (apply_ws ?v d1)(?st := hb)"
        using t et v1 by (simp_all add: d1_def hb_def)
      have su: "rest_same s u" using t(2) u(2) by (rule rest_same_trans)
      note eu = rest_same_log[OF su]
      have lu: "lh_is u blks" "hdr_ok (lg_start u) m (disksize u) blks"
          "card (dirty_blocks u) < NBUF" "set blks \<subseteq> dirty_blocks u"
        using eu assms(2,3) card u by simp_all
      show ?case
      proof (rule runs_mono[OF install_trans_runs[OF u(1) lu(1-3) disjI1[OF lu(4)]]], elim conjE)
        fix w assume w: "log_ready w" "rest_same u w" "dirty_blocks w = dirty_blocks u - set blks"
          "dwrites w = dwrites u @ install_ws (lg_start u) blks (view u)"
          "disk w = apply_ws (disk u) (install_ws (lg_start u) blks (view u))"
          "view w = apply_ws (view u) (install_ws (lg_start u) blks (view u))"
        have sw: "rest_same s w" using su w(2) by (rule rest_same_trans)
        note ew = rest_same_log[OF sw]
        have w': "dirty_blocks w = {}" "dwrites w = dwrites s @ d1 @ (?st, hb) # d2"
            "disk w = apply_ws (disk s) (d1 @ (?st, hb) # d2)" "view w ?st = hb"
          using w u eu d2 st2 apply_ws_append[of "disk s" "d1 @ [(?st, hb)]" d2]
          by (simp_all add: apply_ws_other)
        let ?w = "w\<lparr>lh_n := 0\<rparr>"
        have lb: "length (lh_block w) = LOGSIZE" using ew(5) assms(2) by (simp add: lh_is_def)
        have r: "log_ready ?w" "lh_is ?w []" using w(1) lh_n_zero[OF lb] by (simp_all add: log_ready_def)
        show "runs write_head ?w ?Q"
        proof (rule runs_mono[OF write_head_runs[OF r]], goal_cases)
          case (5 _ s')
          then have s': "log_ready s'" "rest_same ?w s'" "dirty_blocks s' = {}"
              "dwrites s' = dwrites s @ ws" "disk s' = apply_ws (disk s) ws"
            using w' ew ws apply_ws_append[of "disk s" "d1 @ (?st, hb) # d2" "[(?st, head_bytes [] hb)]"]
            by simp_all
          show ?case using s' rest_same_log[OF s'(2)] lb ew by simp
        qed (use w' ew st(1) in simp_all)
      qed
    qed (use t et card st in simp_all)
  qed
  moreover have "0 < lh_n s" using assms(2,5) by (simp add: lh_is_def)
  ultimately show ?thesis by (simp add: commit_def)
qed

section \<open>Crashes\<close>

text \<open>
  The blocks the header of a disk image names, and the image recovery is meant to produce:
  the logged blocks copied to their homes.
\<close>

definition hdr_blocks :: "uint \<Rightarrow> (uint \<Rightarrow> block) \<Rightarrow> uint list" where
  "hdr_blocks st d = get_words (d st) 4 (nat (sint (get32 (d st) 0)))"

definition replay :: "uint \<Rightarrow> (uint \<Rightarrow> block) \<Rightarrow> uint \<Rightarrow> block" where
  "replay st d = apply_ws d (install_ws st (hdr_blocks st d) d)"

lemma hdr_is_blocks: "hdr_is (d st) blks \<Longrightarrow> hdr_blocks st d = blks"
  by (auto simp: hdr_is_def hdr_blocks_def get_words_def sint_small intro: nth_equalityI)

lemma hdr_is_head:
  "length d = BSIZE \<Longrightarrow> length blks \<le> LOGSIZE \<Longrightarrow> hdr_is (head_bytes blks d) blks"
  using head_bytes_props[of d blks] by (simp add: hdr_is_def)

lemma replay_empty: "hdr_is (d st) [] \<Longrightarrow> replay st d = d"
  using hdr_is_blocks[of d st "[]"] by (simp add: replay_def install_ws_def)

lemma replay_logged:
  assumes "hdr_ok st m sz blks" and "hdr_is (d st) blks"
    and "\<And>k. k < length blks \<Longrightarrow> d (st + of_nat k + 1) = v (blks ! k)"
  shows "replay st d b = (if b \<in> set blks then v b else d b)"
proof -
  have ws: "install_ws st blks d = map (\<lambda>b. (b, v b)) blks"
    by (rule install_after_log[OF assms(1)]) (rule assms(3))
  have "apply_ws d (map (\<lambda>b. (b, v b)) blks) b = (if b \<in> set blks then v b else d b)"
  proof (cases "b \<in> set blks")
    case True
    then show ?thesis
      using apply_ws_in[of "map (\<lambda>b. (b, v b)) blks" b "v b" d] assms(1)
      by (simp add: hdr_ok_def comp_def)
  next
    case False
    then show ?thesis using apply_ws_other[of b "map (\<lambda>b. (b, v b)) blks" d] by (simp add: image_image)
  qed
  then show ?thesis by (simp add: replay_def hdr_is_blocks[of d st blks, OF assms(2)] ws)
qed

lemma apply_home:
  assumes "b \<notin> set blks"
  shows "apply_ws d (take j (map (\<lambda>b. (b, v b)) blks)) b = d b"
  using assms set_take_subset[of j blks] by (intro apply_ws_other) (auto simp: take_map)

lemma apply_home_all:
  assumes "distinct blks" and "b \<in> set blks"
  shows "apply_ws d (map (\<lambda>b. (b, v b)) blks) b = v b"
  using assms by (intro apply_ws_in) (auto simp: comp_def)

text \<open>
  The three phases of a commit: up to the write of the header, which is write number
  \<open>length blks\<close>, the image still replays to the old contents, from then on to the new ones.
\<close>

lemma commit_prefix:
  assumes ok: "hdr_ok st m sz blks" and old: "hdr_is (d st) []" and len: "length (v st) = BSIZE"
    and clean: "\<And>b. b \<notin> set blks \<Longrightarrow> b \<notin> region st m \<Longrightarrow> d b = v b"
  defines "d' \<equiv> \<lambda>k. apply_ws d (take k (commit_ws st blks v))"
  shows "(hdr_is (d' k st) blks \<or> hdr_is (d' k st) []) \<and>
    (\<forall>b. b \<notin> region st m \<longrightarrow> replay st (d' k) b = (if k \<le> length blks then d b else v b))"
proof -
  let ?n = "length blks" and ?hb = "head_bytes blks (v st)"
  let ?home = "map (\<lambda>b. (b, v b)) blks"
  note st = hdr_ok_head[OF ok]
  have hb: "hdr_is ?hb blks" "length ?hb = BSIZE"
    using hdr_is_head[OF len st(3)] head_bytes_props(1)[OF len st(3)] by simp_all
  have reg: "b \<notin> region st m \<Longrightarrow> b \<noteq> st" for b using region_head[of m st] ok by (auto simp: hdr_ok_def)
  consider "k \<le> ?n" | "?n < k" "k \<le> 2 * ?n + 1" | "2 * ?n + 1 < k" by linarith
  then show ?thesis
  proof cases
    case 1
    have e: "d' k = apply_ws d (take k (log_ws st blks v))"
      using 1 by (simp add: d'_def commit_ws_def ws_fst)
    have "hdr_is (d' k st) []" using old log_ws_other[OF ok, of st d k v] by (simp add: e)
    moreover have "d' k b = d b" if "b \<notin> region st m" for b
      using log_ws_other[OF ok, of b d k v] that by (simp add: e)
    ultimately show ?thesis using replay_empty[of "d' k" st] 1 by simp
  next
    case 2
    define j where "j = k - ?n - 1"
    then have k: "k = ?n + Suc j" "j \<le> ?n" using 2 by simp_all
    have e: "d' k = apply_ws ((apply_ws d (log_ws st blks v))(st := ?hb)) (take j ?home)"
      using k by (simp add: d'_def commit_ws_def ws_fst apply_ws_append apply_ws_def)
    have eb: "d' k b = ((apply_ws d (log_ws st blks v))(st := ?hb)) b" if "b \<notin> set blks" for b
      unfolding e by (rule apply_home[OF that])
    have h: "hdr_is (d' k st) blks" using eb[OF st(2)] hb by simp
    have l: "d' k (st + of_nat i + 1) = v (blks ! i)" if i: "i < ?n" for i
    proof -
      have "st + of_nat i + 1 \<noteq> st" using i st(3) by (intro log_block_inj(2)[of i i]) simp_all
      then show ?thesis
        using eb[OF hdr_ok_log_block(6)[OF ok i]] log_ws_at[OF ok i, of d v] by (simp only: fun_upd_apply if_False)
    qed
    have "replay st (d' k) b = v b" if b: "b \<notin> region st m" for b
    proof (cases "b \<in> set blks")
      case False
      have "apply_ws d (log_ws st blks v) b = d b"
        using log_ws_other[OF ok, of b d ?n v] b by (simp add: ws_fst)
      then show ?thesis
        using replay_logged[OF ok h l, of b] False eb[OF False] reg[OF b] clean[OF False b] by simp
    qed (use replay_logged[OF ok h l, of b] in simp)
    then show ?thesis using h 2 by simp
  next
    case 3
    have e: "d' k = (apply_ws ((apply_ws d (log_ws st blks v))(st := ?hb)) ?home)(st := head_bytes [] ?hb)"
      using 3 by (simp add: d'_def commit_ws_def ws_fst apply_ws_append apply_ws_def)
    have h: "hdr_is (d' k st) []" using hdr_is_head[OF hb(2), of "[]"] by (simp add: e)
    have "d' k b = v b" if b: "b \<notin> region st m" for b
    proof (cases "b \<in> set blks")
      case True
      then show ?thesis using apply_home_all[of blks b] ok reg[OF b] by (simp add: e hdr_ok_def)
    next
      case False
      have "apply_ws d (log_ws st blks v) b = d b"
        using log_ws_other[OF ok, of b d ?n v] b by (simp add: ws_fst)
      then show ?thesis
        using apply_home[OF False, of _ ?n v] reg[OF b] clean[OF False b] by (simp add: e)
    qed
    then show ?thesis using h replay_empty[of "d' k" st] 3 by simp
  qed
qed

lemma recover_prefix:
  assumes ok: "hdr_ok st m sz blks" and hd: "hdr_is (d st) blks" and len: "length (d st) = BSIZE"
  defines "d' \<equiv> \<lambda>k. apply_ws d (take k (recover_ws st blks d))"
  shows "b \<notin> region st m \<Longrightarrow> replay st (d' k) b = replay st d b"
    and "hdr_is (d' k st) (if k \<le> length blks then blks else [])"
proof -
  let ?n = "length blks"
  note st = hdr_ok_head[OF ok]
  define v where "v = (\<lambda>b. d (st + of_nat (LEAST i. i < ?n \<and> blks ! i = b) + 1))"
  have v: "d (st + of_nat k + 1) = v (blks ! k)" if k: "k < ?n" for k
  proof -
    have "(LEAST i. i < ?n \<and> blks ! i = blks ! k) = k"
      using k ok by (intro Least_equality) (auto simp: hdr_ok_def nth_eq_iff_index_eq)
    then show ?thesis by (simp add: v_def)
  qed
  have iw: "install_ws st blks d = map (\<lambda>b. (b, v b)) blks"
    by (rule install_after_log[OF ok]) (rule v)
  have old: "replay st d b = (if b \<in> set blks then v b else d b)"
    by (rule replay_logged[OF ok hd v])
  have bst: "b \<noteq> st" if "b \<notin> region st m" using region_head[of m st] ok that by (auto simp: hdr_ok_def)
  have "(b \<notin> region st m \<longrightarrow> replay st (d' k) b = replay st d b) \<and> hdr_is (d' k st) (if k \<le> ?n then blks else [])"
  proof (cases "k \<le> ?n")
    case True
    then have e: "d' k = apply_ws d (take k (map (\<lambda>b. (b, v b)) blks))"
      by (simp add: d'_def recover_ws_def iw)
    have h: "hdr_is (d' k st) blks" using hd apply_home[OF st(2), of d k v] by (simp add: e)
    have l: "d' k (st + of_nat i + 1) = v (blks ! i)" if i: "i < ?n" for i
      using apply_home[OF hdr_ok_log_block(6)[OF ok i], of d k v] v[OF i] by (simp add: e)
    show ?thesis
      using replay_logged[OF ok h l, of b] old apply_home[of b blks d k v] h True by (auto simp: e)
  next
    case False
    then have e: "d' k = (apply_ws d (map (\<lambda>b. (b, v b)) blks))(st := head_bytes [] (d st))"
      by (simp add: d'_def recover_ws_def iw)
    have h: "hdr_is (d' k st) []" using hdr_is_head[OF len, of "[]"] by (simp add: e)
    have "d' k b = (if b \<in> set blks then v b else d b)" if "b \<notin> region st m"
      using that apply_home_all[of blks b d v] apply_home[of b blks d ?n v] ok bst by (simp add: e hdr_ok_def)
    then show ?thesis using replay_empty[of "d' k" st] h old False by simp
  qed
  then show "b \<notin> region st m \<Longrightarrow> replay st (d' k) b = replay st d b" "hdr_is (d' k st) (if k \<le> length blks then blks else [])"
    by simp_all
qed

text \<open>
  A crash while a routine runs: the disk has received the first \<open>k\<close> of the writes the
  routine makes, and everything in memory is lost.  A state a machine boots into on an image
  \<open>d\<close> has an empty cache.
\<close>

definition crash_disk :: "('x log_st_scheme, unit) kernel \<Rightarrow> 'x log_st_scheme \<Rightarrow> nat \<Rightarrow> uint \<Rightarrow> block" where
  "crash_disk m s k = (case m s of
      Ret a s' \<Rightarrow> apply_ws (disk s) (take k (drop (length (dwrites s)) (dwrites s')))
    | _ \<Rightarrow> disk s)"

definition booted :: "uint \<Rightarrow> uint \<Rightarrow> (uint \<Rightarrow> block) \<Rightarrow> 'x log_st_scheme \<Rightarrow> bool" where
  "booted st sz d t \<longleftrightarrow> log_ready t \<and> dirty_blocks t = {} \<and> length (lh_block t) = LOGSIZE
     \<and> lg_start t = st \<and> disksize t = sz \<and> disk t = d"

text \<open>The images that any number of boots, each cut off during recovery, leave behind.\<close>

inductive reboots :: "'x log_st_scheme itself \<Rightarrow> uint \<Rightarrow> uint \<Rightarrow> (uint \<Rightarrow> block) \<Rightarrow> (uint \<Rightarrow> block) \<Rightarrow> bool"
  for T st sz d where
  none: "reboots T st sz d d"
| again: "reboots T st sz d d' \<Longrightarrow> booted st sz d' (t :: 'x log_st_scheme)
    \<Longrightarrow> reboots T st sz d (crash_disk recover_from_log t k)"

lemma crash_recover:
  assumes "booted st sz d t" and "hdr_ok st m sz blks" and "hdr_is (d st) blks"
  shows "crash_disk recover_from_log t k = apply_ws d (take k (recover_ws st blks d))"
  using recover_runs[of t m blks] assms by (auto simp: booted_def crash_disk_def runs_def split: outcome.splits)

lemma booted_length: "booted st sz d t \<Longrightarrow> length (d b) = BSIZE"
  by (auto simp: booted_def log_ready_def bl_inv_def)

lemma recovered:
  fixes t :: "'x log_st_scheme"
  assumes "booted st sz d t" and "hdr_ok st m sz blks" and "hdr_is (d st) blks"
  shows "runs recover_from_log t (\<lambda>_ t'. booted st sz (disk t') t' \<and> hdr_is (disk t' st) []
    \<and> (\<forall>b. b \<notin> region st m \<longrightarrow> disk t' b = replay st d b))"
proof -
  let ?d = "apply_ws d (recover_ws st blks d)"
  have n: "length (recover_ws st blks d) = Suc (length blks)" by (simp add: recover_ws_def ws_fst)
  note len = booted_length[OF assms(1), of st]
  have st: "st \<in> region st m" using assms(2) by (auto simp: hdr_ok_def intro: region_head)
  have p: "replay st ?d b = replay st d b" if "b \<notin> region st m" for b
    using recover_prefix(1)[where d = d, OF assms(2,3) len that, of "Suc (length blks)"] n by simp
  have h: "hdr_is (?d st) []"
    using hdr_is_head[OF len, of "[]"] by (simp add: recover_ws_def)
  have "replay st d b = ?d b" if "b \<notin> region st m" for b
    using p[OF that] replay_empty[of ?d st] h by simp
  then show ?thesis
    using runs_mono[OF recover_runs[of t m blks]] assms h by (auto simp: booted_def)
qed

lemma reboots_inv:
  assumes "reboots T st sz d d'" and "hdr_ok st m sz blks" and "hdr_is (d st) blks \<or> hdr_is (d st) []"
  shows "(hdr_is (d' st) blks \<or> hdr_is (d' st) []) \<and> (\<forall>b. b \<notin> region st m \<longrightarrow> replay st d' b = replay st d b)"
  using assms(1)
proof (induction rule: reboots.induct)
  case none
  then show ?case using assms(3) by simp
next
  case (again d' t k)
  then obtain bl where bl: "hdr_is (d' st) bl" "bl = blks \<or> bl = []" by blast
  have ok: "hdr_ok st m sz bl" using bl(2) assms(2) by (auto simp: hdr_ok_def)
  note len = booted_length[OF again.hyps(2), of st]
  note c = crash_recover[OF again.hyps(2) ok bl(1), of k]
  have "hdr_is (crash_disk recover_from_log t k st) (if k \<le> length bl then bl else [])"
    using recover_prefix(2)[where d = d', OF ok bl(1) len, of k] by (simp only: c)
  moreover have "replay st (crash_disk recover_from_log t k) b = replay st d b" if "b \<notin> region st m" for b
    using recover_prefix(1)[where d = d', OF ok bl(1) len that, of k] again.IH that by (auto simp: c)
  ultimately show ?case using bl(2) by (auto split: if_splits)
qed

lemma crash_commit:
  assumes "log_ready s" and "lh_is s blks" and "hdr_ok (lg_start s) m (disksize s) blks"
    and "dirty_blocks s = set blks" and "blks \<noteq> []"
  shows "crash_disk commit s k = apply_ws (disk s) (take k (commit_ws (lg_start s) blks (view s)))"
  using commit_runs[OF assms] by (auto simp: crash_disk_def runs_def split: outcome.splits)

text \<open>The state in which \<^verbatim>\<open>end_op\<close> calls \<^verbatim>\<open>commit\<close>: the logged blocks are exactly the dirty ones.\<close>

definition committing :: "'x log_st_scheme \<Rightarrow> nat \<Rightarrow> uint list \<Rightarrow> bool" where
  "committing s m blks \<longleftrightarrow> log_ready s \<and> lh_is s blks \<and> hdr_ok (lg_start s) m (disksize s) blks
     \<and> dirty_blocks s = set blks \<and> blks \<noteq> [] \<and> hdr_is (disk s (lg_start s)) []"

lemma committing_clean:
  assumes "committing s m blks" and "b \<notin> set blks"
  shows "disk s b = view s b"
  using assms view_clean_law[of s b] by (auto simp: committing_def log_ready_def)

section \<open>Properties\<close>

text \<open>
  C1 (crash safety): crash safety of the log.  A machine that crashes after any number \<open>k\<close> of disk
  writes of a commit, and then any number of times during recovery, finally recovers to a disk
  on which either none or all of the transaction has happened: all of it exactly when the header
  block had been written before the first crash.
\<close>

theorem commit_crash_atomic:
  fixes s :: "'x log_st_scheme" and t :: "'y log_st_scheme"
  assumes "committing s m blks"
    and "reboots TYPE('y log_st_scheme) (lg_start s) (disksize s) (crash_disk commit s k) d"
    and "booted (lg_start s) (disksize s) d t"
  shows "runs recover_from_log t (\<lambda>_ t'. hdr_is (disk t' (lg_start s)) [] \<and>
    (\<forall>b. b \<notin> region (lg_start s) m \<longrightarrow> disk t' b = (if k \<le> length blks then disk s b else view s b)))"
proof -
  let ?st = "lg_start s"
  note c = assms(1)[unfolded committing_def]
  have ok: "hdr_ok ?st m (disksize s) blks" using c by blast
  have "length (view s ?st) = BSIZE" using c by (auto simp: log_ready_def view_length)
  moreover have "crash_disk commit s k = apply_ws (disk s) (take k (commit_ws ?st blks (view s)))"
    using c by (intro crash_commit) auto
  ultimately have p: "(hdr_is (crash_disk commit s k ?st) blks \<or> hdr_is (crash_disk commit s k ?st) [])
      \<and> (\<forall>b. b \<notin> region ?st m \<longrightarrow> replay ?st (crash_disk commit s k) b
        = (if k \<le> length blks then disk s b else view s b))"
    using commit_prefix[where d = "disk s", OF ok] c committing_clean[OF assms(1)] by simp
  from reboots_inv[OF assms(2) ok] p
  have r: "hdr_is (d ?st) blks \<or> hdr_is (d ?st) []"
    "\<And>b. b \<notin> region ?st m \<Longrightarrow> replay ?st d b = (if k \<le> length blks then disk s b else view s b)"
    by auto
  then obtain bl where bl: "hdr_is (d ?st) bl" "bl = blks \<or> bl = []" by blast
  have "hdr_ok ?st m (disksize s) bl" using bl(2) ok by (auto simp: hdr_ok_def)
  from recovered[OF assms(3) this bl(1)] show ?thesis
    by (rule runs_mono) (use r(2) in auto)
qed

section \<open>Transactions\<close>

text \<open>
  The invariant of a running transaction: the in-memory header lists distinct blocks outside the
  log, fewer than the log has room for, and the dirty blocks of the cache are exactly those.
\<close>

definition log_inv :: "'x log_st_scheme \<Rightarrow> nat \<Rightarrow> uint list \<Rightarrow> bool" where
  "log_inv s m blks \<longleftrightarrow> bl_inv s \<and> lg_dev s = 1 \<and> lg_size s = int m \<and> lh_is s blks
     \<and> hdr_ok (lg_start s) m (disksize s) blks \<and> dirty_blocks s = set blks"

lemma bl_frame_held:
  assumes "bl_inv s" and "l \<noteq> BcacheLock" and "l \<noteq> PtableLock"
  shows "bl_inv (s\<lparr>held := l # held s\<rparr>)"
  using assms by (simp add: bl_inv_def bc_inv_def lru_def bc_unlocked_def)

lemma log_write_run:
  assumes "log_inv s m blks" and "holds_buf s b = Some n" and "1 \<le> lg_outstanding s"
    and "LogLock \<notin> set (held s)" and "Suc (length blks) < m"
  shows "\<exists>k. log_write b s = Ret () (pin_buf b (s\<lparr>lh_n := int k,
    lh_block := (if n \<in> set blks then lh_block s else (lh_block s)[length blks := n])\<rparr>))
    \<and> k = (if n \<in> set blks then length blks else Suc (length blks))"
proof -
  have inv: "bc_inv s" "m \<le> LOGSIZE" "lg_size s = int m" "lh_n s = int (length blks)"
      "length (lh_block s) = LOGSIZE" and tk: "take (length blks) (lh_block s) = blks"
    using assms(1) by (auto simp: log_inv_def bl_inv_def hdr_ok_def lh_is_def)
  have bn: "b_blockno (bufs s b) = n" using hold_caches[OF inv(1) assms(2)] by simp
  have nth: "lh_block s ! i = blks ! i" if "i < length blks" for i
    using tk that by (metis nth_take)
  define r where "r = find (\<lambda>i. lh_block s ! i = n) [0..<length blks]"
  have r: "r = find (\<lambda>i. blks ! i = n) [0..<length blks]"
    unfolding r_def by (rule find_upt_cong) (simp add: nth)
  have g: "\<not> (30 \<le> lh_n s \<or> lg_size s - 1 \<le> lh_n s)" using inv assms(5) by auto
  show ?thesis
  proof (cases r)
    case (Some i)
    then have il: "i < length blks" "blks ! i = n" by (auto simp: r find_upt_Some)
    then have mem: "n \<in> set blks" by auto
    have "(lh_block s)[i := n] = lh_block s" using il nth[OF il(1)] list_update_id[of "lh_block s" i] by simp
    then show ?thesis
      using mem Some g assms(3,4,5) inv il(1) bn
      by (simp add: log_write_def kstep r_def[symmetric] set_lh_block_def) (cases s; simp add: pin_buf_def)
  next
    case None
    then have "n \<notin> set blks" by (auto simp: r find_upt_None in_set_conv_nth)
    then show ?thesis
      using None g assms(3,4,5) inv bn
      by (simp add: log_write_def kstep r_def[symmetric] set_lh_block_def) (cases s; simp add: pin_buf_def)
  qed
qed

lemma bl_frame_log [simp]:
  "bl_inv (s\<lparr>lg_outstanding := a\<rparr>) = bl_inv s" "bl_inv (s\<lparr>lg_committing := c\<rparr>) = bl_inv s"
  "view (s\<lparr>lg_outstanding := a\<rparr>) = view s" "view (s\<lparr>lg_committing := c\<rparr>) = view s"
  "dirty_blocks (s\<lparr>lg_outstanding := a\<rparr>) = dirty_blocks s" "dirty_blocks (s\<lparr>lg_committing := c\<rparr>) = dirty_blocks s"
  "holds_buf (s\<lparr>lg_outstanding := a\<rparr>) = holds_buf s" "holds_buf (s\<lparr>lg_committing := c\<rparr>) = holds_buf s"
  by (simp_all add: bl_inv_def bc_inv_def lru_def bc_unlocked_def view_def dirty_blocks_def
      holds_buf_def fun_eq_iff split: option.split)

lemma bl_frame_ptab [simp]:
  "bl_inv (s\<lparr>ptab := p\<rparr>) = bl_inv s" "view (s\<lparr>ptab := p\<rparr>) = view s"
  "dirty_blocks (s\<lparr>ptab := p\<rparr>) = dirty_blocks s" "holds_buf (s\<lparr>ptab := p\<rparr>) = holds_buf s"
  by (simp_all add: bl_inv_def bc_inv_def lru_def bc_unlocked_def view_def dirty_blocks_def
      holds_buf_def fun_eq_iff split: option.split)

lemma commit_any:
  fixes s :: "'x log_st_scheme"
  assumes "log_ready s" and "lh_is s blks" and ok: "hdr_ok (lg_start s) m (disksize s) blks"
    and "dirty_blocks s = set blks" and "hdr_is (disk s (lg_start s)) []"
  shows "runs commit s (\<lambda>_ s'. log_ready s' \<and> lh_is s' [] \<and> dirty_blocks s' = {}
    \<and> hdr_is (disk s' (lg_start s)) [] \<and> lg_start s' = lg_start s \<and> lg_size s' = lg_size s
    \<and> lg_outstanding s' = lg_outstanding s \<and> lg_committing s' = lg_committing s
    \<and> disksize s' = disksize s \<and> held s' = held s
    \<and> (\<forall>b. b \<notin> region (lg_start s) m \<longrightarrow> disk s' b = view s b))"
proof (cases "blks = []")
  case True
  then have "lh_n s = 0" "lh_is s []" using assms(2) by (simp_all add: lh_is_def)
  then have "commit s = Ret () s" by (simp add: commit_def kstep)
  then show ?thesis using assms True clean_view[OF assms(1)] by (simp add: runs_def lh_is_def)
next
  case False
  let ?st = "lg_start s" and ?v = "view s"
  have len: "length (?v ?st) = BSIZE" using assms(1) by (auto simp: log_ready_def view_length)
  have cl: "disk s b = ?v b" if "b \<notin> set blks" for b
    using that assms view_clean_law[of s b] by (auto simp: log_ready_def)
  let ?ws = "commit_ws ?st blks ?v"
  have n: "length ?ws = 2 * length blks + 2" by (simp add: commit_ws_def ws_fst)
  let ?d = "apply_ws (disk s) ?ws"
  have "length (head_bytes blks (?v ?st)) = BSIZE"
    using head_bytes_props(1)[OF len] hdr_ok_head(3)[OF ok] by simp
  then have h: "hdr_is (?d ?st) []"
    using hdr_is_head[of "head_bytes blks (?v ?st)" "[]"] by (simp add: commit_ws_def apply_ws_append apply_ws_def)
  have "replay ?st ?d b = ?v b" if "b \<notin> region ?st m" for b
    using commit_prefix[where d = "disk s", OF ok assms(5) len cl, of "length ?ws"] that n by simp
  then have "?d b = ?v b" if "b \<notin> region ?st m" for b
    using that replay_empty[of ?d ?st, OF h] by simp
  then show ?thesis
    using runs_mono[OF commit_runs[OF assms(1-4) False]] h by (auto simp: lh_is_def)
qed

lemma log_write_law:
  assumes "log_inv s m blks" and "holds_buf s b = Some n" and "1 \<le> lg_outstanding s"
    and "LogLock \<notin> set (held s)" and "Suc (length blks) < m" and "n \<notin> region (lg_start s) m"
  shows "runs (log_write b) s (\<lambda>_ s'. log_inv s' m (if n \<in> set blks then blks else blks @ [n])
    \<and> holds_buf s' = holds_buf s \<and> view s' = view s \<and> disk s' = disk s)"
proof -
  obtain k where k: "log_write b s = Ret () (pin_buf b (s\<lparr>lh_n := int k,
      lh_block := (if n \<in> set blks then lh_block s else (lh_block s)[length blks := n])\<rparr>))"
    "k = (if n \<in> set blks then length blks else Suc (length blks))"
    using log_write_run[OF assms(1-5)] by blast
  let ?s = "s\<lparr>lh_n := int k,
      lh_block := (if n \<in> set blks then lh_block s else (lh_block s)[length blks := n])\<rparr>"
  have s: "bl_inv ?s" "holds_buf ?s b = Some n" using assms(1,2) by (auto simp: log_inv_def)
  note p = pin_buf_law[OF s]
  have n: "n < disksize s" using hold_caches[of s b n] assms(1,2) by (simp add: log_inv_def bl_inv_def)
  have "lh_is ?s (if n \<in> set blks then blks else blks @ [n])"
  proof -
    have "length blks < LOGSIZE" using assms(1,5) by (auto simp: log_inv_def hdr_ok_def)
    then show ?thesis
      using assms(1) k(2) by (auto simp: log_inv_def lh_is_def take_Suc_conv_app_nth take_update_cancel)
  qed
  moreover have "hdr_ok (lg_start s) m (disksize s) (if n \<in> set blks then blks else blks @ [n])"
    using assms(1,5,6) n by (auto simp: log_inv_def hdr_ok_def)
  moreover have "lh_is (pin_buf b ?s) bl = lh_is ?s bl" for bl by (simp add: lh_is_def pin_buf_def)
  ultimately have "log_inv (pin_buf b ?s) m (if n \<in> set blks then blks else blks @ [n])"
    using p(1,5) assms(1) rest_same_log[OF p(4)] by (auto simp: log_inv_def)
  then show ?thesis using p s assms(2) by (simp add: runs_def k(1))
qed

text \<open>
  C11 (log absorption): \<^verbatim>\<open>log_write\<close> keeps the invariant of a transaction: it pins the buffer and lists
  its block in the header, once only (log absorption), and writes nothing to the disk.
\<close>

theorem log_write_keeps_inv:
  assumes "log_inv s m blks" and "holds_buf s b = Some n" and "1 \<le> lg_outstanding s"
    and "LogLock \<notin> set (held s)" and "Suc (length blks) < m" and "n \<notin> region (lg_start s) m"
  shows "runs (log_write b) s (\<lambda>_ s'. log_inv s' m (if n \<in> set blks then blks else blks @ [n])
    \<and> holds_buf s' = holds_buf s \<and> view s' = view s \<and> disk s' = disk s)"
  using assms by (rule log_write_law)


text \<open>
  C2 (group commit): the last \<^verbatim>\<open>end_op\<close> commits: it returns, every block has on the disk the contents
  the transaction gave it, the header on the disk and the one in memory are empty, and the log
  accepts calls again.
\<close>

theorem end_op_commits:
  assumes "log_inv s m blks" and "holds_buf s = Map.empty" and "hdr_is (disk s (lg_start s)) []"
    and "lg_outstanding s = 1" and "\<not> lg_committing s" and "held s = []"
  shows "runs end_op s (\<lambda>_ s'. log_inv s' m [] \<and> holds_buf s' = Map.empty
    \<and> hdr_is (disk s' (lg_start s')) [] \<and> lg_start s' = lg_start s
    \<and> lg_outstanding s' = 0 \<and> \<not> lg_committing s'
    \<and> (\<forall>b. b \<notin> region (lg_start s) m \<longrightarrow> disk s' b = view s b))"
proof -
  define t where "t = s\<lparr>lg_outstanding := 0, lg_committing := True\<rparr>"
  have te: "s\<lparr>lg_outstanding := 0, lg_committing := True, held := []\<rparr> = t"
    using assms(6) by (cases s) (simp add: t_def)
  have tr: "runs commit t (\<lambda>_ s'. log_ready s' \<and> lh_is s' [] \<and> dirty_blocks s' = {}
    \<and> hdr_is (disk s' (lg_start t)) [] \<and> lg_start s' = lg_start t \<and> lg_size s' = lg_size t
    \<and> lg_outstanding s' = lg_outstanding t \<and> lg_committing s' = lg_committing t
    \<and> disksize s' = disksize t \<and> held s' = held t
    \<and> (\<forall>b. b \<notin> region (lg_start t) m \<longrightarrow> disk s' b = view t b))"
    by (rule commit_any[where blks = blks])
      (use assms in \<open>simp_all add: t_def log_inv_def log_ready_def lh_is_def\<close>)
  have "end_op s = thn commit (thn (acq LogLock) (thn (modify (\<lambda>s. s\<lparr>lg_committing := False\<rparr>)) (
       thn (wakeup (Some ChanLog)) (rel LogLock)))) t"
    using assms(4-6) te by (simp add: end_op_def kstep)
  moreover have "runs (thn commit (thn (acq LogLock) (thn (modify (\<lambda>s. s\<lparr>lg_committing := False\<rparr>)) (
       thn (wakeup (Some ChanLog)) (rel LogLock))))) t (\<lambda>_ s'. log_inv s' m [] \<and> holds_buf s' = Map.empty
    \<and> hdr_is (disk s' (lg_start s')) [] \<and> lg_start s' = lg_start s
    \<and> lg_outstanding s' = 0 \<and> \<not> lg_committing s'
    \<and> (\<forall>b. b \<notin> region (lg_start s) m \<longrightarrow> disk s' b = view s b))"
    unfolding runs_thn[of commit] using tr
  proof (rule runs_mono, elim conjE)
    fix u :: "'a log_st_scheme"
    assume u: "log_ready u" "lh_is u []" "dirty_blocks u = {}" "hdr_is (disk u (lg_start t)) []"
      "lg_start u = lg_start t" "lg_size u = lg_size t" "lg_outstanding u = lg_outstanding t"
      "disksize u = disksize t" "held u = held t" "\<forall>b. b \<notin> region (lg_start t) m \<longrightarrow> disk u b = view t b"
    have h: "held u = []" using u(9) assms(6) by (simp add: t_def)
    have "thn (acq LogLock) (thn (modify (\<lambda>s. s\<lparr>lg_committing := False\<rparr>)) (
       thn (wakeup (Some ChanLog)) (rel LogLock))) u
       = Ret () (u\<lparr>lg_committing := False, ptab := woken_tab (Some ChanLog) (ptab u)\<rparr>)"
      using h by (simp add: kstep wakeup_run)
    then show "runs (thn (acq LogLock) (thn (modify (\<lambda>s. s\<lparr>lg_committing := False\<rparr>)) (
       thn (wakeup (Some ChanLog)) (rel LogLock)))) u (\<lambda>_ s'. log_inv s' m [] \<and> holds_buf s' = Map.empty
      \<and> hdr_is (disk s' (lg_start s')) [] \<and> lg_start s' = lg_start s
      \<and> lg_outstanding s' = 0 \<and> \<not> lg_committing s'
      \<and> (\<forall>b. b \<notin> region (lg_start s) m \<longrightarrow> disk s' b = view s b))"
      using u assms(1) by (auto simp: runs_def t_def log_inv_def log_ready_def lh_is_def hdr_ok_def)
  qed
  ultimately show ?thesis by (simp add: runs_def)
qed


section \<open>Witnesses\<close>

text \<open>A running system with one logged block, 50, on a disk of a thousand zero blocks.\<close>

lemma region_example: "\<forall>b \<in> region 2 30. b < 1000" "50 \<notin> region 2 30"
proof -
  have "list_all (\<lambda>k. (2 :: uint) + of_nat k < 1000 \<and> 2 + of_nat k \<noteq> (50 :: uint)) [0..<30]" by code_simp
  then have "\<forall>k \<in> {0..<30}. (2 :: uint) + of_nat k < 1000 \<and> 2 + of_nat k \<noteq> (50 :: uint)"
    by (simp only: list_all_iff set_upt)
  then show "\<forall>b \<in> region 2 30. b < 1000" "50 \<notin> region 2 30" unfolding region_def by (auto simp del: of_nat_numeral)
qed

lemma logged_exists:
  "\<exists>s :: log_st. log_inv s 30 [50] \<and> holds_buf s = Map.empty \<and> disk s = (\<lambda>_. replicate 512 0)
    \<and> view s 50 = replicate 512 1 \<and> lg_start s = 2 \<and> disksize s = 1000 \<and> held s = []
    \<and> lg_outstanding s = 1 \<and> \<not> lg_committing s"
proof -
  define s0 :: log_st where "s0 = (undefined :: log_st)\<lparr>held := [], disk := \<lambda>_. replicate 512 0,
    disksize := 1000, lg_start := 2, lg_size := 30, lg_outstanding := 1, lg_committing := False,
    lg_dev := 1, lh_n := 0, lh_block := replicate 30 0\<rparr>"
  have "held s0 = []" "\<forall>n. length (disk s0 n) = BSIZE" by (simp_all add: s0_def)
  from boot_cache[OF this] obtain f where f: "bl_inv (s0\<lparr>bufs := f\<rparr>)"
      "holds_buf (s0\<lparr>bufs := f\<rparr>) = Map.empty" "dirty_blocks (s0\<lparr>bufs := f\<rparr>) = {}"
    by blast
  define s1 where "s1 = s0\<lparr>bufs := f\<rparr>"
  have s1: "bl_inv s1" "holds_buf s1 = Map.empty" "dirty_blocks s1 = {}" "disk s1 = (\<lambda>_. replicate 512 0)"
      "lg_start s1 = 2" "disksize s1 = 1000" "held s1 = []" "lg_outstanding s1 = 1" "\<not> lg_committing s1"
      "lg_dev s1 = 1" "lg_size s1 = 30" "lh_is s1 []"
    using f by (simp_all add: s1_def s0_def lh_is_def)
  obtain i s2 where 2: "bl_inv s2" "rest_same s1 s2" "holds_buf s2 = [i \<mapsto> 50]" "dirty_blocks s2 = {}"
      "disk s2 = disk s1"
    using bl.read_law[of s1 50] s1 by (auto simp: runs_iff)
  note r2 = rest_same_log[OF 2(2)]
  define s3 where "s3 = put_data i (replicate 512 1) s2"
  note p = put_data_law[OF 2(1), of i 50 "replicate 512 1", folded s3_def]
  have 3: "bl_inv s3" "holds_buf s3 = [i \<mapsto> 50]" "dirty_blocks s3 = {}" "view s3 50 = replicate 512 1"
      "disk s3 = disk s1" "rest_same s2 s3"
    using p 2 by simp_all
  note r3 = rest_same_log[OF 3(6)]
  have "log_inv s3 30 []" "lg_outstanding s3 = 1" "held s3 = []" "\<not> lg_committing s3" "lg_start s3 = 2" "disksize s3 = 1000"
    using 3 r2 r3 s1 region_example(1) by (simp_all add: log_inv_def hdr_ok_def)
  note l = this
  obtain k s4 where 4: "log_write i s3 = Ret () s4" "log_inv s4 30 [50]" "holds_buf s4 = [i \<mapsto> 50]"
      "view s4 = view s3" "disk s4 = disk s1"
    using log_write_law[OF l(1), of i 50] l region_example(2) 3 by (auto simp: runs_iff)
  have e4: "lg_start s4 = 2" "disksize s4 = 1000" "lg_outstanding s4 = 1" "\<not> lg_committing s4" "held s4 = []"
    using log_write_run[OF l(1), of i 50] l 3(2) 4(1) by (auto simp: pin_buf_def)
  have i4: "bl_inv s4" "dirty_blocks s4 = {50}" "lg_dev s4 = 1" "lg_size s4 = 30" "lh_is s4 [50]"
      "hdr_ok 2 30 1000 [50]"
    using 4(2) e4 by (auto simp: log_inv_def)
  obtain s5 where 5: "bl_inv s5" "rest_same s4 s5" "holds_buf s5 = Map.empty" "view s5 = view s4"
      "dirty_blocks s5 = {50}" "disk s5 = disk s4"
    using bl.release_law[OF i4(1), of i 50] 4(3) i4(2) by (auto simp: runs_iff)
  have "log_inv s5 30 [50]"
    using 5 i4 e4 rest_same_log[OF 5(2)] by (simp add: log_inv_def)
  then show ?thesis using 5 4 3(4) e4 s1(4) rest_same_log[OF 5(2)] by (intro exI[of _ s5]) simp
qed

theorem log_write_keeps_inv_witness:
  "\<exists>(s :: log_st) b. holds_buf s b = Some 50 \<and>
    runs (log_write b) s (\<lambda>_ s'. log_inv s' 30 [50] \<and> view s' = view s \<and> disk s' = disk s)"
proof -
  obtain s :: log_st where s: "log_inv s 30 [50]" "holds_buf s = Map.empty" "lg_start s = 2" "disksize s = 1000"
      "held s = []" "lg_outstanding s = 1"
    using logged_exists by blast
  have inv: "bl_inv s" "dirty_blocks s = {50}" using s(1) by (auto simp: log_inv_def)
  obtain b t where t: "bl_inv t" "rest_same s t" "holds_buf t = [b \<mapsto> 50]" "view t = view s" "dirty_blocks t = {50}"
    using bl.read_law[OF inv(1), of 50] s inv(2) by (auto simp: runs_iff)
  note r = rest_same_log[OF t(2)]
  have "log_inv t 30 [50]" using t(1,5) r s(1) by (auto simp: log_inv_def)
  from log_write_keeps_inv[OF this, of b 50] show ?thesis
    using t(3) r s region_example(2) by (intro exI[of _ t] exI[of _ b]) (auto simp: runs_iff)
qed


lemma hdr_is_zero: "hdr_is (replicate 512 0) []"
  by (simp add: hdr_is_def get32_def)

theorem end_op_commits_witness:
  "\<exists>s :: log_st. log_inv s 30 [50] \<and> runs end_op s (\<lambda>_ s'. log_inv s' 30 [] \<and> disk s' 50 = replicate 512 1)"
proof -
  obtain s :: log_st where s: "log_inv s 30 [50]" "holds_buf s = Map.empty" "disk s = (\<lambda>_. replicate 512 0)"
      "view s 50 = replicate 512 1" "lg_start s = 2" "held s = []" "lg_outstanding s = 1" "\<not> lg_committing s"
    using logged_exists by blast
  have "runs end_op s (\<lambda>_ s'. log_inv s' 30 [] \<and> holds_buf s' = Map.empty
    \<and> hdr_is (disk s' (lg_start s')) [] \<and> lg_start s' = lg_start s
    \<and> lg_outstanding s' = 0 \<and> \<not> lg_committing s'
    \<and> (\<forall>b. b \<notin> region (lg_start s) 30 \<longrightarrow> disk s' b = view s b))"
    by (rule end_op_commits[OF s(1)]) (use s hdr_is_zero in simp_all)
  then have "runs end_op s (\<lambda>_ s'. log_inv s' 30 [] \<and> disk s' 50 = replicate 512 1)"
    by (rule runs_mono) (use s region_example(2) in auto)
  then show ?thesis using s(1) by blast
qed

theorem commit_crash_atomic_witness:
  "\<exists>(s :: log_st) (t :: log_st). committing s 30 [50] \<and> disk t = crash_disk commit s 4
    \<and> runs recover_from_log t (\<lambda>_ t'. disk t' 50 = replicate 512 1)"
proof -
  obtain s :: log_st where s: "log_inv s 30 [50]" "holds_buf s = Map.empty" "disk s = (\<lambda>_. replicate 512 0)"
      "view s 50 = replicate 512 1" "lg_start s = 2" "disksize s = 1000"
    using logged_exists by blast
  have c: "committing s 30 [50]"
    using s hdr_is_zero by (simp add: committing_def log_inv_def log_ready_def)
  then have cs: "log_ready s" "lh_is s [50]" "hdr_ok (lg_start s) 30 (disksize s) [50]" "dirty_blocks s = set [50]"
    by (auto simp: committing_def)
  define d where "d = crash_disk commit s 4"
  obtain s' :: log_st where s': "log_ready s'" "disk s' = apply_ws (disk s) (commit_ws (lg_start s) [50] (view s))"
    using commit_runs[OF cs] by (auto simp: runs_iff)
  have "d = disk s'"
    using crash_commit[OF cs, of 4] s'(2) by (simp add: d_def commit_ws_def log_ws_def)
  then have len: "\<forall>n. length (d n) = BSIZE" using s'(1) by (simp add: log_ready_def bl_inv_def)
  define t0 :: log_st where "t0 = (undefined :: log_st)\<lparr>held := [], disk := d,
    disksize := 1000, lg_start := 2, lg_dev := 1, lh_block := replicate 30 0\<rparr>"
  have "held t0 = []" "\<forall>n. length (disk t0 n) = BSIZE" using len by (simp_all add: t0_def)
  from boot_cache[OF this] obtain f where f: "bl_inv (t0\<lparr>bufs := f\<rparr>)"
      "holds_buf (t0\<lparr>bufs := f\<rparr>) = Map.empty" "dirty_blocks (t0\<lparr>bufs := f\<rparr>) = {}"
    by blast
  have b: "booted (lg_start s) (disksize s) d (t0\<lparr>bufs := f\<rparr>)"
    using f s by (simp add: booted_def log_ready_def t0_def)
  have "reboots TYPE(log_st) (lg_start s) (disksize s) (crash_disk commit s 4) d"
    unfolding d_def by (rule reboots.none)
  from commit_crash_atomic[OF c this b]
  have "runs recover_from_log (t0\<lparr>bufs := f\<rparr>) (\<lambda>_ t'. disk t' 50 = replicate 512 1)"
    by (rule runs_mono) (use s region_example(2) in auto)
  moreover have "disk (t0\<lparr>bufs := f\<rparr>) = crash_disk commit s 4" by (simp add: t0_def d_def)
  ultimately show ?thesis using c by blast
qed

end
