(* ===== verification/Fs.thy ===== *)
theory Fs
  imports Log
begin

text \<open>
  Model of \<^verbatim>\<open>fs.c\<close>: the block allocator, the inode cache, the contents of inodes,
  directories and path names, on top of the log.  In-memory inodes are entries of the inode
  cache and a pointer to one is its index, so the tests for a null inode pointer hold by
  typing.  Path names and the buffer for a path element are byte strings without the
  terminating zero.  The table of device routines \<^verbatim>\<open>devsw\<close> is an argument, because a
  state cannot contain routines on itself; the console model provides its entry.  Loops that
  leave early are \<^const>\<open>scanM\<close>, the pieces of a transfer come from \<open>chunks\<close>.
\<close>

section \<open>Data (fs.h, file.h, stat.h)\<close>

record inode =
  i_dev :: uint
  i_inum :: uint
  i_ref :: int
  i_busy :: bool
  i_valid :: bool
  i_type :: ushort
  i_major :: ushort
  i_minor :: ushort
  i_nlink :: ushort
  i_size :: uint
  i_addrs :: "uint list"

record fs_st = log_st +
  fs_sb :: superblock
  inodes :: "nat \<Rightarrow> inode"

abbreviation (input) T_DIR :: ushort where "T_DIR \<equiv> 1"
abbreviation (input) T_FILE :: ushort where "T_FILE \<equiv> 2"
abbreviation (input) T_DEV :: ushort where "T_DEV \<equiv> 3"
abbreviation (input) NDIRECT :: nat where "NDIRECT \<equiv> 12"
abbreviation (input) NINDIRECT :: nat where "NINDIRECT \<equiv> 128"
abbreviation (input) MAXFILE :: nat where "MAXFILE \<equiv> 140"
abbreviation (input) BPB :: nat where "BPB \<equiv> 4096"
abbreviation (input) IPB :: nat where "IPB \<equiv> 8"
abbreviation (input) DIRSIZ :: nat where "DIRSIZ \<equiv> 14"
abbreviation (input) ROOTDEV :: uint where "ROOTDEV \<equiv> 1"
abbreviation (input) ROOTINO :: uint where "ROOTINO \<equiv> 1"

record stat =
  st_type :: ushort
  st_dev :: uint
  st_ino :: uint
  st_nlink :: ushort
  st_size :: uint

type_synonym 's devsw = "nat \<Rightarrow> (nat \<Rightarrow> uint \<Rightarrow> ('s, int \<times> byte list) kernel) option
  \<times> (nat \<Rightarrow> byte list \<Rightarrow> uint \<Rightarrow> ('s, int) kernel) option"

definition upi :: "nat \<Rightarrow> (inode \<Rightarrow> inode) \<Rightarrow> ('x fs_st_scheme, unit) kernel" where
  "upi i f = modify (\<lambda>s. s\<lparr>inodes := (inodes s)(i := f (inodes s i))\<rparr>)"

definition IBLOCK :: "uint \<Rightarrow> superblock \<Rightarrow> uint" where
  "IBLOCK i sb = i div 8 + sb_inodestart sb"

definition BBLOCK :: "uint \<Rightarrow> superblock \<Rightarrow> uint" where
  "BBLOCK b sb = b div 4096 + sb_bmapstart sb"

text \<open>The fields of the disk inode at offset \<open>k\<close> of a block.\<close>

definition put_dinode :: "byte list \<Rightarrow> nat \<Rightarrow> inode \<Rightarrow> byte list" where
  "put_dinode d k ip = foldl (\<lambda>d i. put32 d (k + 12 + 4 * i) (i_addrs ip ! i))
     (put32 (put16 (put16 (put16 (put16 d k (i_type ip)) (k + 2) (i_major ip)) (k + 4) (i_minor ip))
       (k + 6) (i_nlink ip)) (k + 8) (i_size ip)) [0..<NDIRECT + 1]"

definition get_dinode :: "byte list \<Rightarrow> nat \<Rightarrow> inode \<Rightarrow> inode" where
  "get_dinode d k ip = ip\<lparr>i_type := get16 d k, i_major := get16 d (k + 2), i_minor := get16 d (k + 4),
     i_nlink := get16 d (k + 6), i_size := get32 d (k + 8), i_addrs := get_words d (k + 12) (NDIRECT + 1)\<rparr>"

section \<open>Blocks\<close>

definition bzero :: "uint \<Rightarrow> uint \<Rightarrow> ('x fs_st_scheme, unit) kernel" where
  "bzero dev bno =
     bnd (bread dev bno) (\<lambda>bp.
     thn (modify (put_data bp (replicate BSIZE 0))) (
     thn (log_write bp) (
     brelse bp)))"

definition bit_used :: "byte list \<Rightarrow> nat \<Rightarrow> bool" where
  "bit_used d bi \<longleftrightarrow> d ! (bi div 8) AND push_bit (bi mod 8) 1 \<noteq> 0"

text \<open>
  The iteration of \<^verbatim>\<open>balloc\<close> for the bitmap block of the blocks from \<open>b\<close> on.  The
  loop counter is an \<^verbatim>\<open>int\<close>; it stays in range for images below \<open>2 ^ 31\<close> blocks.
\<close>

definition balloc_at :: "uint \<Rightarrow> nat \<Rightarrow> ('x fs_st_scheme, uint option) kernel" where
  "balloc_at dev b =
     bnd (gets fs_sb) (\<lambda>sb.
     bnd (bread dev (BBLOCK (of_nat b) sb)) (\<lambda>bp.
     bnd (gets (\<lambda>s. buf_data s bp)) (\<lambda>d.
     case find (\<lambda>bi. \<not> bit_used d bi) [0..<min BPB (unat (sb_size sb) - b)] of
       Some bi \<Rightarrow>
         thn (modify (put_data bp (d[bi div 8 := d ! (bi div 8) OR push_bit (bi mod 8) 1]))) (
         thn (log_write bp) (
         thn (brelse bp) (
         thn (bzero dev (of_nat (b + bi))) (
         ret (Some (of_nat (b + bi)))))))
     | None \<Rightarrow> thn (brelse bp) (ret None))))"

definition balloc :: "uint \<Rightarrow> ('x fs_st_scheme, uint) kernel" where
  "balloc dev =
     bnd (gets fs_sb) (\<lambda>sb.
     bnd (scanM (map (\<lambda>k. k * BPB) [0..<(unat (sb_size sb) + BPB - 1) div BPB]) (balloc_at dev)) (\<lambda>r.
     case r of
       Some b \<Rightarrow> ret b
     | None \<Rightarrow> panic ''balloc: out of blocks''))"

definition bfree :: "uint \<Rightarrow> uint \<Rightarrow> ('x fs_st_scheme, unit) kernel" where
  "bfree dev b =
     bnd (readsb dev) (\<lambda>sb'.
     thn (modify (fs_sb_update (\<lambda>_. sb'))) (
     bnd (bread dev (BBLOCK b sb')) (\<lambda>bp.
     bnd (gets (\<lambda>s. buf_data s bp)) (\<lambda>d.
     let bi = unat b mod BPB in
     if \<not> bit_used d bi then panic ''freeing free block'' else
     thn (modify (put_data bp (d[bi div 8 := d ! (bi div 8) AND NOT (push_bit (bi mod 8) 1)]))) (
     thn (log_write bp) (
     brelse bp))))))"

section \<open>Inodes\<close>

definition iinit :: "uint \<Rightarrow> ('x fs_st_scheme, unit) kernel" where
  "iinit dev =
     thn (initlk IcacheLock) (
     bnd (readsb dev) (\<lambda>sb'.
     modify (fs_sb_update (\<lambda>_. sb'))))"

definition iget :: "uint \<Rightarrow> uint \<Rightarrow> ('x fs_st_scheme, nat) kernel" where
  "iget dev inum =
     thn (acq IcacheLock) (
     bnd (gets (\<lambda>s. find (\<lambda>i. 0 < i_ref (inodes s i) \<and> i_dev (inodes s i) = dev
       \<and> i_inum (inodes s i) = inum) [0..<NINODE])) (\<lambda>r.
     case r of
       Some i \<Rightarrow>
         thn (upi i (\<lambda>n. n\<lparr>i_ref := i_ref n + 1\<rparr>)) (
         thn (rel IcacheLock) (
         ret i))
     | None \<Rightarrow>
         bnd (gets (\<lambda>s. find (\<lambda>i. i_ref (inodes s i) = 0) [0..<NINODE])) (\<lambda>e.
         case e of
           None \<Rightarrow> panic ''iget: no inodes''
         | Some i \<Rightarrow>
             thn (upi i (\<lambda>n. n\<lparr>i_dev := dev, i_inum := inum, i_ref := 1, i_busy := False, i_valid := False\<rparr>)) (
             thn (rel IcacheLock) (
             ret i)))))"

definition ialloc :: "uint \<Rightarrow> ushort \<Rightarrow> ('x fs_st_scheme, nat) kernel" where
  "ialloc dev type =
     bnd (gets fs_sb) (\<lambda>sb.
     bnd (scanM [1..<unat (sb_ninodes sb)] (\<lambda>inum.
       bnd (bread dev (IBLOCK (of_nat inum) sb)) (\<lambda>bp.
       bnd (gets (\<lambda>s. buf_data s bp)) (\<lambda>d.
       let k = 64 * (inum mod IPB) in
       if get16 d k = 0 then
         thn (modify (put_data bp (put16 (splice d k (replicate 64 0)) k type))) (
         thn (log_write bp) (
         thn (brelse bp) (
         bnd (iget dev (of_nat inum)) (\<lambda>i. ret (Some i)))))
       else thn (brelse bp) (ret None)))) ) (\<lambda>r.
     case r of
       Some i \<Rightarrow> ret i
     | None \<Rightarrow> panic ''ialloc: no inodes''))"

definition iupdate :: "nat \<Rightarrow> ('x fs_st_scheme, unit) kernel" where
  "iupdate ip =
     bnd (gets (\<lambda>s. inodes s ip)) (\<lambda>i.
     bnd (gets fs_sb) (\<lambda>sb.
     bnd (bread (i_dev i) (IBLOCK (i_inum i) sb)) (\<lambda>bp.
     thn (modify (\<lambda>s. put_data bp (put_dinode (buf_data s bp) (64 * (unat (i_inum i) mod IPB)) i) s)) (
     thn (log_write bp) (
     brelse bp)))))"

definition idup :: "nat \<Rightarrow> ('x fs_st_scheme, nat) kernel" where
  "idup ip =
     thn (acq IcacheLock) (
     thn (upi ip (\<lambda>n. n\<lparr>i_ref := i_ref n + 1\<rparr>)) (
     thn (rel IcacheLock) (
     ret ip)))"

text \<open>\<^verbatim>\<open>ilock\<close> from the test of \<^verbatim>\<open>I_BUSY\<close> on; it comes back to it after sleeping.\<close>

definition ilock_loop :: "nat \<Rightarrow> ('x fs_st_scheme, unit) kernel" where
  "ilock_loop ip =
     bnd (gets (\<lambda>s. i_busy (inodes s ip))) (\<lambda>busy.
     if busy then sleep (Some (ChanInode ip)) (Some IcacheLock) else
     thn (upi ip (i_busy_update (\<lambda>_. True))) (
     thn (rel IcacheLock) (
     bnd (gets (\<lambda>s. inodes s ip)) (\<lambda>i.
     whenk (\<not> i_valid i) (
       bnd (gets fs_sb) (\<lambda>sb.
       bnd (bread (i_dev i) (IBLOCK (i_inum i) sb)) (\<lambda>bp.
       thn (modify (\<lambda>s. s\<lparr>inodes := (inodes s)(ip :=
         get_dinode (buf_data s bp) (64 * (unat (i_inum i) mod IPB)) (inodes s ip))\<rparr>)) (
       thn (brelse bp) (
       thn (upi ip (i_valid_update (\<lambda>_. True))) (
       bnd (gets (\<lambda>s. i_type (inodes s ip))) (\<lambda>t.
       whenk (t = 0) (panic ''ilock: no type'')))))))))))) "

definition ilock :: "nat \<Rightarrow> ('x fs_st_scheme, unit) kernel" where
  "ilock ip =
     bnd (gets (\<lambda>s. i_ref (inodes s ip))) (\<lambda>r.
     if r < 1 then panic ''ilock'' else
     thn (acq IcacheLock) (
     ilock_loop ip))"

definition ilock_resume :: "nat \<Rightarrow> ('x fs_st_scheme, unit) kernel" where
  "ilock_resume ip = thn (sleep_resume IcacheLock) (ilock_loop ip)"

definition iunlock :: "nat \<Rightarrow> ('x fs_st_scheme, unit) kernel" where
  "iunlock ip =
     bnd (gets (\<lambda>s. inodes s ip)) (\<lambda>i.
     if \<not> i_busy i \<or> i_ref i < 1 then panic ''iunlock'' else
     thn (acq IcacheLock) (
     thn (upi ip (i_busy_update (\<lambda>_. False))) (
     thn (wakeup (Some (ChanInode ip))) (
     rel IcacheLock))))"

definition itrunc :: "nat \<Rightarrow> ('x fs_st_scheme, unit) kernel" where
  "itrunc ip =
     bnd (gets (\<lambda>s. i_dev (inodes s ip))) (\<lambda>dev.
     thn (forM [0..<NDIRECT] (\<lambda>i.
       bnd (gets (\<lambda>s. i_addrs (inodes s ip) ! i)) (\<lambda>a.
       whenk (a \<noteq> 0) (
         thn (bfree dev a) (
         upi ip (\<lambda>n. n\<lparr>i_addrs := (i_addrs n)[i := 0]\<rparr>)))))) (
     bnd (gets (\<lambda>s. i_addrs (inodes s ip) ! NDIRECT)) (\<lambda>ind.
     thn (whenk (ind \<noteq> 0) (
       bnd (bread dev ind) (\<lambda>bp.
       thn (forM [0..<NINDIRECT] (\<lambda>j.
         bnd (gets (\<lambda>s. get32 (buf_data s bp) (4 * j))) (\<lambda>a.
         whenk (a \<noteq> 0) (bfree dev a)))) (
       thn (brelse bp) (
       thn (bfree dev ind) (
       upi ip (\<lambda>n. n\<lparr>i_addrs := (i_addrs n)[NDIRECT := 0]\<rparr>))))))) (
     thn (upi ip (i_size_update (\<lambda>_. 0))) (
     iupdate ip)))))"

definition iput :: "nat \<Rightarrow> ('x fs_st_scheme, unit) kernel" where
  "iput ip =
     thn (acq IcacheLock) (
     bnd (gets (\<lambda>s. inodes s ip)) (\<lambda>i.
     thn (whenk (i_ref i = 1 \<and> i_valid i \<and> i_nlink i = 0) (
       if i_busy i then panic ''iput busy'' else
       thn (upi ip (i_busy_update (\<lambda>_. True))) (
       thn (rel IcacheLock) (
       thn (itrunc ip) (
       thn (upi ip (i_type_update (\<lambda>_. 0))) (
       thn (iupdate ip) (
       thn (acq IcacheLock) (
       thn (upi ip (\<lambda>n. n\<lparr>i_busy := False, i_valid := False\<rparr>)) (
       wakeup (Some (ChanInode ip))))))))))) (
     thn (upi ip (\<lambda>n. n\<lparr>i_ref := i_ref n - 1\<rparr>)) (
     rel IcacheLock))))"

definition iunlockput :: "nat \<Rightarrow> ('x fs_st_scheme, unit) kernel" where
  "iunlockput ip = thn (iunlock ip) (iput ip)"

section \<open>Contents of inodes\<close>

definition bmap :: "nat \<Rightarrow> uint \<Rightarrow> ('x fs_st_scheme, uint) kernel" where
  "bmap ip bn =
     bnd (gets (\<lambda>s. inodes s ip)) (\<lambda>i.
     if bn < 12 then
       let addr = i_addrs i ! unat bn in
       if addr = 0 then
         bnd (balloc (i_dev i)) (\<lambda>addr.
         thn (upi ip (\<lambda>n. n\<lparr>i_addrs := (i_addrs n)[unat bn := addr]\<rparr>)) (
         ret addr))
       else ret addr
     else
       let bn = bn - 12 in
       if bn < 128 then
         bnd (let addr = i_addrs i ! NDIRECT in
           if addr = 0 then
             bnd (balloc (i_dev i)) (\<lambda>addr.
             thn (upi ip (\<lambda>n. n\<lparr>i_addrs := (i_addrs n)[NDIRECT := addr]\<rparr>)) (
             ret addr))
           else ret addr) (\<lambda>ind.
         bnd (bread (i_dev i) ind) (\<lambda>bp.
         bnd (gets (\<lambda>s. get32 (buf_data s bp) (4 * unat bn))) (\<lambda>addr.
         bnd (if addr = 0 then
             bnd (balloc (i_dev i)) (\<lambda>addr.
             thn (modify (\<lambda>s. put_data bp (put32 (buf_data s bp) (4 * unat bn) addr) s)) (
             thn (log_write bp) (
             ret addr)))
           else ret addr) (\<lambda>addr.
         thn (brelse bp) (
         ret addr)))))
       else panic ''bmap: out of range'')"

definition stati :: "nat \<Rightarrow> ('x fs_st_scheme, stat) kernel" where
  "stati ip = gets (\<lambda>s. let i = inodes s ip in
     \<lparr>st_type = i_type i, st_dev = i_dev i, st_ino = i_inum i, st_nlink = i_nlink i, st_size = i_size i\<rparr>)"

text \<open>
  The pieces, offset and length, into which the loops of \<^verbatim>\<open>readi\<close> and
  \<^verbatim>\<open>writei\<close> cut the bytes from \<open>off\<close> on at the block boundaries.
\<close>

function chunks :: "nat \<Rightarrow> nat \<Rightarrow> (nat \<times> nat) list" where
  "chunks off n = (if n = 0 then [] else
     let m = min n (BSIZE - off mod BSIZE) in (off, m) # chunks (off + m) (n - m))"
  by pat_completeness auto
termination
  by (relation "measure snd") auto

declare chunks.simps [simp del]

definition readi :: "'x fs_st_scheme devsw \<Rightarrow> nat \<Rightarrow> uint \<Rightarrow> uint \<Rightarrow> ('x fs_st_scheme, int \<times> byte list) kernel" where
  "readi devsw ip off n =
     bnd (gets (\<lambda>s. inodes s ip)) (\<lambda>i.
     if i_type i = T_DEV then
       if sint (i_major i) < 0 \<or> 10 \<le> sint (i_major i) then ret (-1, []) else
       case fst (devsw (unat (i_major i))) of
         None \<Rightarrow> ret (-1, [])
       | Some dread \<Rightarrow> dread ip n
     else if i_size i < off \<or> off + n < off then ret (-1, [])
     else
       let n = (if i_size i < off + n then i_size i - off else n) in
       bnd (mapM (chunks (unat off) (unat n)) (\<lambda>(off, m).
         bnd (bmap ip (of_nat (off div BSIZE))) (\<lambda>a.
         bnd (bread (i_dev i) a) (\<lambda>bp.
         bnd (gets (\<lambda>s. take m (drop (off mod BSIZE) (buf_data s bp)))) (\<lambda>xs.
         thn (brelse bp) (
         ret xs)))))) (\<lambda>xss.
       ret (sint n, concat xss)))"

definition writei :: "'x fs_st_scheme devsw \<Rightarrow> nat \<Rightarrow> byte list \<Rightarrow> uint \<Rightarrow> uint \<Rightarrow> ('x fs_st_scheme, int) kernel" where
  "writei devsw ip src off n =
     bnd (gets (\<lambda>s. inodes s ip)) (\<lambda>i.
     if i_type i = T_DEV then
       if sint (i_major i) < 0 \<or> 10 \<le> sint (i_major i) then ret (-1) else
       case snd (devsw (unat (i_major i))) of
         None \<Rightarrow> ret (-1)
       | Some dwrite \<Rightarrow> dwrite ip src n
     else if i_size i < off \<or> off + n < off then ret (-1)
     else if of_nat (MAXFILE * BSIZE) < off + n then ret (-1)
     else
       thn (forM (chunks (unat off) (unat n)) (\<lambda>(o', m).
         bnd (bmap ip (of_nat (o' div BSIZE))) (\<lambda>a.
         bnd (bread (i_dev i) a) (\<lambda>bp.
         thn (modify (\<lambda>s. put_data bp (splice (buf_data s bp) (o' mod BSIZE)
           (take m (drop (o' - unat off) src))) s)) (
         thn (log_write bp) (
         brelse bp)))))) (
       thn (bnd (gets (\<lambda>s. i_size (inodes s ip))) (\<lambda>size.
         whenk (0 < n \<and> size < off + n) (
           thn (upi ip (i_size_update (\<lambda>_. off + n))) (
           iupdate ip)))) (
       ret (sint n))))"

section \<open>Directories\<close>

definition namecmp :: "byte list \<Rightarrow> byte list \<Rightarrow> int" where
  "namecmp s t = strncmp (rd s) (rd t) DIRSIZ"

text \<open>The offsets of the entries of a directory of the given size.\<close>

definition dir_offs :: "uint \<Rightarrow> nat list" where
  "dir_offs sz = map (\<lambda>k. 16 * k) [0..<(unat sz + 15) div 16]"

definition dirlookup :: "'x fs_st_scheme devsw \<Rightarrow> nat \<Rightarrow> byte list \<Rightarrow> ('x fs_st_scheme, (nat \<times> uint) option) kernel" where
  "dirlookup devsw dp name =
     bnd (gets (\<lambda>s. inodes s dp)) (\<lambda>d.
     if i_type d \<noteq> T_DIR then panic ''dirlookup not DIR'' else
     scanM (dir_offs (i_size d)) (\<lambda>off.
       bnd (readi devsw dp (of_nat off) 16) (\<lambda>(r, de).
       if r \<noteq> 16 then panic ''dirlink read'' else
       let inum = get16 de 0 in
       if inum = 0 then ret None else
       if namecmp name (drop 2 de) = 0 then
         bnd (iget (i_dev d) (ucast inum)) (\<lambda>ip.
         ret (Some (ip, of_nat off)))
       else ret None)))"

definition dirlink :: "'x fs_st_scheme devsw \<Rightarrow> nat \<Rightarrow> byte list \<Rightarrow> uint \<Rightarrow> ('x fs_st_scheme, int) kernel" where
  "dirlink devsw dp name inum =
     bnd (dirlookup devsw dp name) (\<lambda>r.
     case r of
       Some (ip, _) \<Rightarrow> thn (iput ip) (ret (-1))
     | None \<Rightarrow>
         bnd (gets (\<lambda>s. i_size (inodes s dp))) (\<lambda>size.
         bnd (scanM (dir_offs size) (\<lambda>off.
           bnd (readi devsw dp (of_nat off) 16) (\<lambda>(r, de).
           if r \<noteq> 16 then panic ''dirlink read'' else
           ret (if get16 de 0 = 0 then Some (off, de) else None)))) (\<lambda>r.
         let (off, de) = (case r of Some (off, de) \<Rightarrow> (off, de)
           | None \<Rightarrow> (16 * ((unat size + 15) div 16), replicate 16 0));
           de = put16 (take 2 de @ strncpy (drop 2 de) (rd name) DIRSIZ) 0 (ucast inum) in
         bnd (writei devsw dp de (of_nat off) 16) (\<lambda>w.
         if w \<noteq> 16 then panic ''dirlink'' else
         ret 0))))"

section \<open>Paths\<close>

abbreviation (input) slash :: byte where "slash \<equiv> 47"

definition skipelem :: "byte list \<Rightarrow> (byte list \<times> byte list) option" where
  "skipelem path =
     (let path = dropWhile (\<lambda>c. c = slash) path in
      if path = [] then None else
      let elem = takeWhile (\<lambda>c. c \<noteq> slash) path;
          rest = dropWhile (\<lambda>c. c \<noteq> slash) path in
      Some (take DIRSIZ elem, dropWhile (\<lambda>c. c = slash) rest))"

lemma skipelem_shorter: "skipelem path = Some (name, rest) \<Longrightarrow> length rest < length path"
proof -
  assume a: "skipelem path = Some (name, rest)"
  define p where "p = dropWhile (\<lambda>c. c = slash) path"
  have p: "p \<noteq> []" "rest = dropWhile (\<lambda>c. c = slash) (dropWhile (\<lambda>c. c \<noteq> slash) p)"
    using a by (auto simp: skipelem_def p_def Let_def split: if_splits)
  have "hd p \<noteq> slash" using p(1) hd_dropWhile[of "\<lambda>c. c = slash" path] by (simp add: p_def)
  then have "length (dropWhile (\<lambda>c. c \<noteq> slash) p) < length p"
    using p(1) length_dropWhile_le[of "\<lambda>c. c \<noteq> slash" "tl p"] by (cases p) auto
  moreover have "length p \<le> length path" by (simp add: p_def length_dropWhile_le)
  ultimately show ?thesis
    unfolding p(2) using length_dropWhile_le[of "\<lambda>c. c = slash" "dropWhile (\<lambda>c. c \<noteq> slash) p"] by linarith
qed

text \<open>The loop of \<^verbatim>\<open>namex\<close>; the last component is the buffer \<^verbatim>\<open>name\<close>.\<close>

function (sequential) namex_loop :: "'x fs_st_scheme devsw \<Rightarrow> bool \<Rightarrow> nat \<Rightarrow> byte list \<Rightarrow> byte list
    \<Rightarrow> ('x fs_st_scheme, (nat \<times> byte list) option) kernel" where
  "namex_loop devsw parent ip path name =
     (case skipelem path of
        None \<Rightarrow> if parent then thn (iput ip) (ret None) else ret (Some (ip, name))
      | Some (name, path) \<Rightarrow>
          thn (ilock ip) (
          bnd (gets (\<lambda>s. i_type (inodes s ip))) (\<lambda>t.
          if t \<noteq> T_DIR then thn (iunlockput ip) (ret None)
          else if parent \<and> path = [] then thn (iunlock ip) (ret (Some (ip, name)))
          else
            bnd (dirlookup devsw ip name) (\<lambda>r.
            case r of
              None \<Rightarrow> thn (iunlockput ip) (ret None)
            | Some (next, _) \<Rightarrow>
                thn (iunlockput ip) (
                namex_loop devsw parent next path name)))))"
  by pat_completeness auto
termination
  by (relation "measure (\<lambda>(_, _, _, path, _). length path)") (auto simp: skipelem_shorter)

declare namex_loop.simps [simp del]

definition namex :: "'x fs_st_scheme devsw \<Rightarrow> byte list \<Rightarrow> bool \<Rightarrow> ('x fs_st_scheme, (nat \<times> byte list) option) kernel" where
  "namex devsw path parent =
     bnd (if path \<noteq> [] \<and> hd path = slash then iget ROOTDEV ROOTINO
          else bnd cur (\<lambda>p. bnd (gets (\<lambda>s. p_cwd (ptab s p))) (\<lambda>c.
            case c of None \<Rightarrow> undef | Some d \<Rightarrow> idup d))) (\<lambda>ip.
     namex_loop devsw parent ip path [])"

definition namei :: "'x fs_st_scheme devsw \<Rightarrow> byte list \<Rightarrow> ('x fs_st_scheme, nat option) kernel" where
  "namei devsw path = bnd (namex devsw path False) (\<lambda>r. ret (map_option fst r))"

definition nameiparent :: "'x fs_st_scheme devsw \<Rightarrow> byte list \<Rightarrow> ('x fs_st_scheme, (nat \<times> byte list) option) kernel" where
  "nameiparent devsw path = namex devsw path True"

section \<open>Logged block updates\<close>

text \<open>
  Inside a transaction: the log has \<open>m\<close> blocks and lists \<open>blks\<close>.  Routines of the
  file system touch only the parts of the state that \<open>only_log\<close> names.
\<close>

definition tx :: "'x log_st_scheme \<Rightarrow> nat \<Rightarrow> uint list \<Rightarrow> bool" where
  "tx s m blks \<longleftrightarrow> log_inv s m blks \<and> 1 \<le> lg_outstanding s \<and> LogLock \<notin> set (held s)"

definition only_log :: "'x log_st_scheme \<Rightarrow> 'x log_st_scheme \<Rightarrow> bool" where
  "only_log s s' \<longleftrightarrow> (\<exists>f p d w n b. s' = s\<lparr>bufs := f, ptab := p, disk := d, dwrites := w, lh_n := n, lh_block := b\<rparr>)"

definition ins :: "uint \<Rightarrow> uint list \<Rightarrow> uint list" where
  "ins n blks = (if n \<in> set blks then blks else blks @ [n])"

lemma only_log_refl [simp]: "only_log s s"
  unfolding only_log_def by (rule exI[of _ "bufs s"], rule exI[of _ "ptab s"], rule exI[of _ "disk s"],
      rule exI[of _ "dwrites s"], rule exI[of _ "lh_n s"], rule exI[of _ "lh_block s"]) simp

lemma only_log_trans: "only_log s t \<Longrightarrow> only_log t u \<Longrightarrow> only_log s u"
  unfolding only_log_def by (elim exE) (simp, blast)

lemma only_log_rest:
  fixes s :: "'x log_st_scheme"
  assumes "rest_same s t"
  shows "only_log s t"
proof -
  obtain f p d w where t: "t = s\<lparr>bufs := f, ptab := p, disk := d, dwrites := w\<rparr>"
    using assms by (auto simp: rest_same_def)
  have "t = s\<lparr>bufs := f, ptab := p, disk := d, dwrites := w, lh_n := lh_n s, lh_block := lh_block s\<rparr>"
    unfolding t by simp
  then show ?thesis unfolding only_log_def by blast
qed

lemma only_log_sel:
  assumes "only_log s t"
  shows "held t = held s" "disksize t = disksize s" "lg_start t = lg_start s" "lg_size t = lg_size s"
    "lg_outstanding t = lg_outstanding s" "lg_dev t = lg_dev s" "curproc t = curproc s"
    "log_st.more t = log_st.more s" "mem t = mem s" "freelist t = freelist s"
  using assms by (auto simp: only_log_def)

lemma tx_sel:
  assumes "tx s m blks"
  shows "bl_inv s" "dirty_blocks s = set blks" "card (dirty_blocks s) = length blks" "length blks < m"
    "lg_dev s = 1" "length (view s n) = BSIZE"
  using assms distinct_card[of blks] view_length by (auto simp: tx_def log_inv_def hdr_ok_def)

lemma tx_rest_same:
  fixes s :: "'x log_st_scheme"
  assumes "tx s m blks" and "rest_same s t" and "bl_inv t" and "dirty_blocks t = dirty_blocks s"
  shows "tx t m blks"
  using assms rest_same_log[OF assms(2)] by (auto simp: tx_def log_inv_def)

lemma log_write_only: 
  assumes "log_write b s = Ret r s'"
    and "log_inv s m blks" and "holds_buf s b = Some n" and "1 \<le> lg_outstanding s"
    and "LogLock \<notin> set (held s)" and "Suc (length blks) < m"
  shows "only_log s s'"
proof -
  obtain k bl where s': "s' = pin_buf b (s\<lparr>lh_n := int k, lh_block := bl\<rparr>)"
    using log_write_run[OF assms(2-6)] assms(1) by auto
  have "s' = s\<lparr>bufs := (bufs s)(b := (bufs s b)\<lparr>b_dirty := True\<rparr>), ptab := ptab s, disk := disk s,
      dwrites := dwrites s, lh_n := int k, lh_block := bl\<rparr>"
    unfolding s' by (simp add: pin_buf_def)
  then show ?thesis unfolding only_log_def by blast
qed

text \<open>The block a caller may read: not held, and with a buffer to spare unless it is pinned.\<close>

definition free_blk :: "'x log_st_scheme \<Rightarrow> uint list \<Rightarrow> uint \<Rightarrow> bool" where
  "free_blk s blks n \<longleftrightarrow> n < disksize s \<and> n \<notin> ran (holds_buf s)
     \<and> (n \<in> set blks \<or> card (dom (holds_buf s)) + length blks < NBUF)"

lemma bread_tx:
  fixes s :: "'x log_st_scheme"
  assumes "tx s m blks" and "free_blk s blks n"
  shows "runs (bread 1 n) s (\<lambda>i t. tx t m blks \<and> holds_buf s i = None \<and> holds_buf t = (holds_buf s)(i \<mapsto> n)
    \<and> view t = view s \<and> only_log s t \<and> disk t = disk s \<and> buf_data t i = view s n)"
proof -
  note t = tx_sel[OF assms(1)]
  have "runs (bread 1 n) s (\<lambda>i s'. bl_inv s' \<and> rest_same s s' \<and> holds_buf s i = None
      \<and> holds_buf s' = (holds_buf s)(i \<mapsto> n) \<and> view s' = view s
      \<and> dirty_blocks s' = dirty_blocks s \<and> disk s' = disk s \<and> dwrites s' = dwrites s)"
    using assms(2) t by (intro bread_law) (auto simp: free_blk_def)
  then show ?thesis
  proof (rule runs_mono, elim conjE)
    fix i s' assume s': "bl_inv s'" "rest_same s s'" "holds_buf s i = None" "holds_buf s' = (holds_buf s)(i \<mapsto> n)"
      "view s' = view s" "dirty_blocks s' = dirty_blocks s" "disk s' = disk s"
    have "buf_data s' i = view s' n" using s'(1,4) by (intro buf_data_law) simp_all
    then show "tx s' m blks \<and> holds_buf s i = None \<and> holds_buf s' = (holds_buf s)(i \<mapsto> n)
      \<and> view s' = view s \<and> only_log s s' \<and> disk s' = disk s \<and> buf_data s' i = view s n"
      using s' tx_rest_same[OF assms(1) s'(2,1,6)] only_log_rest[OF s'(2)] by simp
  qed
qed

lemma brelse_tx:
  fixes s :: "'x log_st_scheme"
  assumes "tx s m blks" and "holds_buf s i = Some n" and "n \<in> set blks \<or> view s n = disk s n"
  shows "runs (brelse i) s (\<lambda>_ t. tx t m blks \<and> holds_buf t = (holds_buf s)(i := None)
    \<and> view t = view s \<and> only_log s t \<and> disk t = disk s)"
proof -
  note t = tx_sel[OF assms(1)]
  have "runs (brelse i) s (\<lambda>_ s'. bl_inv s' \<and> rest_same s s' \<and> holds_buf s' = (holds_buf s)(i := None)
    \<and> view s' = view s \<and> dirty_blocks s' = dirty_blocks s \<and> disk s' = disk s \<and> dwrites s' = dwrites s)"
    using assms(2,3) t by (intro brelse_law[where n = n]) auto
  then show ?thesis
    by (rule runs_mono) (use tx_rest_same[OF assms(1)] only_log_rest in blast)
qed

lemma log_write_tx:
  fixes s :: "'x log_st_scheme"
  assumes "tx s m blks" and "holds_buf s i = Some n" and "Suc (length blks) < m" and "n \<notin> region (lg_start s) m"
  shows "runs (log_write i) s (\<lambda>_ t. tx t m (ins n blks) \<and> holds_buf t = holds_buf s
    \<and> view t = view s \<and> only_log s t \<and> disk t = disk s)"
proof -
  have tx: "log_inv s m blks" "1 \<le> lg_outstanding s" "LogLock \<notin> set (held s)" using assms(1) by (auto simp: tx_def)
  have "runs (log_write i) s (\<lambda>_ s'. log_inv s' m (if n \<in> set blks then blks else blks @ [n])
    \<and> holds_buf s' = holds_buf s \<and> view s' = view s \<and> disk s' = disk s)"
    by (rule log_write_law[OF tx(1) assms(2) tx(2,3) assms(3,4)])
  then obtain r t where t: "log_write i s = Ret r t" "log_inv t m (ins n blks)" "holds_buf t = holds_buf s"
      "view t = view s" "disk t = disk s"
    by (auto simp: runs_iff ins_def)
  have o: "only_log s t" by (rule log_write_only[OF t(1) tx(1) assms(2) tx(2,3) assms(3)])
  then show ?thesis using t only_log_sel[OF o] tx by (simp add: runs_def tx_def)
qed

text \<open>A routine that keeps the transaction and changes the contents of blocks to \<open>v\<close>.\<close>

definition tx_to :: "'x log_st_scheme \<Rightarrow> nat \<Rightarrow> uint list \<Rightarrow> (uint \<Rightarrow> block) \<Rightarrow> 'x log_st_scheme \<Rightarrow> bool" where
  "tx_to s m blks v t \<longleftrightarrow> tx t m blks \<and> holds_buf t = holds_buf s \<and> view t = v \<and> only_log s t \<and> disk t = disk s"

lemma held_clean:
  assumes "tx s m blks" and "free_blk s blks n"
  shows "n \<in> set blks \<or> view s n = disk s n"
  using view_clean_law[of s n] tx_sel[OF assms(1)] assms(2) by (auto simp: free_blk_def)

lemma read_block:
  fixes s :: "'x log_st_scheme"
  assumes "tx s m blks" and "free_blk s blks n"
  shows "runs (bnd (bread 1 n) (\<lambda>bp. bnd (gets (\<lambda>s. g (buf_data s bp))) (\<lambda>x. thn (brelse bp) (ret x)))) s
    (\<lambda>x t. x = g (view s n) \<and> tx_to s m blks (view s) t)"
  unfolding runs_bnd
proof (rule runs_mono[OF bread_tx[OF assms]], elim conjE)
  fix i and t :: "'x log_st_scheme" assume t: "tx t m blks" "holds_buf s i = None" "holds_buf t = (holds_buf s)(i \<mapsto> n)"
    "view t = view s" "only_log s t" "disk t = disk s" "buf_data t i = view s n"
  have "n \<in> set blks \<or> view t n = disk t n" using held_clean[OF assms] t(4,6) by simp
  then have "runs (brelse i) t (\<lambda>_ u. tx u m blks \<and> holds_buf u = (holds_buf t)(i := None)
    \<and> view u = view t \<and> only_log t u \<and> disk u = disk t)"
    using t(1,3) by (intro brelse_tx[where n = n]) simp_all
  then have "runs (brelse i) t (\<lambda>_ u. tx_to s m blks (view s) u)"
    by (rule runs_mono) (use t only_log_trans[OF t(5)] in \<open>auto simp: tx_to_def fun_eq_iff\<close>)
  then show "runs (gets (\<lambda>s. g (buf_data s i))) t (\<lambda>a s'. runs (thn (brelse i) (ret a)) s'
      (\<lambda>x t. x = g (view s n) \<and> tx_to s m blks (view s) t))"
    using t(7) by simp
qed

lemma finish_update:
  fixes s t :: "'x log_st_scheme"
  assumes "tx t m blks" and "holds_buf s i = None" and "holds_buf t = (holds_buf s)(i \<mapsto> n)" and "only_log s t"
    and "disk t = disk s" and "length d = BSIZE" and "Suc (length blks) < m" and "n \<notin> region (lg_start s) m"
  shows "runs (thn (modify (put_data i d)) (thn (log_write i) (brelse i))) t
    (\<lambda>_ u. tx_to s m (ins n blks) ((view t)(n := d)) u)"
proof -
  let ?t = "put_data i d t"
  have ht: "holds_buf t i = Some n" using assms(3) by simp
  note p = put_data_law[OF tx_sel(1)[OF assms(1)] ht assms(6)]
  have tx: "tx ?t m blks" by (rule tx_rest_same[OF assms(1) p(4,1,5)])
  have "runs (log_write i) ?t (\<lambda>_ u. tx u m (ins n blks) \<and> holds_buf u = holds_buf ?t
    \<and> view u = view ?t \<and> only_log ?t u \<and> disk u = disk ?t)"
    by (rule log_write_tx[OF tx _ assms(7)])
      (use p(3) ht assms(8) only_log_sel[OF assms(4)] rest_same_log[OF p(4)] in simp_all)
  then have "runs (log_write i) ?t (\<lambda>_ u. runs (brelse i) u (\<lambda>_ v. tx_to s m (ins n blks) ((view t)(n := d)) v))"
  proof (rule runs_mono, elim conjE)
    fix u :: "'x log_st_scheme" assume u: "tx u m (ins n blks)" "holds_buf u = holds_buf ?t" "view u = view ?t"
      "only_log ?t u" "disk u = disk ?t"
    have "runs (brelse i) u (\<lambda>_ v. tx v m (ins n blks) \<and> holds_buf v = (holds_buf u)(i := None)
      \<and> view v = view u \<and> only_log u v \<and> disk v = disk u)"
      by (rule brelse_tx[OF u(1), of i n]) (use u(2) p(3) ht in \<open>auto simp: ins_def\<close>)
    moreover have "only_log s u"
      using assms(4) only_log_rest[OF p(4)] u(4) by (blast intro: only_log_trans)
    ultimately show "runs (brelse i) u (\<lambda>_ v. tx_to s m (ins n blks) ((view t)(n := d)) v)"
      using u p assms(2,3,5) only_log_trans[of s u]
      by (elim runs_mono) (auto simp: tx_to_def fun_eq_iff)
  qed
  then show ?thesis by simp
qed

lemma update_block:
  fixes s :: "'x log_st_scheme"
  assumes "tx s m blks" and "free_blk s blks n" and "Suc (length blks) < m" and "n \<notin> region (lg_start s) m"
    and "\<And>d. length d = BSIZE \<Longrightarrow> length (f d) = BSIZE"
  shows "runs (bnd (bread 1 n) (\<lambda>bp. thn (modify (\<lambda>s. put_data bp (f (buf_data s bp)) s)) (thn (log_write bp) (brelse bp)))) s
    (\<lambda>_ t. tx_to s m (ins n blks) ((view s)(n := f (view s n))) t)"
  unfolding runs_bnd
proof (rule runs_mono[OF bread_tx[OF assms(1,2)]], elim conjE)
  fix i and t :: "'x log_st_scheme" assume t: "tx t m blks" "holds_buf s i = None" "holds_buf t = (holds_buf s)(i \<mapsto> n)"
    "view t = view s" "only_log s t" "disk t = disk s" "buf_data t i = view s n"
  have "runs (thn (modify (put_data i (f (view s n)))) (thn (log_write i) (brelse i))) t
      (\<lambda>_ u. tx_to s m (ins n blks) ((view t)(n := f (view s n))) u)"
    using assms(5) tx_sel(6)[OF assms(1)] by (intro finish_update[OF t(1,2,3,5,6) _ assms(3,4)]) simp
  then show "runs (thn (modify (\<lambda>s. put_data i (f (buf_data s i)) s)) (thn (log_write i) (brelse i))) t
      (\<lambda>_ u. tx_to s m (ins n blks) ((view s)(n := f (view s n))) u)"
    using t(4,7) by simp
qed

text \<open>Parts of the file system state outside the log do not matter to it.\<close>

lemma tx_fs [simp]:
  "tx (s\<lparr>inodes := x\<rparr>) m blks = tx s m blks" "tx (s\<lparr>fs_sb := y\<rparr>) m blks = tx s m blks"
  "holds_buf (s\<lparr>inodes := x\<rparr>) = holds_buf s" "holds_buf (s\<lparr>fs_sb := y\<rparr>) = holds_buf s"
  "view (s\<lparr>inodes := x\<rparr>) = view s" "view (s\<lparr>fs_sb := y\<rparr>) = view s"
  by (simp_all add: tx_def log_inv_def lh_is_def bl_inv_def bc_inv_def lru_def bc_unlocked_def view_def dirty_blocks_def
      holds_buf_def fun_eq_iff split: option.split)

lemma free_blk_fs [simp]:
  "free_blk (s\<lparr>inodes := x\<rparr>) blks n = free_blk s blks n" "free_blk (s\<lparr>fs_sb := y\<rparr>) blks n = free_blk s blks n"
  by (simp_all add: free_blk_def)

lemma only_log_fs:
  fixes s t :: "'x fs_st_scheme"
  assumes "only_log s t"
  shows "inodes t = inodes s" "fs_sb t = fs_sb s" "fs_st.more t = fs_st.more s"
  using assms by (auto simp: only_log_def)

lemma tx_toD:
  assumes "tx_to s m blks v t"
  shows "tx t m blks" "holds_buf t = holds_buf s" "view t = v" "only_log s t" "disk t = disk s"
    "disksize t = disksize s" "lg_start t = lg_start s" "held t = held s"
  using assms only_log_sel[of s t] by (auto simp: tx_to_def)

end
