(* ===== verification/Fsalloc.thy ===== *)
theory Fsalloc
  imports Fs
begin

text \<open>
  The block allocator of \<^verbatim>\<open>fs.c\<close>: what \<^verbatim>\<open>balloc\<close> and
  \<^verbatim>\<open>bfree\<close> do to the free map, seen through the log.  The bits of the map are read
  back as the predicate \<open>used\<close> on block numbers, and \<open>fs_layout\<close> says where the map
  lies and that the blocks of the log and of the map itself are marked as in use.
\<close>

section \<open>Idle buffers\<close>

text \<open>No buffer is held; then every block of the disk can be read.\<close>

definition quiet :: "'x log_st_scheme \<Rightarrow> nat \<Rightarrow> uint list \<Rightarrow> bool" where
  "quiet s m blks \<longleftrightarrow> tx s m blks \<and> holds_buf s = Map.empty"

lemma quiet_free: "quiet s m blks \<Longrightarrow> n < disksize s \<Longrightarrow> free_blk s blks n"
  using tx_sel(4)[of s m blks] by (auto simp: quiet_def free_blk_def tx_def log_inv_def hdr_ok_def)

lemma quiet_tx_to: "quiet s m blks \<Longrightarrow> tx_to s m blks' v t \<Longrightarrow> quiet t m blks'"
  by (simp add: quiet_def tx_to_def)

lemma quiet_fs [simp]:
  "quiet (s\<lparr>inodes := x\<rparr>) m blks = quiet s m blks" "quiet (s\<lparr>fs_sb := y\<rparr>) m blks = quiet s m blks"
  by (simp_all add: quiet_def)


section \<open>Bits\<close>

lemma bit_used_iff: "bit_used d bi \<longleftrightarrow> bit (d ! (bi div 8)) (bi mod 8)"
  by (simp add: bit_used_def bit_iff_and_push_bit_not_eq_0)

definition set_bit_at :: "byte list \<Rightarrow> nat \<Rightarrow> byte list" where
  "set_bit_at d bi = d[bi div 8 := d ! (bi div 8) OR push_bit (bi mod 8) 1]"

definition clear_bit_at :: "byte list \<Rightarrow> nat \<Rightarrow> byte list" where
  "clear_bit_at d bi = d[bi div 8 := d ! (bi div 8) AND NOT (push_bit (bi mod 8) 1)]"

lemma bit_at_length [simp]: "length (set_bit_at d bi) = length d" "length (clear_bit_at d bi) = length d"
  by (simp_all add: set_bit_at_def clear_bit_at_def)

lemma same_bit: "bi div 8 = j div 8 \<Longrightarrow> bi mod 8 = j mod 8 \<longleftrightarrow> bi = (j :: nat)"
  using mult_div_mod_eq[of 8 bi] mult_div_mod_eq[of 8 j] by auto

lemma bit_set_bit_at: "bi < 8 * length d \<Longrightarrow> bit_used (set_bit_at d bi) j \<longleftrightarrow> bit_used d j \<or> j = bi"
  using same_bit[of bi j] by (auto simp: bit_used_iff set_bit_at_def nth_list_update bit_simps div_less_iff_less_mult)

lemma bit_clear_bit_at: "bi < 8 * length d \<Longrightarrow> bit_used (clear_bit_at d bi) j \<longleftrightarrow> bit_used d j \<and> j \<noteq> bi"
  using same_bit[of bi j] by (auto simp: bit_used_iff clear_bit_at_def nth_list_update bit_simps div_less_iff_less_mult)

section \<open>The free map\<close>

text \<open>The bitmap block of a block, whether the block is in use, and what the layout of the disk provides.\<close>

definition bmb :: "superblock \<Rightarrow> nat \<Rightarrow> uint" where
  "bmb sb b = BBLOCK (of_nat b) sb"

definition bmbs :: "superblock \<Rightarrow> uint set" where
  "bmbs sb = bmb sb ` {0..<unat (sb_size sb)}"

definition used :: "superblock \<Rightarrow> (uint \<Rightarrow> block) \<Rightarrow> nat \<Rightarrow> bool" where
  "used sb v b = bit_used (v (bmb sb b)) (b mod BPB)"

definition fs_layout :: "superblock \<Rightarrow> nat \<Rightarrow> (uint \<Rightarrow> block) \<Rightarrow> 'x log_st_scheme \<Rightarrow> bool" where
  "fs_layout sb m v s \<longleftrightarrow> sb_size sb \<le> disksize s
     \<and> (\<forall>n \<in> bmbs sb. n < disksize s \<and> n \<notin> region (lg_start s) m)
     \<and> (\<forall>b < unat (sb_size sb). \<not> used sb v b \<longrightarrow> b \<noteq> 0 \<and> of_nat b \<notin> region (lg_start s) m \<and> of_nat b \<notin> bmbs sb)"

lemma bmb_eq: "b < 2 ^ 32 \<Longrightarrow> bmb sb b = of_nat (b div BPB) + sb_bmapstart sb"
proof -
  assume b: "b < 2 ^ 32"
  have "unat (of_nat b div 4096 :: uint) = b div 4096" using b by (simp add: unat_div unat_of_nat32)
  also have "b div 4096 = unat (of_nat (b div 4096) :: uint)"
    using b div_le_dividend[of b 4096] by (intro unat_of_nat32[symmetric]) linarith
  finally have "(of_nat b div 4096 :: uint) = of_nat (b div 4096)" by (simp only: word_unat_eq_iff)
  then show ?thesis by (simp add: bmb_def BBLOCK_def)
qed

lemma bmb_same: "b < 2 ^ 32 \<Longrightarrow> b' < 2 ^ 32 \<Longrightarrow> bmb sb b = bmb sb b' \<longleftrightarrow> b div BPB = b' div BPB"
proof -
  assume "b < 2 ^ 32" "b' < 2 ^ 32"
  moreover from this have "b div BPB < 2 ^ 32" "b' div BPB < 2 ^ 32"
    using div_le_dividend[of b BPB] div_le_dividend[of b' BPB] by linarith+
  ultimately show ?thesis using unat_of_nat32 by (simp only: bmb_eq add_right_cancel) metis
qed

lemma size_bound: "b < unat (sb_size sb) \<Longrightarrow> b < 2 ^ 32"
  using unat_lt32[of "sb_size sb"] by linarith

lemma bmb_in: "b < unat (sb_size sb) \<Longrightarrow> bmb sb b \<in> bmbs sb"
  by (simp add: bmbs_def)

lemma used_cong: "(\<And>n. n \<in> bmbs sb \<Longrightarrow> v' n = v n) \<Longrightarrow> b < unat (sb_size sb) \<Longrightarrow> used sb v' b = used sb v b"
  by (simp add: used_def bmb_in)

lemma used_set:
  assumes "b < unat (sb_size sb)" and "b' < unat (sb_size sb)" and "length (v (bmb sb b)) = BSIZE"
  shows "used sb (v(bmb sb b := set_bit_at (v (bmb sb b)) (b mod BPB))) b' \<longleftrightarrow> used sb v b' \<or> b' = b"
    and "used sb (v(bmb sb b := clear_bit_at (v (bmb sb b)) (b mod BPB))) b' \<longleftrightarrow> used sb v b' \<and> b' \<noteq> b"
proof -
  have i: "b mod BPB < 8 * length (v (bmb sb b))" using assms(3) by simp
  have s: "bmb sb b' = bmb sb b \<longleftrightarrow> b' div BPB = b div BPB" by (rule bmb_same[OF size_bound[OF assms(2)] size_bound[OF assms(1)]])
  have e: "b' div BPB = b div BPB \<Longrightarrow> b' mod BPB = b mod BPB \<longleftrightarrow> b' = b"
    using mult_div_mod_eq[of BPB b] mult_div_mod_eq[of BPB b'] by auto
  show "used sb (v(bmb sb b := set_bit_at (v (bmb sb b)) (b mod BPB))) b' \<longleftrightarrow> used sb v b' \<or> b' = b"
    using s e bit_set_bit_at[OF i, of "b' mod BPB"] by (auto simp: used_def)
  show "used sb (v(bmb sb b := clear_bit_at (v (bmb sb b)) (b mod BPB))) b' \<longleftrightarrow> used sb v b' \<and> b' \<noteq> b"
    using s e bit_clear_bit_at[OF i, of "b' mod BPB"] by (auto simp: used_def)
qed

section \<open>Allocation\<close>

text \<open>What \<^verbatim>\<open>balloc\<close> needs: at most one held buffer, of a block in use, and two entries of the log.\<close>

definition can_alloc :: "'x fs_st_scheme \<Rightarrow> nat \<Rightarrow> uint list \<Rightarrow> bool" where
  "can_alloc s m blks \<longleftrightarrow> tx s m blks \<and> fs_layout (fs_sb s) m (view s) s \<and> length blks + 2 < m
     \<and> card (dom (holds_buf s)) \<le> 1
     \<and> (\<forall>n \<in> ran (holds_buf s). n \<notin> bmbs (fs_sb s)
          \<and> (\<forall>b < unat (sb_size (fs_sb s)). n = of_nat b \<longrightarrow> used (fs_sb s) (view s) b))"

definition alloc_view :: "superblock \<Rightarrow> nat \<Rightarrow> (uint \<Rightarrow> block) \<Rightarrow> uint \<Rightarrow> block" where
  "alloc_view sb b v = (v(bmb sb b := set_bit_at (v (bmb sb b)) (b mod BPB)))(of_nat b := replicate BSIZE 0)"

lemma ins_length: "length (ins n blks) \<le> Suc (length blks)"
  by (simp add: ins_def)

lemma tx_to_refl: "tx s m blks \<Longrightarrow> tx_to s m blks (view s) s"
  by (simp add: tx_to_def)

lemma tx_to_trans: "tx_to s m bl v t \<Longrightarrow> tx_to t m bl' w u \<Longrightarrow> tx_to s m bl' w u"
  by (auto simp: tx_to_def intro: only_log_trans)

lemma can_alloc_cong:
  assumes "can_alloc s m blks" and "tx_to s m blks (view s) t"
  shows "can_alloc t m blks"
  using assms tx_toD[OF assms(2)] only_log_fs[OF tx_toD(4)[OF assms(2)]]
  by (simp add: can_alloc_def fs_layout_def)

lemma can_alloc_free_blk:
  assumes "can_alloc s m blks" and "length bl \<le> Suc (length blks)" and "n < disksize s"
    and "n \<in> bmbs (fs_sb s) \<or> (\<exists>b < unat (sb_size (fs_sb s)). n = of_nat b \<and> \<not> used (fs_sb s) (view s) b)"
  shows "free_blk s bl n"
proof -
  have "m \<le> LOGSIZE" using assms(1) by (simp add: can_alloc_def tx_def log_inv_def hdr_ok_def)
  moreover have "n \<notin> ran (holds_buf s)" using assms(1,4) by (auto simp: can_alloc_def)
  ultimately show ?thesis using assms(1-3) by (auto simp: can_alloc_def free_blk_def)
qed

lemma free_blk_tx_to: "tx_to s m bl v t \<Longrightarrow> free_blk t bl' n = free_blk s bl' n"
  by (simp add: free_blk_def tx_toD)

lemma bzero_run:
  fixes s :: "'x fs_st_scheme"
  assumes "tx s m blks" and "free_blk s blks n" and "Suc (length blks) < m" and "n \<notin> region (lg_start s) m"
  shows "runs (bzero 1 n) s (\<lambda>_ t. tx_to s m (ins n blks) ((view s)(n := replicate BSIZE 0)) t)"
  using update_block[OF assms, of "\<lambda>_. replicate BSIZE 0"] by (simp add: bzero_def)

text \<open>One bitmap block: either all its blocks are in use, or the first free one is taken.\<close>

definition took :: "'x fs_st_scheme \<Rightarrow> nat \<Rightarrow> uint list \<Rightarrow> nat \<Rightarrow> 'x fs_st_scheme \<Rightarrow> bool" where
  "took s m blks b t \<longleftrightarrow> b < unat (sb_size (fs_sb s)) \<and> \<not> used (fs_sb s) (view s) b
     \<and> tx_to s m (ins (of_nat b) (ins (bmb (fs_sb s) b) blks)) (alloc_view (fs_sb s) b (view s)) t"

lemma take_block:
  fixes s t :: "'x fs_st_scheme"
  assumes "can_alloc s m blks" and "b < unat (sb_size (fs_sb s))" and "\<not> used (fs_sb s) (view s) b"
    and "tx t m blks" and "holds_buf s i = None" and "holds_buf t = (holds_buf s)(i \<mapsto> bmb (fs_sb s) b)"
    and "view t = view s" and "only_log s t" and "disk t = disk s"
  shows "runs (thn (modify (put_data i (set_bit_at (view s (bmb (fs_sb s) b)) (b mod BPB))))
      (thn (log_write i) (thn (brelse i) (bzero 1 (of_nat b))))) t (\<lambda>_ u. took s m blks b u)"
proof -
  let ?sb = "fs_sb s" and ?n = "bmb (fs_sb s) b" and ?a = "of_nat b :: uint"
  have c: "fs_layout ?sb m (view s) s" "length blks + 2 < m" "tx s m blks" using assms(1) by (auto simp: can_alloc_def)
  have n: "?n < disksize s" "?n \<notin> region (lg_start s) m" using c(1) bmb_in[OF assms(2)] by (auto simp: fs_layout_def)
  have ub: "unat ?a = b" using size_bound[OF assms(2)] by (simp add: unat_of_nat32)
  have a: "?a < disksize s" "?a \<notin> region (lg_start s) m"
    using c(1) assms(2,3) ub by (auto simp: fs_layout_def word_less_nat_alt word_le_nat_alt)
  have "runs (thn (modify (put_data i (set_bit_at (view s ?n) (b mod BPB)))) (thn (log_write i) (brelse i))) t
     (\<lambda>_ u. tx_to s m (ins ?n blks) ((view t)(?n := set_bit_at (view s ?n) (b mod BPB))) u)"
    by (rule finish_update[OF assms(4,5,6,8,9) _ _ n(2)]) (use c tx_sel(6)[OF c(3)] in simp_all)
  then have "runs (thn (modify (put_data i (set_bit_at (view s ?n) (b mod BPB)))) (thn (log_write i) (brelse i))) t
     (\<lambda>_ u. runs (bzero 1 ?a) u (\<lambda>_ v. took s m blks b v))"
  proof (rule runs_mono)
    fix u :: "'x fs_st_scheme" assume u: "tx_to s m (ins ?n blks) ((view t)(?n := set_bit_at (view s ?n) (b mod BPB))) u"
    note uD = tx_toD[OF u]
    have "free_blk s (ins ?n blks) ?a"
      using assms(2,3) by (intro can_alloc_free_blk[OF assms(1) ins_length a(1)]) blast
    then have "runs (bzero 1 ?a) u (\<lambda>_ v. tx_to u m (ins ?a (ins ?n blks)) ((view u)(?a := replicate BSIZE 0)) v)"
      using a(2) c(2) ins_length[of ?n blks] uD(7) free_blk_tx_to[OF u] by (intro bzero_run[OF uD(1)]) simp_all
    then show "runs (bzero 1 ?a) u (\<lambda>_ v. took s m blks b v)"
      by (rule runs_mono) (use assms(2,3,7) uD(3) tx_to_trans[OF u] in \<open>simp add: took_def alloc_view_def\<close>)
  qed
  then show ?thesis by simp
qed

lemma balloc_at_run:
  fixes s :: "'x fs_st_scheme"
  assumes "can_alloc s m blks" and "k * BPB < unat (sb_size (fs_sb s))"
  shows "runs (balloc_at 1 (k * BPB)) s (\<lambda>r t. case r of
      Some a \<Rightarrow> \<exists>b. a = of_nat b \<and> k * BPB \<le> b \<and> (\<forall>b' < b. k * BPB \<le> b' \<longrightarrow> used (fs_sb s) (view s) b') \<and> took s m blks b t
    | None \<Rightarrow> tx_to s m blks (view s) t \<and> (\<forall>b < unat (sb_size (fs_sb s)). k * BPB \<le> b \<longrightarrow> b < Suc k * BPB
        \<longrightarrow> used (fs_sb s) (view s) b))" (is "runs _ s ?Q")
proof -
  let ?sb = "fs_sb s" and ?n = "bmb (fs_sb s) (k * BPB)" and ?sz = "unat (sb_size (fs_sb s))"
  have c: "fs_layout ?sb m (view s) s" "tx s m blks" using assms(1) by (auto simp: can_alloc_def)
  have n: "?n < disksize s" using c(1) bmb_in[OF assms(2)] by (auto simp: fs_layout_def)
  have f: "free_blk s blks ?n" using bmb_in[OF assms(2)] by (intro can_alloc_free_blk[OF assms(1) _ n]) auto
  have u: "used ?sb (view s) (k * BPB + bi) = bit_used (view s ?n) bi" "bmb ?sb (k * BPB + bi) = ?n"
    if "bi < BPB" "k * BPB + bi < ?sz" for bi
  proof -
    have "(k * BPB + bi) div BPB = (k * BPB) div BPB" "(k * BPB + bi) mod BPB = bi"
      using that(1) by (simp_all add: mult.commute[of k])
    then show "used ?sb (view s) (k * BPB + bi) = bit_used (view s ?n) bi" "bmb ?sb (k * BPB + bi) = ?n"
      using bmb_same[OF size_bound[OF that(2)] size_bound[OF assms(2)]] by (simp_all add: used_def)
  qed
  show ?thesis unfolding balloc_at_def runs_bnd runs_gets bmb_def[symmetric]
  proof (rule runs_mono[OF bread_tx[OF c(2) f]], elim conjE)
    fix i and t :: "'x fs_st_scheme"
    assume t: "tx t m blks" "holds_buf s i = None" "holds_buf t = (holds_buf s)(i \<mapsto> ?n)" "view t = view s"
      "only_log s t" "disk t = disk s" "buf_data t i = view s ?n"
    let ?find = "find (\<lambda>bi. \<not> bit_used (buf_data t i) bi) [0..<min BPB (?sz - k * BPB)]"
    show "runs (case ?find of
        Some bi \<Rightarrow> thn (modify (put_data i ((buf_data t i)[bi div 8 := (buf_data t i) ! (bi div 8) OR push_bit (bi mod 8) 1])))
          (thn (log_write i) (thn (brelse i) (thn (bzero 1 (of_nat (k * BPB + bi))) (ret (Some (of_nat (k * BPB + bi)))))))
      | None \<Rightarrow> thn (brelse i) (ret None)) t ?Q"
    proof (cases ?find)
      case None
      then have "used ?sb (view s) b" if "b < ?sz" "k * BPB \<le> b" "b < Suc k * BPB" for b
        using u(1)[of "b - k * BPB"] that t(7) by (auto simp: find_upt_None)
      moreover have "runs (brelse i) t (\<lambda>_ v. tx v m blks \<and> holds_buf v = (holds_buf t)(i := None)
          \<and> view v = view t \<and> only_log t v \<and> disk v = disk t)"
        using t(1,3,4,6) held_clean[OF c(2) f] by (intro brelse_tx[where n = ?n]) simp_all
      ultimately show ?thesis using None t(2-6)
        by (simp, elim runs_mono) (auto simp: tx_to_def fun_eq_iff intro: only_log_trans)
    next
      case (Some bi)
      then have bi: "bi < BPB" "k * BPB + bi < ?sz" "\<not> bit_used (view s ?n) bi" "\<forall>j < bi. bit_used (view s ?n) j"
        unfolding find_upt_Some t(7) by auto
      let ?b = "k * BPB + bi"
      have bm: "?b mod BPB = bi" using bi(1) by (simp add: mult.commute[of k])
      have "used ?sb (view s) b'" if "b' < ?b" "k * BPB \<le> b'" for b'
        using u(1)[of "b' - k * BPB"] bi that by auto
      moreover have "runs (thn (modify (put_data i (set_bit_at (view s ?n) bi)))
          (thn (log_write i) (thn (brelse i) (bzero 1 (of_nat ?b))))) t (\<lambda>_ v. took s m blks ?b v)"
        using take_block[OF assms(1) bi(2) _ t(1,2) _ t(4,5,6)] u[OF bi(1,2)] bi(3) t(3) by (simp only: bm simp_thms)
      ultimately show ?thesis using Some t(7)
        by (simp add: set_bit_at_def, elim runs_mono) (auto intro!: exI[of _ ?b])
    qed
  qed
qed

lemma balloc_run:
  fixes s :: "'x fs_st_scheme"
  assumes "can_alloc s m blks" and "b < unat (sb_size (fs_sb s))" and "\<not> used (fs_sb s) (view s) b"
  shows "runs (balloc 1) s (\<lambda>a t. \<exists>b. a = of_nat b \<and> (\<forall>b' < b. used (fs_sb s) (view s) b') \<and> took s m blks b t)"
proof -
  let ?sb = "fs_sb s" and ?sz = "unat (sb_size (fs_sb s))"
  let ?K = "(?sz + BPB - 1) div BPB"
  let ?Q = "\<lambda>a t. \<exists>b. a = of_nat b \<and> (\<forall>b' < b. used ?sb (view s) b') \<and> took s m blks b t"
  have "runs (scanM (map (\<lambda>k. k * BPB) [0..<?K]) (balloc_at 1)) s (\<lambda>r t. \<exists>a. r = Some a \<and> ?Q a t)"
  proof (rule runs_scanM[where I = "\<lambda>ys t. tx_to s m blks (view s) t
      \<and> (\<forall>b < ?sz. b < length ys * BPB \<longrightarrow> used ?sb (view s) b)"], goal_cases)
    case 1
    show ?case using assms(1) tx_to_refl by (auto simp: can_alloc_def)
  next
    case (2 ys x zs t)
    let ?k = "length ys"
    have k: "?k < ?K" using arg_cong[OF 2(1), of length] by simp
    have x: "x = ?k * BPB" using arg_cong[OF 2(1), of "\<lambda>xs. xs ! ?k"] k by simp
    have kb: "?k * BPB < ?sz" using k by (simp add: less_eq_div_iff_mult_less_eq Suc_le_eq[symmetric])
    have t: "tx_to s m blks (view s) t" and u: "\<And>b. b < ?sz \<Longrightarrow> b < ?k * BPB \<Longrightarrow> used ?sb (view s) b"
      using 2(2) by auto
    note tD = tx_toD[OF t]
    have e: "fs_sb t = ?sb" "view t = view s" using only_log_fs[OF tD(4)] tD by simp_all
    have tk: "took t m blks b' w \<Longrightarrow> took s m blks b' w" for b' w
      using tx_to_trans[OF t] by (auto simp: took_def e)
    show ?case unfolding x
    proof (rule runs_mono[OF balloc_at_run[OF can_alloc_cong[OF assms(1) t], of ?k, unfolded e, OF kb]], goal_cases)
      case (1 r w)
      show ?case
      proof (cases r)
        case None
        then show ?thesis using 1 u tx_to_trans[OF t] by (auto simp: not_less)
      next
        case (Some a)
        then obtain b' where b': "a = of_nat b'" "\<forall>b'' < b'. ?k * BPB \<le> b'' \<longrightarrow> used ?sb (view s) b''" "took t m blks b' w"
          using 1 by auto
        have "\<forall>b'' < b'. used ?sb (view s) b''"
          using b'(2,3) u e by (auto simp: took_def)
        then show ?thesis using Some b' tk by auto
      qed
    qed
  next
    case (3 t)
    have "?sz \<le> ?K * BPB" by simp
    then show ?case using 3 assms(2,3) by auto
  qed
  then show ?thesis unfolding balloc_def by (simp, elim runs_mono) auto
qed

text \<open>What taking a block changes.\<close>

lemma alloc_view_other: "n \<noteq> of_nat b \<Longrightarrow> n \<noteq> bmb sb b \<Longrightarrow> alloc_view sb b v n = v n"
  by (simp add: alloc_view_def)

lemma alloc_view_new: "alloc_view sb b v (of_nat b) = replicate BSIZE 0"
  by (simp add: alloc_view_def)

lemma fresh_not_bmb:
  assumes "fs_layout sb m v s" and "b < unat (sb_size sb)" and "\<not> used sb v b" and "b' < unat (sb_size sb)"
  shows "of_nat b \<noteq> bmb sb b'"
  using assms bmb_in[OF assms(4)] by (auto simp: fs_layout_def)

lemma alloc_view_used:
  assumes "fs_layout sb m v s" and "b < unat (sb_size sb)" and "\<not> used sb v b" and "b' < unat (sb_size sb)"
    and "length (v (bmb sb b)) = BSIZE"
  shows "used sb (alloc_view sb b v) b' \<longleftrightarrow> used sb v b' \<or> b' = b"
  using used_set(1)[OF assms(2,4), of v] assms(5) fresh_not_bmb[OF assms(1-4)] by (simp add: alloc_view_def used_def)

lemma fs_layout_mono:
  assumes "fs_layout sb m v s" and "\<And>b. b < unat (sb_size sb) \<Longrightarrow> used sb v b \<Longrightarrow> used sb v' b"
    and "disksize t = disksize s" and "lg_start t = lg_start s"
  shows "fs_layout sb m v' t"
  using assms by (auto simp: fs_layout_def)

lemma tookD:
  fixes s t :: "'x fs_st_scheme"
  assumes "took s m blks b t" and "fs_layout (fs_sb s) m (view s) s" and "tx s m blks"
  shows "b' < unat (sb_size (fs_sb s)) \<Longrightarrow> used (fs_sb s) (view t) b' \<longleftrightarrow> used (fs_sb s) (view s) b' \<or> b' = b"
    and "fs_layout (fs_sb t) m (view t) t" and "fs_sb t = fs_sb s" and "inodes t = inodes s"
    and "view t (of_nat b) = replicate BSIZE 0"
    and "n \<notin> bmbs (fs_sb s) \<Longrightarrow> n \<noteq> of_nat b \<Longrightarrow> view t n = view s n"
proof -
  have b: "b < unat (sb_size (fs_sb s))" "\<not> used (fs_sb s) (view s) b"
    and t: "tx_to s m (ins (of_nat b) (ins (bmb (fs_sb s) b) blks)) (alloc_view (fs_sb s) b (view s)) t"
    using assms(1) by (auto simp: took_def)
  note tD = tx_toD[OF t]
  show fs: "fs_sb t = fs_sb s" "inodes t = inodes s" using only_log_fs[OF tD(4)] by simp_all
  show u: "used (fs_sb s) (view t) b' \<longleftrightarrow> used (fs_sb s) (view s) b' \<or> b' = b" if "b' < unat (sb_size (fs_sb s))" for b'
    unfolding tD(3) by (rule alloc_view_used[OF assms(2) b that tx_sel(6)[OF assms(3)]])
  show "fs_layout (fs_sb t) m (view t) t" unfolding fs(1) by (rule fs_layout_mono[OF assms(2) _ tD(6,7)]) (simp add: u)
  show "view t (of_nat b) = replicate BSIZE 0" unfolding tD(3) by (rule alloc_view_new)
  show "n \<notin> bmbs (fs_sb s) \<Longrightarrow> n \<noteq> of_nat b \<Longrightarrow> view t n = view s n"
    unfolding tD(3) using bmb_in[OF b(1)] by (intro alloc_view_other) auto
qed

section \<open>Freeing\<close>

lemma bfree_run:
  fixes s :: "'x fs_st_scheme"
  assumes "quiet s m blks" and "fs_layout (fs_sb s) m (view s) s" and "decode_sb (view s 1) = fs_sb s"
    and "1 < disksize s" and "Suc (length blks) < m" and "b < unat (sb_size (fs_sb s))"
  shows "used (fs_sb s) (view s) b \<Longrightarrow> runs (bfree 1 (of_nat b)) s (\<lambda>_ t. tx_to s m (ins (bmb (fs_sb s) b) blks)
      ((view s)(bmb (fs_sb s) b := clear_bit_at (view s (bmb (fs_sb s) b)) (b mod BPB))) t)"
    and "\<not> used (fs_sb s) (view s) b \<Longrightarrow> bfree 1 (of_nat b) s = Panic ''freeing free block''"
proof -
  let ?sb = "fs_sb s" and ?n = "bmb (fs_sb s) b"
  have n: "?n < disksize s" "?n \<notin> region (lg_start s) m"
    using assms(2) bmb_in[OF assms(6)] by (auto simp: fs_layout_def)
  have ub: "unat (of_nat b :: uint) = b" using size_bound[OF assms(6)] by (simp add: unat_of_nat32)
  have tx: "tx s m blks" using assms(1) by (simp add: quiet_def)
  have "runs (readsb 1) s (\<lambda>x t. x = decode_sb (view s 1) \<and> tx_to s m blks (view s) t)"
    unfolding readsb_def by (rule read_block[OF tx quiet_free[OF assms(1,4)]])
  then obtain t where t: "readsb 1 s = Ret ?sb t" "tx_to s m blks (view s) t" by (auto simp: runs_iff assms(3))
  note tD = tx_toD[OF t(2)]
  have ts: "t\<lparr>fs_sb := ?sb\<rparr> = t" using only_log_fs[OF tD(4)] by (cases t) simp
  have "runs (bread 1 ?n) t (\<lambda>i u. tx u m blks \<and> holds_buf t i = None \<and> holds_buf u = (holds_buf t)(i \<mapsto> ?n)
    \<and> view u = view t \<and> only_log t u \<and> disk u = disk t \<and> buf_data u i = view t ?n)"
    by (rule bread_tx[OF tD(1)]) (use quiet_free[OF assms(1) n(1)] free_blk_tx_to[OF t(2)] in simp)
  then obtain i u where u: "bread 1 ?n t = Ret i u" "tx u m blks" "holds_buf s i = None"
      "holds_buf u = (holds_buf s)(i \<mapsto> ?n)" "view u = view s" "only_log s u" "disk u = disk s" "buf_data u i = view s ?n"
    using only_log_trans[OF tD(4)] tD by (auto simp: runs_iff)
  have e: "bfree 1 (of_nat b) s = (if \<not> bit_used (view s ?n) (b mod BPB) then panic ''freeing free block''
      else thn (modify (put_data i (clear_bit_at (view s ?n) (b mod BPB)))) (thn (log_write i) (brelse i))) u"
    using t(1) u(1,8) ts
    by (simp add: bfree_def bnd_def thn_def modify_def gets_def Let_def ub clear_bit_at_def bmb_def)
  show "\<not> used ?sb (view s) b \<Longrightarrow> bfree 1 (of_nat b) s = Panic ''freeing free block''"
    unfolding e used_def by (simp add: panic_def)
  assume "used ?sb (view s) b"
  then have "bit_used (view s ?n) (b mod BPB)" by (simp add: used_def)
  moreover have "runs (thn (modify (put_data i (clear_bit_at (view s ?n) (b mod BPB)))) (thn (log_write i) (brelse i))) u
      (\<lambda>_ w. tx_to s m (ins ?n blks) ((view u)(?n := clear_bit_at (view s ?n) (b mod BPB))) w)"
    by (rule finish_update[OF u(2,3,4,6,7) _ assms(5) n(2)]) (use tx_sel(6)[OF tx] in simp)
  ultimately show "runs (bfree 1 (of_nat b)) s (\<lambda>_ t. tx_to s m (ins ?n blks)
      ((view s)(?n := clear_bit_at (view s ?n) (b mod BPB))) t)"
    unfolding u(5) runs_def e by simp
qed

section \<open>Properties\<close>

text \<open>
  C8 (block allocation): inside an operation with two entries left in the log, if some block of the
  disk is free then \<^verbatim>\<open>balloc\<close> returns the lowest-numbered free block, filled with zeros;
  the free map then has that block in use and is otherwise as before, and no other block outside
  the free map changes.
\<close>

theorem balloc_first_free:
  fixes s :: "'x fs_st_scheme"
  assumes "can_alloc s m blks" and "b < unat (sb_size (fs_sb s))" and "\<not> used (fs_sb s) (view s) b"
  shows "runs (balloc 1) s (\<lambda>a t. a \<noteq> 0 \<and> unat a < unat (sb_size (fs_sb s)) \<and> \<not> used (fs_sb s) (view s) (unat a)
    \<and> (\<forall>b' < unat a. used (fs_sb s) (view s) b')
    \<and> view t a = replicate BSIZE 0
    \<and> (\<forall>b' < unat (sb_size (fs_sb s)). used (fs_sb s) (view t) b' \<longleftrightarrow> used (fs_sb s) (view s) b' \<or> b' = unat a)
    \<and> (\<forall>n. n \<notin> bmbs (fs_sb s) \<and> n \<noteq> a \<longrightarrow> view t n = view s n)
    \<and> fs_layout (fs_sb t) m (view t) t \<and> (\<exists>bl. tx t m bl \<and> length bl \<le> length blks + 2))"
proof (rule runs_mono[OF balloc_run[OF assms]], elim exE conjE)
  fix a :: uint and t :: "'x fs_st_scheme" and b' :: nat
  assume a: "a = of_nat b'" "\<forall>b'' < b'. used (fs_sb s) (view s) b''" and t: "took s m blks b' t"
  have c: "fs_layout (fs_sb s) m (view s) s" "tx s m blks" using assms(1) by (auto simp: can_alloc_def)
  note tD = tookD[OF t c]
  have b: "b' < unat (sb_size (fs_sb s))" "\<not> used (fs_sb s) (view s) b'" using t by (auto simp: took_def)
  have ub: "unat a = b'" using size_bound[OF b(1)] a(1) by (simp add: unat_of_nat32)
  have "b' \<noteq> 0" using c(1) b by (auto simp: fs_layout_def)
  then have "a \<noteq> 0" using ub by auto
  moreover have "tx t m (ins a (ins (bmb (fs_sb s) b') blks))" using t a(1) by (auto simp: took_def dest: tx_toD)
  moreover have "length (ins a (ins (bmb (fs_sb s) b') blks)) \<le> length blks + 2"
    using ins_length[of a] ins_length[of "bmb (fs_sb s) b'" blks] by (metis add_2_eq_Suc' le_trans Suc_le_mono)
  ultimately have "a \<noteq> 0" "\<exists>bl. tx t m bl \<and> length bl \<le> length blks + 2" by blast+
  then show "a \<noteq> 0 \<and> unat a < unat (sb_size (fs_sb s)) \<and> \<not> used (fs_sb s) (view s) (unat a)
    \<and> (\<forall>b' < unat a. used (fs_sb s) (view s) b')
    \<and> view t a = replicate BSIZE 0
    \<and> (\<forall>b' < unat (sb_size (fs_sb s)). used (fs_sb s) (view t) b' \<longleftrightarrow> used (fs_sb s) (view s) b' \<or> b' = unat a)
    \<and> (\<forall>n. n \<notin> bmbs (fs_sb s) \<and> n \<noteq> a \<longrightarrow> view t n = view s n)
    \<and> fs_layout (fs_sb t) m (view t) t \<and> (\<exists>bl. tx t m bl \<and> length bl \<le> length blks + 2)"
    using a(2) b tD(1,2,5,6)[folded a(1)] unfolding ub by (intro conjI allI impI) blast+
qed

text \<open>
  C25 (freeing a block): \<^verbatim>\<open>bfree\<close> of a block in use makes exactly that block free and
  changes nothing outside the free map; of a block that is already free it panics.
\<close>

theorem bfree_frees:
  fixes s :: "'x fs_st_scheme"
  assumes "quiet s m blks" and "fs_layout (fs_sb s) m (view s) s" and "decode_sb (view s 1) = fs_sb s"
    and "1 < disksize s" and "Suc (length blks) < m" and "b < unat (sb_size (fs_sb s))"
  shows "if used (fs_sb s) (view s) b
    then runs (bfree 1 (of_nat b)) s (\<lambda>_ t.
      (\<forall>b' < unat (sb_size (fs_sb s)). used (fs_sb s) (view t) b' \<longleftrightarrow> used (fs_sb s) (view s) b' \<and> b' \<noteq> b)
      \<and> (\<forall>n. n \<noteq> bmb (fs_sb s) b \<longrightarrow> view t n = view s n)
      \<and> quiet t m (ins (bmb (fs_sb s) b) blks) \<and> fs_sb t = fs_sb s)
    else bfree 1 (of_nat b) s = Panic ''freeing free block''"
proof (cases "used (fs_sb s) (view s) b")
  case True
  have len: "length (view s (bmb (fs_sb s) b)) = BSIZE" using assms(1) unfolding quiet_def by (blast intro: tx_sel(6))
  have "runs (bfree 1 (of_nat b)) s (\<lambda>_ t.
      (\<forall>b' < unat (sb_size (fs_sb s)). used (fs_sb s) (view t) b' \<longleftrightarrow> used (fs_sb s) (view s) b' \<and> b' \<noteq> b)
      \<and> (\<forall>n. n \<noteq> bmb (fs_sb s) b \<longrightarrow> view t n = view s n)
      \<and> quiet t m (ins (bmb (fs_sb s) b) blks) \<and> fs_sb t = fs_sb s)"
  proof (rule runs_mono[OF bfree_run(1)[OF assms True]])
    fix t :: "'x fs_st_scheme"
    assume t: "tx_to s m (ins (bmb (fs_sb s) b) blks)
      ((view s)(bmb (fs_sb s) b := clear_bit_at (view s (bmb (fs_sb s) b)) (b mod BPB))) t"
    note tD = tx_toD[OF t]
    show "(\<forall>b' < unat (sb_size (fs_sb s)). used (fs_sb s) (view t) b' \<longleftrightarrow> used (fs_sb s) (view s) b' \<and> b' \<noteq> b)
      \<and> (\<forall>n. n \<noteq> bmb (fs_sb s) b \<longrightarrow> view t n = view s n)
      \<and> quiet t m (ins (bmb (fs_sb s) b) blks) \<and> fs_sb t = fs_sb s"
      using used_set(2)[OF assms(6), of _ "view s"] len tD(3) only_log_fs[OF tD(4)] quiet_tx_to[OF assms(1) t] by simp
  qed
  then show ?thesis using True by simp
qed (use bfree_run(2)[OF assms] in simp)

text \<open>
  A full disk: when every block of the disk is in use, \<^verbatim>\<open>balloc\<close> panics with
  \<^verbatim>\<open>balloc: out of blocks\<close>, whatever the number of bitmap blocks.
\<close>

theorem balloc_full:
  fixes s :: "'x fs_st_scheme"
  assumes "can_alloc s m blks" and "\<forall>b < unat (sb_size (fs_sb s)). used (fs_sb s) (view s) b"
  shows "balloc 1 s = Panic ''balloc: out of blocks''"
proof -
  let ?sz = "unat (sb_size (fs_sb s))"
  have "runs (scanM (map (\<lambda>k. k * BPB) [0..<(?sz + BPB - 1) div BPB]) (balloc_at 1)) s (\<lambda>r t. r = None)"
  proof (rule runs_scanM[where I = "\<lambda>ys t. tx_to s m blks (view s) t"], goal_cases)
    case 1
    show ?case using assms(1) tx_to_refl by (auto simp: can_alloc_def)
  next
    case (2 ys x zs t)
    have k: "length ys < (?sz + BPB - 1) div BPB" using arg_cong[OF 2(1), of length] by simp
    have x: "x = length ys * BPB" using arg_cong[OF 2(1), of "\<lambda>xs. xs ! length ys"] k by simp
    have kb: "length ys * BPB < ?sz" using k by (simp add: less_eq_div_iff_mult_less_eq Suc_le_eq[symmetric])
    have e: "fs_sb t = fs_sb s" "view t = view s" using only_log_fs[OF tx_toD(4)[OF 2(2)]] tx_toD[OF 2(2)] by simp_all
    show ?case unfolding x
      by (rule runs_mono[OF balloc_at_run[OF can_alloc_cong[OF assms(1) 2(2)], of "length ys", unfolded e, OF kb]])
        (use assms(2) tx_to_trans[OF 2(2)] e in \<open>auto simp: took_def split: option.splits\<close>)
  qed simp
  then show ?thesis by (auto simp: balloc_def runs_iff bnd_def gets_def panic_def)
qed

section \<open>Witnesses\<close>

text \<open>A file system on a disk of a thousand blocks, with the first 59 blocks in use.\<close>

definition ex_sb :: superblock where
  "ex_sb = \<lparr>sb_size = 1000, sb_nblocks = 941, sb_ninodes = 200, sb_nlog = 30, sb_logstart = 2,
     sb_inodestart = 32, sb_bmapstart = 58\<rparr>"

definition ex_sb_block :: block where
  "ex_sb_block = put32 (put32 (put32 (put32 (put32 (put32 (put32 (replicate BSIZE 0) 0 1000) 4 941) 8 200)
     12 30) 16 2) 20 32) 24 58"

definition ex_bitmap :: block where
  "ex_bitmap = replicate 7 255 @ [7] @ replicate 504 0"

definition ex_disk :: "block \<Rightarrow> uint \<Rightarrow> block" where
  "ex_disk bm n = (if n = 1 then ex_sb_block else if n = 58 then bm else replicate BSIZE 0)"

lemma ex_decode: "decode_sb ex_sb_block = ex_sb"
  by (simp add: decode_sb_def ex_sb_block_def ex_sb_def get_put_other)

lemma ex_bmb: "b < 1000 \<Longrightarrow> bmb ex_sb b = 58"
  by (simp add: bmb_eq ex_sb_def)

lemma ex_bmbs: "bmbs ex_sb = {58}"
proof -
  have "bmb ex_sb ` {0..<1000} = {58}" using ex_bmb[of 0] by (auto simp: ex_bmb image_iff intro!: exI[of _ 0])
  then show ?thesis by (simp add: bmbs_def ex_sb_def)
qed

lemma ex_used: "b < 1000 \<Longrightarrow> used ex_sb (ex_disk bm) b = bit_used bm b"
  by (simp add: used_def ex_bmb ex_disk_def)

lemma ex_bits: "b < 59 \<Longrightarrow> bit_used ex_bitmap b" "\<not> bit_used ex_bitmap 59"
proof -
  have "list_all (bit_used ex_bitmap) [0..<59]" by code_simp
  then show "b < 59 \<Longrightarrow> bit_used ex_bitmap b" by (simp add: list_all_iff)
  show "\<not> bit_used ex_bitmap 59" by code_simp
qed

lemma ex_full: "b < 1000 \<Longrightarrow> bit_used (replicate BSIZE 255) b"
proof -
  assume "b < 1000"
  then have "b div 8 < BSIZE" by auto
  moreover have "bit (255 :: byte) (b mod 8)"
  proof -
    have "(255 :: byte) = mask 8" by (simp add: mask_eq_exp_minus_1)
    then show ?thesis by (simp only: bit_mask_iff) simp
  qed
  ultimately show ?thesis by (simp add: bit_used_iff)
qed

lemma ex_region: "n \<in> region 2 30 \<Longrightarrow> 2 \<le> unat n \<and> unat n < 32"
proof -
  assume "n \<in> region 2 30"
  then obtain k where k: "k < 30" "n = 2 + of_nat k" by (auto simp: region_def)
  then have "unat n = 2 + k" by (simp add: unat_word_ariths unat_of_nat32)
  then show ?thesis using k by simp
qed

lemma ex_layout:
  assumes "disksize s = 1000" and "lg_start s = 2" and "\<And>b. b < 59 \<Longrightarrow> bit_used bm b"
  shows "fs_layout ex_sb 30 (ex_disk bm) s"
proof -
  have 58: "(58 :: uint) \<notin> region 2 30" using ex_region[of 58] by auto
  have "b \<noteq> 0 \<and> of_nat b \<notin> region 2 30 \<and> of_nat b \<noteq> (58 :: uint)" if b: "b < 1000" "\<not> bit_used bm b" for b
  proof -
    have "59 \<le> b" using assms(3)[of b] b(2) by (meson not_le)
    moreover have u: "unat (of_nat b :: uint) = b" using b(1) by (simp add: unat_of_nat32)
    moreover have "of_nat b \<noteq> (58 :: uint)" using u \<open>59 \<le> b\<close> by auto
    ultimately show ?thesis using ex_region[of "of_nat b"] by auto
  qed
  then show ?thesis using 58 assms(1,2) ex_used[of _ bm] by (simp add: fs_layout_def ex_bmbs) (simp add: ex_sb_def)
qed

lemma fs_exists:
  assumes "\<And>n. length (d n) = BSIZE"
  shows "\<exists>s :: fs_st. quiet s 30 [] \<and> view s = d \<and> disk s = d \<and> disksize s = 1000 \<and> lg_start s = 2
    \<and> held s = [] \<and> fs_sb s = sb' \<and> inodes s = ino"
proof -
  define s0 :: fs_st where "s0 = (undefined :: fs_st)\<lparr>held := [], disk := d,
    disksize := 1000, lg_start := 2, lg_size := 30, lg_outstanding := 1, lg_committing := False,
    lg_dev := 1, lh_n := 0, lh_block := replicate 30 0, fs_sb := sb', inodes := ino\<rparr>"
  have "held s0 = []" "\<forall>n. length (disk s0 n) = BSIZE" using assms by (simp_all add: s0_def)
  from boot_cache[OF this] obtain f where f: "bl_inv (s0\<lparr>bufs := f\<rparr>)"
      "holds_buf (s0\<lparr>bufs := f\<rparr>) = Map.empty" "dirty_blocks (s0\<lparr>bufs := f\<rparr>) = {}"
    by blast
  define s1 where "s1 = s0\<lparr>bufs := f\<rparr>"
  have s1: "bl_inv s1" "holds_buf s1 = Map.empty" "dirty_blocks s1 = {}" "disk s1 = d"
      "lg_start s1 = 2" "disksize s1 = 1000" "held s1 = []" "lg_outstanding s1 = 1" "lh_is s1 []" "lg_dev s1 = 1"
      "lg_size s1 = 30" "\<not> lg_committing s1" "fs_sb s1 = sb'" "inodes s1 = ino"
    using f by (simp_all add: s1_def s0_def lh_is_def)
  have "quiet s1 30 []" using s1 region_example(1) by (simp add: quiet_def tx_def log_inv_def hdr_ok_def)
  moreover have "view s1 = d" using view_clean_law[OF s1(1)] s1(2,3,4) by (auto simp: fun_eq_iff)
  ultimately show ?thesis using s1 by (intro exI[of _ s1]) simp
qed

lemma ex_disk_length: "length bm = BSIZE \<Longrightarrow> length (ex_disk bm n) = BSIZE"
  by (simp add: ex_disk_def ex_sb_block_def)

theorem balloc_first_free_witness:
  "\<exists>s :: fs_st. runs (balloc 1) s (\<lambda>a t. a = 59 \<and> view t 59 = replicate BSIZE 0 \<and> used ex_sb (view t) 59)"
proof -
  have len: "length ex_bitmap = BSIZE" by (simp add: ex_bitmap_def)
  obtain s :: fs_st where s: "quiet s 30 []" "view s = ex_disk ex_bitmap" "disksize s = 1000" "lg_start s = 2" "fs_sb s = ex_sb"
    using fs_exists[of "ex_disk ex_bitmap" ex_sb undefined, OF ex_disk_length[OF len]] by blast
  have c: "can_alloc s 30 []"
    using s ex_layout[OF s(3,4) ex_bits(1)] by (simp add: can_alloc_def quiet_def)
  have sz: "unat (sb_size ex_sb) = 1000" by (simp add: ex_sb_def)
  have u: "used ex_sb (ex_disk ex_bitmap) b = bit_used ex_bitmap b" if "b < 1000" for b by (rule ex_used[OF that])
  have "runs (balloc 1) s (\<lambda>a t. a = 59 \<and> view t 59 = replicate BSIZE 0 \<and> used ex_sb (view t) 59)"
  proof (rule runs_mono[OF balloc_first_free[OF c, of 59]], goal_cases)
    case (3 a t)
    have "unat a = 59" using 3 u ex_bits unfolding s(2,5) sz by (metis linorder_neqE_nat less_trans numeral_less_iff semiring_norm(76,78,79,80,81))
    moreover from this have "a = 59" by (simp add: word_unat_eq_iff)
    ultimately show ?case using 3 by (simp add: s(5) sz)
  qed (use u ex_bits in \<open>simp_all add: s(2,5) sz\<close>)
  then show ?thesis by blast
qed

theorem bfree_frees_witness:
  "\<exists>s :: fs_st. runs (bfree 1 40) s (\<lambda>_ t. \<not> used ex_sb (view t) 40 \<and> used ex_sb (view t) 41)
    \<and> bfree 1 59 s = Panic ''freeing free block''"
proof -
  have len: "length ex_bitmap = BSIZE" by (simp add: ex_bitmap_def)
  obtain s :: fs_st where s: "quiet s 30 []" "view s = ex_disk ex_bitmap" "disksize s = 1000" "lg_start s = 2" "fs_sb s = ex_sb"
    using fs_exists[of "ex_disk ex_bitmap" ex_sb undefined, OF ex_disk_length[OF len]] by blast
  have sz: "unat (sb_size ex_sb) = 1000" by (simp add: ex_sb_def)
  have d: "decode_sb (ex_disk ex_bitmap 1) = ex_sb" by (simp add: ex_disk_def ex_decode)
  note b = bfree_frees[OF s(1), unfolded s(2,5) sz, OF ex_layout[OF s(3,4) ex_bits(1)] d]
  have u: "used ex_sb (ex_disk ex_bitmap) 40" "used ex_sb (ex_disk ex_bitmap) 41" "\<not> used ex_sb (ex_disk ex_bitmap) 59"
    using ex_bits by (simp_all add: ex_used)
  have "runs (bfree 1 40) s (\<lambda>_ t. \<not> used ex_sb (view t) 40 \<and> used ex_sb (view t) 41)"
    using b[of 40] u by (simp add: s(3)) (erule runs_mono, auto)
  moreover have "bfree 1 59 s = Panic ''freeing free block''" using b[of 59] u(3) by (simp add: s(3))
  ultimately show ?thesis by blast
qed

theorem balloc_full_witness: "\<exists>s :: fs_st. balloc 1 s = Panic ''balloc: out of blocks''"
proof -
  obtain s :: fs_st where s: "quiet s 30 []" "view s = ex_disk (replicate BSIZE 255)" "disksize s = 1000" "lg_start s = 2"
      "fs_sb s = ex_sb"
    using fs_exists[of "ex_disk (replicate BSIZE 255)" ex_sb undefined, OF ex_disk_length] by auto
  have sz: "unat (sb_size ex_sb) = 1000" by (simp add: ex_sb_def)
  have "fs_layout ex_sb 30 (ex_disk (replicate BSIZE 255)) s" by (rule ex_layout[OF s(3,4) ex_full]) simp
  then have "can_alloc s 30 []" using s by (simp add: can_alloc_def quiet_def)
  from balloc_full[OF this] show ?thesis
    using ex_full by (intro exI[of _ s]) (simp add: s(2,5) sz ex_used)
qed

end
