(* ===== verification/Fsdata.thy ===== *)
theory Fsdata
  imports Fsalloc
begin

text \<open>
  The blocks of a file: how \<^verbatim>\<open>bmap\<close> finds them through the addresses of the
  inode and its indirect block, what \<^verbatim>\<open>readi\<close> collects from them, and what it
  means that a file grows by freshly allocated blocks or receives bytes (\<open>fwrite\<close>).
\<close>

section \<open>Contents of files\<close>

text \<open>
  The address of block \<open>bn\<close> of an inode, the bytes of a file, and what makes the first
  \<open>N\<close> blocks usable: they are allocated, distinct, and outside the log and the indirect block.
\<close>

definition blk :: "'x fs_st_scheme \<Rightarrow> nat \<Rightarrow> nat \<Rightarrow> uint" where
  "blk s ip bn = (if bn < NDIRECT then i_addrs (inodes s ip) ! bn
     else get32 (view s (i_addrs (inodes s ip) ! NDIRECT)) (4 * (bn - NDIRECT)))"

definition file_byte :: "'x fs_st_scheme \<Rightarrow> nat \<Rightarrow> nat \<Rightarrow> byte" where
  "file_byte s ip k = view s (blk s ip (k div BSIZE)) ! (k mod BSIZE)"

text \<open>The address of the indirect block, zero when there is none, and all blocks of the file.\<close>

definition ind :: "'x fs_st_scheme \<Rightarrow> nat \<Rightarrow> uint" where
  "ind s ip = i_addrs (inodes s ip) ! NDIRECT"

definition fblocks :: "'x fs_st_scheme \<Rightarrow> nat \<Rightarrow> nat \<Rightarrow> uint set" where
  "fblocks s ip N = blk s ip ` {0..<N} \<union> ({ind s ip} - {0})"

definition mapped :: "'x fs_st_scheme \<Rightarrow> nat \<Rightarrow> nat \<Rightarrow> nat \<Rightarrow> bool" where
  "mapped s m ip N \<longleftrightarrow> N \<le> MAXFILE \<and> i_dev (inodes s ip) = 1 \<and> inj_on (blk s ip) {0..<N}
     \<and> ind s ip \<notin> blk s ip ` {0..<N} \<and> (NDIRECT < N \<longrightarrow> ind s ip \<noteq> 0)
     \<and> (\<forall>b \<in> fblocks s ip N. b \<noteq> 0 \<and> b < disksize s \<and> b \<notin> region (lg_start s) m)"

lemma mappedD:
  assumes "mapped s m ip N"
  shows "bn < N \<Longrightarrow> blk s ip bn \<noteq> 0 \<and> blk s ip bn < disksize s \<and> blk s ip bn \<notin> region (lg_start s) m \<and> blk s ip bn \<noteq> ind s ip"
    and "NDIRECT < N \<Longrightarrow> ind s ip \<noteq> 0" and "ind s ip \<noteq> 0 \<Longrightarrow> ind s ip < disksize s \<and> ind s ip \<notin> region (lg_start s) m"
    and "i < N \<Longrightarrow> j < N \<Longrightarrow> blk s ip i = blk s ip j \<longleftrightarrow> i = j" and "N \<le> MAXFILE" and "i_dev (inodes s ip) = 1"
proof -
  have b: "\<forall>b \<in> fblocks s ip N. b \<noteq> 0 \<and> b < disksize s \<and> b \<notin> region (lg_start s) m"
    and i: "inj_on (blk s ip) {0..<N}" "ind s ip \<notin> blk s ip ` {0..<N}"
    using assms by (simp_all add: mapped_def)
  show "NDIRECT < N \<Longrightarrow> ind s ip \<noteq> 0" "N \<le> MAXFILE" "i_dev (inodes s ip) = 1" using assms by (simp_all add: mapped_def)
  have "ind s ip \<noteq> 0 \<Longrightarrow> ind s ip \<in> fblocks s ip N" by (simp add: fblocks_def)
  then show "ind s ip \<noteq> 0 \<Longrightarrow> ind s ip < disksize s \<and> ind s ip \<notin> region (lg_start s) m" using b by blast
  show "i < N \<Longrightarrow> j < N \<Longrightarrow> blk s ip i = blk s ip j \<longleftrightarrow> i = j" using i(1) by (auto dest: inj_onD)
  assume n: "bn < N"
  then have "blk s ip bn \<in> blk s ip ` {0..<N}" by simp
  then have "blk s ip bn \<noteq> ind s ip" "blk s ip bn \<in> fblocks s ip N" using i(2) by (metis, simp add: fblocks_def)
  then show "blk s ip bn \<noteq> 0 \<and> blk s ip bn < disksize s \<and> blk s ip bn \<notin> region (lg_start s) m \<and> blk s ip bn \<noteq> ind s ip"
    using b by simp
qed

lemma chunks_piece:
  "(o', n') \<in> set (chunks off n) \<Longrightarrow> off \<le> o' \<and> o' + n' \<le> off + n \<and> 0 < n' \<and> o' mod BSIZE + n' \<le> BSIZE"
proof (induction off n rule: chunks.induct)
  case (1 off n)
  let ?m = "min n (BSIZE - off mod BSIZE)"
  show ?case
  proof (cases "n = 0")
    case False
    have p: "off mod BSIZE < BSIZE" by simp
    have "(o', n') = (off, ?m) \<or> (o', n') \<in> set (chunks (off + ?m) (n - ?m))"
      using "1.prems" False chunks.simps[of off n] by (simp add: Let_def)
    then show ?thesis
    proof
      assume "(o', n') = (off, ?m)"
      then show ?thesis using False p by auto
    next
      assume "(o', n') \<in> set (chunks (off + ?m) (n - ?m))"
      then show ?thesis using "1.IH"[OF False refl] by auto
    qed
  qed (use "1.prems" in \<open>simp add: chunks.simps\<close>)
qed

lemma chunks_concat: "concat (map (\<lambda>(o', n'). map f [o'..<o' + n']) (chunks off n)) = map f [off..<off + n]"
proof (induction off n rule: chunks.induct)
  case (1 off n)
  let ?m = "min n (BSIZE - off mod BSIZE)"
  show ?case
  proof (cases "n = 0")
    case False
    have "[off..<off + n] = [off..<off + ?m] @ [off + ?m..<off + n]"
      using upt_add_eq_append[of off "off + ?m" "n - ?m"] by simp
    then show ?thesis using "1.IH"[OF False refl] False chunks.simps[of off n] by (simp add: Let_def)
  qed (simp add: chunks.simps)
qed

lemma take_drop_upt: "j + n \<le> length xs \<Longrightarrow> take n (drop j xs) = map (\<lambda>k. xs ! k) [j..<j + n]"
  by (intro nth_equalityI) auto

lemma block_piece:
  assumes "o' mod BSIZE + n' \<le> BSIZE" and "length d = BSIZE"
  shows "take n' (drop (o' mod BSIZE) d) = map (\<lambda>k. d ! (k mod BSIZE)) [o'..<o' + n']"
  using assms by (intro nth_equalityI) (auto simp: mod_add_left_eq[symmetric, of o'])

lemma block_div:
  assumes "o' mod BSIZE + n' \<le> BSIZE" and "k \<in> set [o'..<o' + n']"
  shows "k div BSIZE = o' div BSIZE"
proof -
  obtain q r where q: "q = o' div BSIZE" "r = o' mod BSIZE" by blast
  then have "o' = BSIZE * q + r" by simp
  then have "BSIZE * q \<le> k" "k < BSIZE * Suc q" using assms unfolding q(2)[symmetric] by auto
  then show ?thesis unfolding q(1)[symmetric] by (rule div_nat_eqI)
qed

lemma same_block:
  assumes "j div BSIZE = o' div BSIZE"
  shows "o' mod BSIZE \<le> j mod BSIZE \<longleftrightarrow> o' \<le> j" "j mod BSIZE < o' mod BSIZE + n \<longleftrightarrow> j < o' + n"
    "j mod BSIZE - o' mod BSIZE = j - o'"
proof -
  obtain q r r' where q: "q = o' div BSIZE" "r = o' mod BSIZE" "r' = j mod BSIZE" by blast
  have "o' = BSIZE * q + r" "j = BSIZE * q + r'" unfolding q using assms mult_div_mod_eq[of BSIZE j] by simp_all
  then show "o' mod BSIZE \<le> j mod BSIZE \<longleftrightarrow> o' \<le> j" "j mod BSIZE < o' mod BSIZE + n \<longleftrightarrow> j < o' + n"
    "j mod BSIZE - o' mod BSIZE = j - o'" unfolding q(2,3)[symmetric] by linarith+
qed


lemma piece_end:
  assumes "o' mod BSIZE + l \<le> BSIZE"
  shows "o' + l \<le> Suc (o' div BSIZE) * BSIZE"
proof -
  obtain q r where q: "q = o' div BSIZE" "r = o' mod BSIZE" by blast
  have "o' = BSIZE * q + r" unfolding q by simp
  then show ?thesis using assms unfolding q[symmetric] by simp
qed

lemma file_cong:
  assumes "inodes t ip = inodes s ip" and "NDIRECT < N \<Longrightarrow> view t (ind s ip) = view s (ind s ip)"
  shows "bn < N \<Longrightarrow> blk t ip bn = blk s ip bn" and "ind t ip = ind s ip" and "fblocks t ip N = fblocks s ip N"
proof -
  show i: "ind t ip = ind s ip" by (simp add: ind_def assms(1))
  show b: "blk t ip bn = blk s ip bn" if "bn < N" for bn
    using assms that by (auto simp: blk_def ind_def)
  have "blk t ip ` {0..<N} = blk s ip ` {0..<N}" by (rule image_cong) (auto simp: b)
  then show "fblocks t ip N = fblocks s ip N" by (simp add: fblocks_def i)
qed

lemma mapped_cong:
  assumes "mapped s m ip N" and "inodes t ip = inodes s ip" and "disksize t = disksize s" and "lg_start t = lg_start s"
    and "NDIRECT < N \<Longrightarrow> view t (ind s ip) = view s (ind s ip)"
  shows "mapped t m ip N"
proof -
  note c = file_cong[OF assms(2,5)]
  have "inj_on (blk t ip) {0..<N} = inj_on (blk s ip) {0..<N}" by (rule inj_on_cong) (simp add: c(1))
  moreover have "blk t ip ` {0..<N} = blk s ip ` {0..<N}" by (rule image_cong) (auto simp: c(1))
  ultimately show ?thesis using assms(1-4) c(2,3) by (simp add: mapped_def)
qed

lemma bmap_mapped:
  fixes s :: "'x fs_st_scheme"
  assumes "quiet s m blks" and "mapped s m ip N" and "bn < N"
  shows "runs (bmap ip (of_nat bn)) s (\<lambda>a t. a = blk s ip bn \<and> tx_to s m blks (view s) t)"
proof -
  note mD = mappedD[OF assms(2)]
  have N: "bn < MAXFILE" "i_dev (inodes s ip) = 1" and b: "blk s ip bn \<noteq> 0" using mD(1,5,6) assms(3) by auto
  have u: "unat (of_nat bn :: uint) = bn" using N by (simp add: unat_of_nat32)
  have refl: "tx_to s m blks (view s) s" using assms(1) by (simp add: tx_to_def quiet_def)
  show ?thesis
  proof (cases "bn < NDIRECT")
    case True
    then have "(of_nat bn :: uint) < 12" using u by (simp add: word_less_nat_alt)
    then show ?thesis using True b refl by (simp add: bmap_def Let_def u blk_def)
  next
    case False
    let ?ind = "i_addrs (inodes s ip) ! NDIRECT"
    have ind: "?ind \<noteq> 0" "?ind < disksize s" using False mD(2,3) assms(3) by (auto simp: ind_def)
    have v: "\<not> (of_nat bn :: uint) < 12" using u False by (simp add: word_less_nat_alt)
    have sub: "(of_nat bn - 12 :: uint) = of_nat (bn - 12)" using False by (simp add: of_nat_diff)
    have w: "unat (of_nat bn - 12 :: uint) = bn - 12" unfolding sub using N by (intro unat_of_nat32) simp
    then have w2: "(of_nat bn - 12 :: uint) < 128" using N by (simp add: word_less_nat_alt)
    have a: "get32 (view s ?ind) (4 * (bn - 12)) = blk s ip bn" using False by (simp add: blk_def)
    have r: "runs (bread 1 ?ind) s (\<lambda>bp t. runs (gets (\<lambda>s. get32 (buf_data s bp) (4 * (bn - 12)))) t
        (\<lambda>x t. runs (thn (brelse bp) (ret x)) t (\<lambda>x t. x = blk s ip bn \<and> tx_to s m blks (view s) t)))"
      using read_block[OF _ quiet_free[OF assms(1) ind(2)], of m "\<lambda>d. get32 d (4 * (bn - 12))"] assms(1)
      unfolding runs_bnd a quiet_def by blast
    have "runs (bread 1 ?ind) s (\<lambda>bp t. get32 (buf_data t bp) (4 * (bn - 12)) = blk s ip bn)"
      by (rule runs_mono[OF bread_tx[OF _ quiet_free[OF assms(1) ind(2)]]]) (use assms(1) a in \<open>auto simp: quiet_def\<close>)
    from runs_conj[OF r this] show ?thesis
      using v w2 N(2) ind(1) b
      by (simp add: bmap_def Let_def w) (erule runs_mono, auto elim!: runs_mono)
  qed
qed

lemma readi_piece:
  fixes s :: "'x fs_st_scheme"
  assumes "quiet s m blks" and "mapped s m ip N" and "o' + k \<le> N * BSIZE" and "o' mod BSIZE + k \<le> BSIZE" and "0 < k"
    and "tx_to s m blks (view s) t"
  shows "runs (bnd (bmap ip (of_nat (o' div BSIZE))) (\<lambda>a. bnd (bread 1 a) (\<lambda>bp.
         bnd (gets (\<lambda>s. take k (drop (o' mod BSIZE) (buf_data s bp)))) (\<lambda>xs. thn (brelse bp) (ret xs))))) t
     (\<lambda>xs u. xs = map (file_byte s ip) [o'..<o' + k] \<and> tx_to s m blks (view s) u)"
proof -
  note tD = tx_toD[OF assms(6)]
  have tq: "quiet t m blks" by (rule quiet_tx_to[OF assms(1,6)])
  have bn: "o' div BSIZE < N" using assms(3,5) less_mult_imp_div_less[of o' N BSIZE] by linarith
  have mt: "mapped t m ip N"
    using only_log_fs[OF tD(4)] tD by (intro mapped_cong[OF assms(2)]) simp_all
  have bt: "blk t ip (o' div BSIZE) = blk s ip (o' div BSIZE)"
    using only_log_fs[OF tD(4)] tD bn by (intro file_cong(1)[of t ip s N]) simp_all
  show ?thesis unfolding runs_bnd[where m = "bmap ip (of_nat (o' div BSIZE))"]
  proof (rule runs_mono[OF bmap_mapped[OF tq mt bn]], elim conjE)
    fix a and u :: "'x fs_st_scheme" assume a: "a = blk t ip (o' div BSIZE)" and u: "tx_to t m blks (view t) u"
    note uD = tx_toD[OF u]
    have uq: "quiet u m blks" by (rule quiet_tx_to[OF tq u])
    have as: "a < disksize u" using a bt mappedD(1)[OF assms(2) bn] uD(6) tD(6) by simp
    have va: "view u a = view s (blk s ip (o' div BSIZE))" using a bt uD(3) tD(3) by simp
    have "take k (drop (o' mod BSIZE) (view u a)) = map (\<lambda>i. view u a ! (i mod BSIZE)) [o'..<o' + k]"
      by (rule block_piece[OF assms(4) tx_sel(6)[OF uD(1)]])
    also have "\<dots> = map (file_byte s ip) [o'..<o' + k]"
      by (rule map_cong[OF refl]) (simp only: file_byte_def va block_div[OF assms(4)])
    finally have d: "take k (drop (o' mod BSIZE) (view u a)) = map (file_byte s ip) [o'..<o' + k]" .
    have "runs (bnd (bread 1 a) (\<lambda>bp. bnd (gets (\<lambda>s. take k (drop (o' mod BSIZE) (buf_data s bp))))
        (\<lambda>xs. thn (brelse bp) (ret xs)))) u
      (\<lambda>xs v. xs = take k (drop (o' mod BSIZE) (view u a)) \<and> tx_to u m blks (view u) v)"
      by (rule read_block[OF uD(1) quiet_free[OF uq as]])
    then show "runs (bnd (bread 1 a) (\<lambda>bp. bnd (gets (\<lambda>s. take k (drop (o' mod BSIZE) (buf_data s bp))))
        (\<lambda>xs. thn (brelse bp) (ret xs)))) u
      (\<lambda>xs v. xs = map (file_byte s ip) [o'..<o' + k] \<and> tx_to s m blks (view s) v)"
      by (rule runs_mono) (use d uD tD in \<open>auto simp: tx_to_def intro: only_log_trans\<close>)
  qed
qed

lemma sint_unat:
  assumes "unat (n :: uint) < 2 ^ 31"
  shows "sint n = int (unat n)"
proof -
  have "int (unat n) < int (2 ^ 31)" using assms by (simp only: of_nat_less_iff)
  then have "uint n < 2 ^ 31" "- (2 ^ 31) \<le> uint n" using uint_ge_0[of n] by (simp_all only: uint_nat of_nat_power of_nat_numeral)
  then have "signed_take_bit 31 (uint n) = uint n" by (intro signed_take_bit_int_eq_self)
  then have "sint n = uint n" by (simp add: sint_uint)
  then show ?thesis by (simp only: uint_nat)
qed

text \<open>What \<^verbatim>\<open>readi\<close> returns: the bytes of the file from \<open>off\<close> on, cut off at its end.\<close>

lemma readi_run:
  fixes s :: "'x fs_st_scheme"
  assumes "quiet s m blks" and "mapped s m ip N" and "i_type (inodes s ip) \<noteq> T_DEV"
    and "unat (i_size (inodes s ip)) \<le> N * BSIZE" and "off \<le> i_size (inodes s ip)"
    and "unat off + unat n < 2 ^ 32"
  defines "len \<equiv> min (unat n) (unat (i_size (inodes s ip)) - unat off)"
  shows "runs (readi devsw ip off n) s (\<lambda>(r, xs) t. r = int len
      \<and> xs = map (file_byte s ip) [unat off..<unat off + len] \<and> tx_to s m blks (view s) t)"
proof -
  let ?sz = "i_size (inodes s ip)"
  define n' where "n' = (if ?sz < off + n then ?sz - off else n)"
  have on: "unat (off + n) = unat off + unat n" using assms(6) by (simp add: unat_word_ariths)
  have os: "unat off \<le> unat ?sz" using assms(5) by (simp only: word_le_nat_alt)
  have ok: "\<not> (?sz < off \<or> off + n < off)" unfolding word_less_nat_alt on using os by simp
  have n': "unat n' = len"
  proof (cases "?sz < off + n")
    case True
    then have "unat n' = unat ?sz - unat off" using unat_sub[OF assms(5)] by (simp only: n'_def if_True)
    moreover have "unat ?sz < unat off + unat n" using True unfolding word_less_nat_alt on .
    ultimately show ?thesis using os by (simp add: len_def)
  next
    case False
    then have "unat off + unat n \<le> unat ?sz" unfolding word_less_nat_alt on by simp
    then show ?thesis using False by (simp add: n'_def len_def)
  qed
  have "len \<le> unat ?sz - unat off" by (simp only: len_def min.cobounded2)
  then have le: "unat off + len \<le> N * BSIZE" using os assms(4) by linarith
  have N: "N \<le> MAXFILE" and dev: "i_dev (inodes s ip) = 1" using mappedD(5,6)[OF assms(2)] by simp_all
  have "len < 2 ^ 31" using le N by simp
  then have sn: "sint n' = int len" using sint_unat[of n'] n' by simp
  have "runs (mapM (chunks (unat off) len) (\<lambda>(o', k).
      bnd (bmap ip (of_nat (o' div BSIZE))) (\<lambda>a. bnd (bread 1 a) (\<lambda>bp.
      bnd (gets (\<lambda>s. take k (drop (o' mod BSIZE) (buf_data s bp)))) (\<lambda>xs. thn (brelse bp) (ret xs)))))) s
    (\<lambda>rs t. rs = map (\<lambda>(o', k). map (file_byte s ip) [o'..<o' + k]) (chunks (unat off) len)
      \<and> tx_to s m blks (view s) t)"
  proof (rule runs_mapM, goal_cases)
    case 1
    then show ?case using assms(1) by (simp add: tx_to_def quiet_def)
  next
    case (2 x t)
    obtain o' k where x: "x = (o', k)" by (cases x)
    have "o' + k \<le> N * BSIZE" "o' mod BSIZE + k \<le> BSIZE" "0 < k"
      using chunks_piece[of o' k "unat off" len] 2(1) le unfolding x by auto
    from readi_piece[OF assms(1,2) this 2(2)] show ?case unfolding x by simp
  qed
  then show ?thesis using ok assms(3) dev
    by (simp add: readi_def Let_def n'_def[symmetric] n' sn) (erule runs_mono, simp add: chunks_concat)
qed

section \<open>Files that grow\<close>

text \<open>
  A file with \<open>N\<close> blocks: they are marked in use, lie outside the free map, and the
  addresses after them are zero.
\<close>

definition file_ok :: "'x fs_st_scheme \<Rightarrow> nat \<Rightarrow> nat \<Rightarrow> nat \<Rightarrow> bool" where
  "file_ok s m ip N \<longleftrightarrow> mapped s m ip N \<and> length (i_addrs (inodes s ip)) = NDIRECT + 1
     \<and> (\<forall>i < NDIRECT. N \<le> i \<longrightarrow> i_addrs (inodes s ip) ! i = 0)
     \<and> (ind s ip \<noteq> 0 \<longrightarrow> (\<forall>i < NINDIRECT. N \<le> NDIRECT + i \<longrightarrow> get32 (view s (ind s ip)) (4 * i) = 0))
     \<and> (\<forall>b \<in> fblocks s ip N. b \<notin> bmbs (fs_sb s) \<and> unat b < unat (sb_size (fs_sb s)) \<and> used (fs_sb s) (view s) (unat b))"

text \<open>
  From \<open>s\<close> to \<open>t\<close> the file has grown from \<open>N\<close> to \<open>N'\<close> blocks and has
  received the bytes \<open>xs\<close> at offset \<open>off\<close>; other new bytes are zero and nothing but the
  free map and the blocks of the file has changed.
\<close>

definition fwrite :: "nat \<Rightarrow> nat \<Rightarrow> nat \<Rightarrow> nat \<Rightarrow> nat \<Rightarrow> byte list \<Rightarrow> 'x fs_st_scheme \<Rightarrow> 'x fs_st_scheme \<Rightarrow> bool" where
  "fwrite m ip N N' off xs s t \<longleftrightarrow> N \<le> N' \<and> (xs \<noteq> [] \<longrightarrow> off + length xs \<le> N' * BSIZE)
     \<and> file_ok t m ip N' \<and> fs_layout (fs_sb t) m (view t) t
     \<and> inodes t = (inodes s)(ip := (inodes s ip)\<lparr>i_addrs := i_addrs (inodes t ip)\<rparr>)
     \<and> only_log (s\<lparr>inodes := inodes t\<rparr>) t \<and> disk t = disk s
     \<and> (\<forall>bn < N. blk t ip bn = blk s ip bn) \<and> (ind s ip \<noteq> 0 \<longrightarrow> ind t ip = ind s ip)
     \<and> (\<forall>b < unat (sb_size (fs_sb s)). used (fs_sb s) (view t) b \<longleftrightarrow> used (fs_sb s) (view s) b \<or> of_nat b \<in> fblocks t ip N')
     \<and> (\<forall>b \<in> fblocks t ip N'. b \<in> fblocks s ip N \<or> \<not> used (fs_sb s) (view s) (unat b))
     \<and> (\<forall>n. n \<notin> bmbs (fs_sb s) \<and> n \<notin> fblocks t ip N' \<longrightarrow> view t n = view s n)
     \<and> (\<forall>j < N' * BSIZE. file_byte t ip j = (if off \<le> j \<and> j < off + length xs then xs ! (j - off)
          else if j < N * BSIZE then file_byte s ip j else 0))"

lemma only_log_inodes:
  assumes "only_log (s\<lparr>inodes := inodes t\<rparr>) (t :: 'x fs_st_scheme)"
  shows "fs_sb t = fs_sb s" "disksize t = disksize s" "lg_start t = lg_start s" "held t = held s"
    "fs_st.more t = fs_st.more s"
  using only_log_fs[OF assms] only_log_sel[OF assms] by simp_all

lemma only_log_inodes_trans:
  assumes "only_log (s\<lparr>inodes := inodes t\<rparr>) (t :: 'x fs_st_scheme)" and "only_log (t\<lparr>inodes := inodes u\<rparr>) u"
  shows "only_log (s\<lparr>inodes := inodes u\<rparr>) u"
proof -
  obtain f p d w n b where t: "t = s\<lparr>inodes := inodes t, bufs := f, ptab := p, disk := d, dwrites := w, lh_n := n, lh_block := b\<rparr>"
    using assms(1) unfolding only_log_def by auto
  obtain f' p' d' w' n' b' where u: "u = t\<lparr>inodes := inodes u, bufs := f', ptab := p', disk := d', dwrites := w', lh_n := n',
      lh_block := b'\<rparr>"
    using assms(2) unfolding only_log_def by auto
  have "u = s\<lparr>inodes := inodes u, bufs := f', ptab := p', disk := d', dwrites := w', lh_n := n', lh_block := b'\<rparr>"
    by (subst u, subst t) simp
  then show ?thesis unfolding only_log_def by blast
qed

lemma fblocks_mono:
  assumes "N \<le> N'" and "\<forall>bn < N. blk t ip bn = blk s ip bn" and "ind s ip \<noteq> 0 \<longrightarrow> ind t ip = ind s ip"
  shows "fblocks s ip N \<subseteq> fblocks t ip N'"
proof
  fix b assume "b \<in> fblocks s ip N"
  then consider bn where "bn < N" "b = blk s ip bn" | "b = ind s ip" "b \<noteq> 0" by (auto simp: fblocks_def)
  then show "b \<in> fblocks t ip N'"
  proof cases
    case 1
    then have "b = blk t ip bn" "bn < N'" using assms by simp_all
    then show ?thesis by (simp add: fblocks_def)
  qed (use assms in \<open>simp add: fblocks_def\<close>)
qed

lemma fwriteD:
  assumes "fwrite m ip N N' off xs s t"
  shows "N \<le> N'" and "xs \<noteq> [] \<Longrightarrow> off + length xs \<le> N' * BSIZE" and "file_ok t m ip N'"
    and "fs_layout (fs_sb t) m (view t) t"
    and "inodes t = (inodes s)(ip := (inodes s ip)\<lparr>i_addrs := i_addrs (inodes t ip)\<rparr>)"
    and "only_log (s\<lparr>inodes := inodes t\<rparr>) t" and "disk t = disk s"
    and "\<forall>bn < N. blk t ip bn = blk s ip bn" and "ind s ip \<noteq> 0 \<longrightarrow> ind t ip = ind s ip"
    and "b < unat (sb_size (fs_sb s)) \<Longrightarrow> used (fs_sb s) (view t) b \<longleftrightarrow> used (fs_sb s) (view s) b \<or> of_nat b \<in> fblocks t ip N'"
    and "n \<notin> bmbs (fs_sb s) \<Longrightarrow> n \<notin> fblocks t ip N' \<Longrightarrow> view t n = view s n"
    and "j < N' * BSIZE \<Longrightarrow> file_byte t ip j = (if off \<le> j \<and> j < off + length xs then xs ! (j - off)
          else if j < N * BSIZE then file_byte s ip j else 0)"
    and "fs_sb t = fs_sb s" and "fblocks s ip N \<subseteq> fblocks t ip N'"
    and "c \<in> fblocks t ip N' \<Longrightarrow> c \<in> fblocks s ip N \<or> \<not> used (fs_sb s) (view s) (unat c)"
proof -
  note f = assms[unfolded fwrite_def]
  show *: "N \<le> N'" "\<forall>bn < N. blk t ip bn = blk s ip bn" "ind s ip \<noteq> 0 \<longrightarrow> ind t ip = ind s ip"
    "only_log (s\<lparr>inodes := inodes t\<rparr>) t" using f by blast+
  show "fs_sb t = fs_sb s" by (rule only_log_inodes(1)[OF *(4)])
  show "fblocks s ip N \<subseteq> fblocks t ip N'" by (rule fblocks_mono[OF *(1-3)])
qed (use assms[unfolded fwrite_def] in blast)+

lemma fwrite_trans:
  assumes "fwrite m ip N N' off xs s t" and "fwrite m ip N' N'' (off + length xs) ys t u"
  shows "fwrite m ip N N'' off (xs @ ys) s u"
proof -
  note 1 = fwriteD[OF assms(1)] and 2 = fwriteD[OF assms(2)]
  have N: "N \<le> N''" "N' * BSIZE \<le> N'' * BSIZE" using 1(1) 2(1) by simp_all
  have "xs @ ys \<noteq> [] \<longrightarrow> off + length (xs @ ys) \<le> N'' * BSIZE"
  proof (cases "ys = []")
    case True
    then show ?thesis using 1(2) N(2) by (simp, metis le_trans)
  qed (use 2(2) in simp)
  moreover have "inodes u = (inodes s)(ip := (inodes s ip)\<lparr>i_addrs := i_addrs (inodes u ip)\<rparr>)"
  proof -
    obtain a a' where a: "inodes t = (inodes s)(ip := (inodes s ip)\<lparr>i_addrs := a\<rparr>)"
        "inodes u = (inodes t)(ip := (inodes t ip)\<lparr>i_addrs := a'\<rparr>)"
      using 1(5) 2(5) by blast
    show ?thesis unfolding a(2) unfolding a(1) by simp
  qed
  moreover have "used (fs_sb s) (view u) b \<longleftrightarrow> used (fs_sb s) (view s) b \<or> of_nat b \<in> fblocks u ip N''"
    if "b < unat (sb_size (fs_sb s))" for b
    using 1(10)[OF that] 2(10)[unfolded 1(13), OF that] 2(14) by blast
  moreover have "c \<in> fblocks s ip N \<or> \<not> used (fs_sb s) (view s) (unat c)" if c: "c \<in> fblocks u ip N''" for c
  proof -
    have "unat c < unat (sb_size (fs_sb s))" using 2(3,13) 1(13) c by (auto simp: file_ok_def)
    then show ?thesis using 2(15)[OF c] 1(15)[of c] 1(10)[of "unat c"] unfolding 1(13) by blast
  qed
  moreover have "view u n = view s n" if "n \<notin> bmbs (fs_sb s)" "n \<notin> fblocks u ip N''" for n
  proof -
    have "n \<notin> fblocks t ip N'" using that(2) 2(14) by blast
    then show ?thesis using 1(11)[OF that(1)] 2(11)[unfolded 1(13), OF that] by simp
  qed
  moreover have "file_byte u ip j = (if off \<le> j \<and> j < off + length (xs @ ys) then (xs @ ys) ! (j - off)
      else if j < N * BSIZE then file_byte s ip j else 0)" if j: "j < N'' * BSIZE" for j
  proof -
    have NN: "N * BSIZE \<le> N' * BSIZE" using 1(1) by simp
    have X: "j < N' * BSIZE" if "off \<le> j" "j < off + length xs"
    proof -
      have "xs \<noteq> []" using that by auto
      from 1(2)[OF this] show ?thesis using that by linarith
    qed
    show ?thesis
    proof (cases "off + length xs \<le> j \<and> j < off + length xs + length ys")
      case True
      then show ?thesis unfolding 2(12)[OF j] by (auto simp: nth_append)
    next
      case False
      then show ?thesis unfolding 2(12)[OF j] using 1(12)[of j] NN X by (auto simp: nth_append)
    qed
  qed
  moreover have "\<forall>bn < N. blk u ip bn = blk s ip bn" using 1(1,8) 2(8) by simp
  moreover have "ind s ip \<noteq> 0 \<longrightarrow> ind u ip = ind s ip" using 1(9) 2(9) by auto
  moreover have "disk u = disk s" using 1(7) 2(7) by simp
  ultimately show ?thesis unfolding fwrite_def
    using N(1) 2(3,4) only_log_inodes_trans[OF 1(6) 2(6)] by blast
qed

lemma file_okD:
  assumes "file_ok s m ip N"
  shows "mapped s m ip N" and "length (i_addrs (inodes s ip)) = NDIRECT + 1"
    and "i < NDIRECT \<Longrightarrow> N \<le> i \<Longrightarrow> i_addrs (inodes s ip) ! i = 0"
    and "ind s ip \<noteq> 0 \<Longrightarrow> i < NINDIRECT \<Longrightarrow> N \<le> NDIRECT + i \<Longrightarrow> get32 (view s (ind s ip)) (4 * i) = 0"
    and "b \<in> fblocks s ip N \<Longrightarrow> b \<notin> bmbs (fs_sb s) \<and> unat b < unat (sb_size (fs_sb s)) \<and> used (fs_sb s) (view s) (unat b)"
  using assms by (simp_all add: file_ok_def)

lemma blk_in: "bn < N \<Longrightarrow> blk s ip bn \<in> fblocks s ip N"
  by (simp add: fblocks_def)

lemma ind_in: "ind s ip \<noteq> 0 \<Longrightarrow> ind s ip \<in> fblocks s ip N"
  by (simp add: fblocks_def)

text \<open>Blocks written or read without a change of the addresses.\<close>

lemma fwrite_same_view:
  fixes s t :: "'x fs_st_scheme"
  assumes "file_ok s m ip N" and "fs_layout (fs_sb s) m (view s) s" and "tx_to s m bl (view s) t"
  shows "fwrite m ip N N off [] s t"
proof -
  note tD = tx_toD[OF assms(3)] and fs = only_log_fs[OF tx_toD(4)[OF assms(3)]]
  note c = file_cong[of t ip s N] and ok = file_okD[OF assms(1)]
  have b: "blk t ip bn = blk s ip bn" if "bn < N" for bn using c(1) that fs(1) tD(3) by simp
  have i: "ind t ip = ind s ip" "fblocks t ip N = fblocks s ip N" using c fs(1) tD(3) by simp_all
  have "mapped t m ip N" by (rule mapped_cong[OF ok(1)]) (simp_all add: fs tD)
  then have "file_ok t m ip N" using ok fs i tD(3) by (simp add: file_ok_def)
  moreover have "only_log (s\<lparr>inodes := inodes t\<rparr>) t" using tD(4) fs(1) by simp
  moreover have "used (fs_sb s) (view s) b \<longleftrightarrow> used (fs_sb s) (view s) b \<or> of_nat b \<in> fblocks t ip N"
    if "b < unat (sb_size (fs_sb s))" for b
    using ok(5)[of "of_nat b"] i(2) unat_of_nat32[OF size_bound[OF that]] by auto
  moreover have "file_byte t ip j = (if off \<le> j \<and> j < off + length [] then [] ! (j - off)
      else if j < N * BSIZE then file_byte s ip j else 0)" if "j < N * BSIZE" for j
    using b[OF less_mult_imp_div_less[OF that]] tD(3) that by (auto simp: file_byte_def)
  moreover have "fs_layout (fs_sb t) m (view t) t" using assms(2) fs(2) tD by (simp add: fs_layout_def)
  ultimately show ?thesis unfolding fwrite_def using b i fs(1) tD(3,5) by auto
qed

lemma fwrite_block:
  fixes t :: "'x fs_st_scheme"
  assumes "quiet t m bl" and "file_ok t m ip N" and "fs_layout (fs_sb t) m (view t) t"
    and "o' + length ys \<le> N * BSIZE" and "o' mod BSIZE + length ys \<le> BSIZE"
    and "ys \<noteq> []" and a: "a = blk t ip (o' div BSIZE)"
    and "tx_to t m bl' ((view t)(a := splice (view t a) (o' mod BSIZE) ys)) u"
  shows "fwrite m ip N N o' ys t u"
proof -
  note uD = tx_toD[OF assms(8)] and fs = only_log_fs[OF tx_toD(4)[OF assms(8)]]
  note ok = file_okD[OF assms(2)] and mD = mappedD[OF file_okD(1)[OF assms(2)]]
  have bn: "o' div BSIZE < N"
  proof (rule less_mult_imp_div_less)
    have "0 < length ys" using assms(6) by simp
    then show "o' < N * BSIZE" using assms(4) by linarith
  qed
  have len: "length (view t a) = BSIZE" using assms(1) unfolding quiet_def by (blast intro: tx_sel(6))
  have ina: "a \<in> fblocks t ip N" unfolding a by (rule blk_in[OF bn])
  have nb: "a \<notin> bmbs (fs_sb t)" using ok(5)[OF ina] by simp
  have ia: "ind t ip \<noteq> a" using mD(1)[OF bn] unfolding a by metis
  have vi: "view u (ind t ip) = view t (ind t ip)" using uD(3) ia by simp
  note c = file_cong[of u ip t N, OF _ vi]
  have cb: "blk u ip i = blk t ip i" if "i < N" for i by (rule c(1)) (simp_all add: fs that)
  have ci: "ind u ip = ind t ip" "fblocks u ip N = fblocks t ip N" by (rule c(2,3), simp add: fs)+
  have m: "mapped u m ip N" by (rule mapped_cong[OF ok(1)]) (simp_all add: fs uD(6,7) vi)
  have us: "used (fs_sb t) (view u) b = used (fs_sb t) (view t) b" if "b < unat (sb_size (fs_sb t))" for b
    by (rule used_cong[OF _ that]) (use nb uD(3) in auto)
  have "file_ok u m ip N" using ok m ci fs vi us by (auto simp: file_ok_def)
  moreover have "fs_layout (fs_sb u) m (view u) u"
    unfolding fs(2) by (rule fs_layout_mono[OF assms(3) _ uD(6,7)]) (simp add: us)
  moreover have "only_log (t\<lparr>inodes := inodes u\<rparr>) u" using uD(4) fs(1) by simp
  moreover have "used (fs_sb t) (view u) b \<longleftrightarrow> used (fs_sb t) (view t) b \<or> of_nat b \<in> fblocks u ip N"
    if "b < unat (sb_size (fs_sb t))" for b
    using us[OF that] ok(5)[of "of_nat b"] ci(2) unat_of_nat32[OF size_bound[OF that]] by auto
  moreover have "file_byte u ip j = (if o' \<le> j \<and> j < o' + length ys then ys ! (j - o')
      else if j < N * BSIZE then file_byte t ip j else 0)" if j: "j < N * BSIZE" for j
  proof -
    have jN: "j div BSIZE < N" by (rule less_mult_imp_div_less[OF j])
    have f: "file_byte u ip j = ((view t)(a := splice (view t a) (o' mod BSIZE) ys)) (blk t ip (j div BSIZE)) ! (j mod BSIZE)"
      by (simp only: file_byte_def cb[OF jN] uD(3))
    show ?thesis
    proof (cases "j div BSIZE = o' div BSIZE")
      case True
      have "splice (view t a) (o' mod BSIZE) ys ! (j mod BSIZE)
          = (if o' mod BSIZE \<le> j mod BSIZE \<and> j mod BSIZE < o' mod BSIZE + length ys then ys ! (j mod BSIZE - o' mod BSIZE)
             else view t a ! (j mod BSIZE))"
        using assms(5) len by (intro splice_nth) simp_all
      note this[unfolded same_block[OF True]]
      then show ?thesis unfolding f using j unfolding file_byte_def True a[symmetric] fun_upd_same by (simp only: if_True)
    next
      case False
      then have "blk t ip (j div BSIZE) \<noteq> a" using mD(4)[OF jN bn] a by simp
      moreover have "\<not> (o' \<le> j \<and> j < o' + length ys)"
        using block_div[OF assms(5), of j] False unfolding set_upt atLeastLessThan_iff by blast
      ultimately show ?thesis unfolding f using j by (simp only: file_byte_def fun_upd_other if_False if_True simp_thms)
    qed
  qed
  moreover have "view u n = view t n" if "n \<notin> fblocks u ip N" for n
    using that ina ci(2) uD(3) by auto
  ultimately show ?thesis unfolding fwrite_def using assms(4,6) cb ci fs(1) uD(5) by auto
qed

text \<open>A fresh block is outside everything the file has.\<close>

lemma fresh_block:
  assumes "file_ok s m ip N" and "fs_layout (fs_sb s) m (view s) s"
    and "b < unat (sb_size (fs_sb s))" and "\<not> used (fs_sb s) (view s) b"
  shows "of_nat b \<noteq> (0 :: uint)" and "of_nat b < disksize s" and "of_nat b \<notin> region (lg_start s) m"
    and "of_nat b \<notin> bmbs (fs_sb s)" and "unat (of_nat b :: uint) = b" and "of_nat b \<notin> fblocks s ip N"
    and "bn < N \<Longrightarrow> blk s ip bn \<noteq> of_nat b" and "ind s ip \<noteq> of_nat b"
proof -
  show u: "unat (of_nat b :: uint) = b" using size_bound[OF assms(3)] by (simp add: unat_of_nat32)
  have l: "sb_size (fs_sb s) \<le> disksize s" "b \<noteq> 0 \<and> of_nat b \<notin> region (lg_start s) m \<and> of_nat b \<notin> bmbs (fs_sb s)"
    using assms(2-4) by (auto simp: fs_layout_def)
  then show "of_nat b \<notin> region (lg_start s) m" "of_nat b \<notin> bmbs (fs_sb s)" by simp_all
  show z: "of_nat b \<noteq> (0 :: uint)" using u l(2) by auto
  show "of_nat b < disksize s" unfolding word_less_nat_alt u using l(1) assms(3) unfolding word_le_nat_alt by linarith
  show f: "of_nat b \<notin> fblocks s ip N" using file_okD(5)[OF assms(1), of "of_nat b"] assms(4) u by auto
  show "bn < N \<Longrightarrow> blk s ip bn \<noteq> of_nat b" using f blk_in[of bn N s ip] by auto
  show "ind s ip \<noteq> of_nat b" using f ind_in[of s ip N] z by auto
qed

text \<open>What has to be shown of a state in which the file has received the fresh block \<open>b\<close>.\<close>

definition grows :: "'x fs_st_scheme \<Rightarrow> nat \<Rightarrow> nat \<Rightarrow> nat \<Rightarrow> nat \<Rightarrow> 'x fs_st_scheme \<Rightarrow> bool" where
  "grows s ip N N' b u \<longleftrightarrow> (N' = N \<or> N' = Suc N) \<and> N' \<le> MAXFILE
     \<and> inodes u = (inodes s)(ip := (inodes s ip)\<lparr>i_addrs := i_addrs (inodes u ip)\<rparr>)
     \<and> only_log (s\<lparr>inodes := inodes u\<rparr>) u \<and> disk u = disk s
     \<and> (\<forall>n. n \<notin> bmbs (fs_sb s) \<and> n \<noteq> of_nat b \<and> n \<notin> {ind s ip} - {0} \<longrightarrow> view u n = view s n)
     \<and> (\<forall>b' < unat (sb_size (fs_sb s)). used (fs_sb s) (view u) b' \<longleftrightarrow> used (fs_sb s) (view s) b' \<or> b' = b)
     \<and> (\<forall>bn < N. blk u ip bn = blk s ip bn) \<and> (N' = Suc N \<longrightarrow> blk u ip N = of_nat b \<and> view u (of_nat b) = replicate BSIZE 0)
     \<and> (if N' = N then ind s ip = 0 \<and> ind u ip = of_nat b else ind u ip = ind s ip)
     \<and> (NDIRECT < N' \<longrightarrow> ind u ip \<noteq> 0)
     \<and> length (i_addrs (inodes u ip)) = NDIRECT + 1
     \<and> (\<forall>i < NDIRECT. N' \<le> i \<longrightarrow> i_addrs (inodes u ip) ! i = 0)
     \<and> (ind u ip \<noteq> 0 \<longrightarrow> (\<forall>i < NINDIRECT. N' \<le> NDIRECT + i \<longrightarrow> get32 (view u (ind u ip)) (4 * i) = 0))"

lemma grows_fblocks:
  assumes "grows s ip N N' b u" and "of_nat b \<noteq> (0 :: uint)"
  shows "fblocks u ip N' = insert (of_nat b) (fblocks s ip N)"
proof -
  have i: "blk u ip ` {0..<N} = blk s ip ` {0..<N}" by (rule image_cong) (use assms(1) in \<open>auto simp: grows_def\<close>)
  show ?thesis
  proof (cases "N' = N")
    case True
    then show ?thesis using assms i by (simp add: grows_def fblocks_def)
  next
    case False
    then have *: "N' = Suc N" "blk u ip N = of_nat b" "ind u ip = ind s ip" using assms(1) by (auto simp: grows_def)
    then show ?thesis using i by (simp add: fblocks_def atLeast0_lessThan_Suc)
  qed
qed

lemma grows_mapped:
  fixes s u :: "'x fs_st_scheme"
  assumes "file_ok s m ip N" and "fs_layout (fs_sb s) m (view s) s"
    and "b < unat (sb_size (fs_sb s))" and "\<not> used (fs_sb s) (view s) b" and "grows s ip N N' b u"
  shows "mapped u m ip N'"
proof -
  note fr = fresh_block[OF assms(1-4)] and mD = mappedD[OF file_okD(1)[OF assms(1)]]
  have g: "only_log (s\<lparr>inodes := inodes u\<rparr>) u" "\<And>bn. bn < N \<Longrightarrow> blk u ip bn = blk s ip bn" "N' \<le> MAXFILE"
      "N' = N \<or> N' = Suc N \<and> blk u ip N = of_nat b" "NDIRECT < N' \<Longrightarrow> ind u ip \<noteq> 0"
      "if N' = N then ind s ip = 0 \<and> ind u ip = of_nat b else ind u ip = ind s ip"
    using assms(5) by (auto simp: grows_def)
  have dev: "i_dev (inodes u ip) = 1"
    using mD(6) assms(5) unfolding grows_def by (metis fun_upd_same inode.select_convs(1) inode.surjective inode.update_convs(11))
  have bl: "blk u ip bn = (if bn < N then blk s ip bn else of_nat b)" if "bn < N'" for bn
    using g(2,4) that by (cases "bn < N") (auto simp: less_Suc_eq)
  have "inj_on (blk u ip) {0..<N'}"
    using bl mD(4) fr(7) g(4) by (auto simp: inj_on_def split: if_splits) (metis fr(7))+
  moreover have "ind u ip \<notin> blk u ip ` {0..<N'}"
  proof
    assume "ind u ip \<in> blk u ip ` {0..<N'}"
    then obtain bn where bn: "bn < N'" "ind u ip = blk u ip bn" by auto
    show False
    proof (cases "N' = N")
      case True
      then show False using g(6) bn bl[OF bn(1)] fr(7)[of bn] by simp
    next
      case False
      then have "ind s ip = blk u ip bn" using g(6) bn(2) by simp
      then show False using bl[OF bn(1)] mD(1)[of bn] fr(8) by (metis)
    qed
  qed
  moreover have "b' \<noteq> 0 \<and> b' < disksize u \<and> b' \<notin> region (lg_start u) m" if "b' \<in> fblocks u ip N'" for b'
  proof -
    have "b' = of_nat b \<or> b' \<in> fblocks s ip N" using that grows_fblocks[OF assms(5) fr(1)] by simp
    moreover have "\<forall>b \<in> fblocks s ip N. b \<noteq> 0 \<and> b < disksize s \<and> b \<notin> region (lg_start s) m"
      using file_okD(1)[OF assms(1)] by (simp add: mapped_def)
    ultimately show ?thesis using fr(1-3) only_log_inodes(2,3)[OF g(1)] by auto
  qed
  ultimately show ?thesis using g(3,5) dev by (simp add: mapped_def)
qed

lemma grows_fwrite:
  fixes s u :: "'x fs_st_scheme"
  assumes "file_ok s m ip N" and "fs_layout (fs_sb s) m (view s) s"
    and "b < unat (sb_size (fs_sb s))" and "\<not> used (fs_sb s) (view s) b" and "grows s ip N N' b u"
  shows "fwrite m ip N N' off [] s u"
proof -
  note fr = fresh_block[OF assms(1-4)] and mD = mappedD[OF file_okD(1)[OF assms(1)]] and ok = file_okD[OF assms(1)]
  note fb = grows_fblocks[OF assms(5) fr(1)]
  have g: "only_log (s\<lparr>inodes := inodes u\<rparr>) u" "\<And>bn. bn < N \<Longrightarrow> blk u ip bn = blk s ip bn"
      "N' = N \<or> N' = Suc N \<and> blk u ip N = of_nat b \<and> view u (of_nat b) = replicate BSIZE 0"
    and v: "\<And>n. n \<notin> bmbs (fs_sb s) \<Longrightarrow> n \<noteq> of_nat b \<Longrightarrow> n \<notin> {ind s ip} - {0} \<Longrightarrow> view u n = view s n"
    and us: "\<And>b'. b' < unat (sb_size (fs_sb s)) \<Longrightarrow> used (fs_sb s) (view u) b' \<longleftrightarrow> used (fs_sb s) (view s) b' \<or> b' = b"
    and i: "if N' = N then ind s ip = 0 \<and> ind u ip = of_nat b else ind u ip = ind s ip"
    and d: "disk u = disk s" "inodes u = (inodes s)(ip := (inodes s ip)\<lparr>i_addrs := i_addrs (inodes u ip)\<rparr>)"
    using assms(5) unfolding grows_def by blast+
  note sb = only_log_inodes[OF g(1)]
  have eq: "of_nat b' = (of_nat b :: uint) \<longleftrightarrow> b' = b" if "b' < unat (sb_size (fs_sb s))" for b'
    using fr(5) unat_of_nat32[OF size_bound[OF that]] by metis
  have uf: "used (fs_sb s) (view s) b'" if "b' < unat (sb_size (fs_sb s))" "of_nat b' \<in> fblocks s ip N" for b'
    using ok(5)[OF that(2)] unat_of_nat32[OF size_bound[OF that(1)]] by simp
  have "b' \<notin> bmbs (fs_sb u) \<and> unat b' < unat (sb_size (fs_sb u)) \<and> used (fs_sb u) (view u) (unat b')"
    if "b' \<in> fblocks u ip N'" for b'
  proof -
    have "b' = of_nat b \<or> b' \<in> fblocks s ip N" using that fb by simp
    then show ?thesis using ok(5)[of b'] fr(4,5) assms(3) us[of "unat b'"] sb(1) by auto
  qed
  moreover have "length (i_addrs (inodes u ip)) = NDIRECT + 1" "\<forall>i < NDIRECT. N' \<le> i \<longrightarrow> i_addrs (inodes u ip) ! i = 0"
    "ind u ip \<noteq> 0 \<longrightarrow> (\<forall>i < NINDIRECT. N' \<le> NDIRECT + i \<longrightarrow> get32 (view u (ind u ip)) (4 * i) = 0)"
    using assms(5) unfolding grows_def by blast+
  ultimately have "file_ok u m ip N'" using grows_mapped[OF assms] by (simp add: file_ok_def)
  moreover have "fs_layout (fs_sb u) m (view u) u"
    unfolding sb(1) by (rule fs_layout_mono[OF assms(2) _ sb(2,3)]) (simp add: us)
  moreover have "used (fs_sb s) (view u) b' \<longleftrightarrow> used (fs_sb s) (view s) b' \<or> of_nat b' \<in> fblocks u ip N'"
    if "b' < unat (sb_size (fs_sb s))" for b'
    using us[OF that] uf[OF that] eq[OF that] fb by auto
  moreover have "c \<in> fblocks s ip N \<or> \<not> used (fs_sb s) (view s) (unat c)" if "c \<in> fblocks u ip N'" for c
    using that fr(5) assms(4) unfolding fb by auto
  moreover have "view u n = view s n" if "n \<notin> bmbs (fs_sb s)" "n \<notin> fblocks u ip N'" for n
    using v[OF that(1)] that(2) ind_in[of s ip N] unfolding fb by blast
  moreover have "file_byte u ip j = (if off \<le> j \<and> j < off + length [] then [] ! (j - off)
      else if j < N * BSIZE then file_byte s ip j else 0)" if j: "j < N' * BSIZE" for j
  proof (cases "j < N * BSIZE")
    case True
    then have n: "j div BSIZE < N" by (rule less_mult_imp_div_less)
    have "view u (blk s ip (j div BSIZE)) = view s (blk s ip (j div BSIZE))"
      using ok(5)[OF blk_in[OF n]] fr(7)[OF n] mD(1)[OF n] by (intro v) auto
    then show ?thesis using True g(2)[OF n] by (auto simp: file_byte_def)
  next
    case False
    then have N': "N' = Suc N" "j div BSIZE = N" "j mod BSIZE < BSIZE" using g(3) j by (auto intro!: div_nat_eqI)
    then show ?thesis using g(3) False by (auto simp: file_byte_def)
  qed
  moreover have "\<forall>bn < N. blk u ip bn = blk s ip bn" using g(2) by blast
  moreover have "ind s ip \<noteq> 0 \<longrightarrow> ind u ip = ind s ip" using i by (simp split: if_splits)
  moreover have "N \<le> N'" using g(3) by auto
  ultimately show ?thesis unfolding fwrite_def using g(1) d by blast
qed

lemma get32_zero: "k + 3 < n \<Longrightarrow> get32 (replicate n 0) k = 0"
  by (simp add: get32_def)

lemma took_only:
  assumes "took s m bl b t"
  shows "only_log s t" "disk t = disk s" "b < unat (sb_size (fs_sb s))" "\<not> used (fs_sb s) (view s) b"
  using assms tx_toD[of s m _ _ t] unfolding took_def by blast+

lemma only_log_addrs:
  assumes "only_log s (t :: 'x fs_st_scheme)"
  shows "only_log (s\<lparr>inodes := x\<rparr>) (t\<lparr>inodes := x\<rparr>)"
proof -
  obtain f p d w n b where t: "t = s\<lparr>bufs := f, ptab := p, disk := d, dwrites := w, lh_n := n, lh_block := b\<rparr>"
    using assms unfolding only_log_def by blast
  have "t\<lparr>inodes := x\<rparr> = s\<lparr>inodes := x, bufs := f, ptab := p, disk := d, dwrites := w, lh_n := n, lh_block := b\<rparr>"
    unfolding t by simp
  then show ?thesis unfolding only_log_def by blast
qed

definition put_addr :: "nat \<Rightarrow> nat \<Rightarrow> uint \<Rightarrow> 'x fs_st_scheme \<Rightarrow> 'x fs_st_scheme" where
  "put_addr ip i a s = s\<lparr>inodes := (inodes s)(ip := (inodes s ip)\<lparr>i_addrs := (i_addrs (inodes s ip))[i := a]\<rparr>)\<rparr>"

lemma put_addr_simps [simp]:
  "view (put_addr ip i a s) = view s" "quiet (put_addr ip i a s) m bl = quiet s m bl"
  "disk (put_addr ip i a s) = disk s" "fs_sb (put_addr ip i a s) = fs_sb s"
  "i_addrs (inodes (put_addr ip i a s) ip) = (i_addrs (inodes s ip))[i := a]"
  by (simp_all add: put_addr_def)

lemma put_addr_took:
  assumes "took s m bl b t" and "fs_layout (fs_sb s) m (view s) s" and "tx s m bl"
  shows "inodes (put_addr ip i a t) = (inodes s)(ip := (inodes s ip)\<lparr>i_addrs := (i_addrs (inodes s ip))[i := a]\<rparr>)"
    and "only_log (s\<lparr>inodes := inodes (put_addr ip i a t)\<rparr>) (put_addr ip i a t)"
proof -
  show e: "inodes (put_addr ip i a t) = (inodes s)(ip := (inodes s ip)\<lparr>i_addrs := (i_addrs (inodes s ip))[i := a]\<rparr>)"
    using tookD(4)[OF assms] by (simp add: put_addr_def)
  show "only_log (s\<lparr>inodes := inodes (put_addr ip i a t)\<rparr>) (put_addr ip i a t)"
    using only_log_addrs[OF took_only(1)[OF assms(1)]] by (simp add: put_addr_def)
qed

lemma grow_direct:
  fixes s t :: "'x fs_st_scheme"
  assumes "file_ok s m ip N" and "fs_layout (fs_sb s) m (view s) s" and "tx s m bl" and "took s m bl b t" and "N < NDIRECT"
  shows "grows s ip N (Suc N) b (put_addr ip N (of_nat b) t)"
proof -
  note k = tookD[OF assms(4,2,3)] and ko = took_only[OF assms(4)] and ok = file_okD[OF assms(1)]
  note fr = fresh_block[OF assms(1,2) ko(3,4)] and p = put_addr_took[OF assms(4,2,3)]
  let ?u = "put_addr ip N (of_nat b) t"
  have a: "i_addrs (inodes ?u ip) = (i_addrs (inodes s ip))[N := of_nat b]" using k(4) by simp
  have i: "ind ?u ip = ind s ip" unfolding ind_def a using assms(5) by simp
  have b: "blk ?u ip bn = blk s ip bn" if "bn < N" for bn using that assms(5) unfolding blk_def a by simp
  have bN: "blk ?u ip N = of_nat b" using assms(5) ok(2) unfolding blk_def a by simp
  have v: "view ?u n = view s n" if "n \<notin> bmbs (fs_sb s)" "n \<noteq> of_nat b" for n using k(6)[OF that] by simp
  have zi: "get32 (view ?u (ind ?u ip)) (4 * j) = 0" if "ind ?u ip \<noteq> 0" "j < NINDIRECT" "Suc N \<le> NDIRECT + j" for j
  proof -
    have "view ?u (ind s ip) = view s (ind s ip)"
      using ok(5)[OF ind_in[of s ip N]] that(1) fr(8) unfolding i by (intro v) blast+
    then show ?thesis using ok(4)[of j] that unfolding i by simp
  qed
  have e: "inodes ?u = (inodes s)(ip := (inodes s ip)\<lparr>i_addrs := i_addrs (inodes ?u ip)\<rparr>)" using p(1) by (simp add: a)
  show ?thesis unfolding grows_def
    using p(2)[of ip N "of_nat b"] e ko(2) v b bN i zi ok(3) k(1,5) a ok(2) assms(5) by (intro conjI) simp_all
qed

lemma grow_ind:
  fixes s t :: "'x fs_st_scheme"
  assumes "file_ok s m ip N" and "fs_layout (fs_sb s) m (view s) s" and "tx s m bl" and "took s m bl b t" and "N \<le> NDIRECT"
    and "ind s ip = 0"
  shows "grows s ip N N b (put_addr ip NDIRECT (of_nat b) t)"
proof -
  note k = tookD[OF assms(4,2,3)] and ko = took_only[OF assms(4)] and ok = file_okD[OF assms(1)]
  note fr = fresh_block[OF assms(1,2) ko(3,4)] and p = put_addr_took[OF assms(4,2,3)]
  let ?u = "put_addr ip NDIRECT (of_nat b) t"
  have a: "i_addrs (inodes ?u ip) = (i_addrs (inodes s ip))[NDIRECT := of_nat b]" using k(4) by simp
  have i: "ind ?u ip = of_nat b" unfolding ind_def a using ok(2) by simp
  have b: "blk ?u ip bn = blk s ip bn" if "bn < N" for bn using that assms(5) unfolding blk_def a by simp
  have v: "view ?u n = view s n" if "n \<notin> bmbs (fs_sb s)" "n \<noteq> of_nat b" for n using k(6)[OF that] by simp
  have zi: "get32 (view ?u (ind ?u ip)) (4 * j) = 0" if "j < NINDIRECT" for j
    unfolding i using k(5) that by (simp add: get32_zero)
  have e: "inodes ?u = (inodes s)(ip := (inodes s ip)\<lparr>i_addrs := i_addrs (inodes ?u ip)\<rparr>)" using p(1) by (simp add: a)
  show ?thesis unfolding grows_def
    using p(2)[of ip NDIRECT "of_nat b"] e ko(2) v b i zi ok(3) k(1) a ok(2) assms(5,6) fr(1) by (intro conjI) simp_all
qed

lemma grow_entry:
  fixes s s' t u :: "'x fs_st_scheme"
  assumes "file_ok s m ip N" and "fs_layout (fs_sb s) m (view s) s" and "tx s' m bl" and "took s' m bl b t"
    and "NDIRECT \<le> N" and "N < MAXFILE" and "ind s ip \<noteq> 0" and "only_log s u" and "disk u = disk s"
    and "only_log s s'" and "view s' = view s"
    and "view u = (view t)(ind s ip := put32 (view s (ind s ip)) (4 * (N - NDIRECT)) (of_nat b))"
  shows "grows s ip N (Suc N) b u"
proof -
  have s': "fs_sb s' = fs_sb s" using only_log_fs[OF assms(10)] by simp
  have l: "fs_layout (fs_sb s') m (view s') s'"
    using assms(2,11) s' only_log_sel(2,3)[OF assms(10)] by (simp add: fs_layout_def)
  note k = tookD[OF assms(4) l assms(3), unfolded s' assms(11)] and ko = took_only[OF assms(4), unfolded s' assms(11)] and ok = file_okD[OF assms(1)]
  note fr = fresh_block[OF assms(1,2) ko(3,4)] and fs = only_log_fs[OF assms(8)]
  have len: "length (view s (ind s ip)) = BSIZE" using tx_sel(6)[OF assms(3)] assms(11) by simp
  have nb: "ind s ip \<notin> bmbs (fs_sb s)" using ok(5)[OF ind_in[OF assms(7)]] by blast
  have i: "ind u ip = ind s ip" by (simp add: ind_def fs(1))
  have g: "get32 (view u (ind s ip)) (4 * (bn - NDIRECT)) = (if bn = N then of_nat b else get32 (view s (ind s ip)) (4 * (bn - NDIRECT)))"
    if "NDIRECT \<le> bn" "bn < MAXFILE" for bn
    using that assms(5,6) len unfolding assms(12) by (auto intro!: get32_put32 get_put_other)
  have b: "blk u ip bn = (if bn = N then of_nat b else blk s ip bn)" if "bn < MAXFILE" for bn
    using g[of bn] that assms(5) unfolding blk_def fs(1) ind_def[symmetric] by (cases "bn < NDIRECT") auto
  have z: "i_addrs (inodes u ip) ! j = 0" if "j < NDIRECT" "Suc N \<le> j" for j
    using ok(3)[of j] that assms(5) by simp
  have v: "view u n = view s n" if "n \<notin> bmbs (fs_sb s)" "n \<noteq> of_nat b" "n \<notin> {ind s ip} - {0}" for n
    unfolding assms(12) using k(6)[OF that(1,2)] that(3) assms(7) by simp
  have zi: "get32 (view u (ind u ip)) (4 * j) = 0" if "j < NINDIRECT" "Suc N \<le> NDIRECT + j" for j
    using g[of "NDIRECT + j"] ok(4)[OF assms(7), of j] that unfolding i by simp
  have us: "used (fs_sb s) (view u) b' = used (fs_sb s) (view t) b'" if "b' < unat (sb_size (fs_sb s))" for b'
    by (rule used_cong[OF _ that]) (use nb assms(12) in auto)
  have bz: "view u (of_nat b) = replicate BSIZE 0" unfolding assms(12) using k(5) fr(8) by auto
  have "only_log (s\<lparr>inodes := inodes u\<rparr>) u" using assms(8) fs(1) by simp
  then show ?thesis unfolding grows_def
    using fs(1) assms(5-7,9) v b bz i zi z k(1) us ok(2) by (intro conjI) simp_all
qed

end
