(* ===== verification/Fswrite.thy ===== *)
theory Fswrite
  imports Fsdata
begin

text \<open>
  Writing files: \<^verbatim>\<open>bmap\<close> with allocation, the loop of
  \<^verbatim>\<open>writei\<close> with its use of the log and of the free map, and the disk inode that
  \<^verbatim>\<open>iupdate\<close> stores.  The contents of a file are a sequence of bytes and
  \<^verbatim>\<open>writei\<close> implements the overwriting of a part of it.
\<close>

section \<open>Finding or allocating a block of a file\<close>

definition nfree :: "superblock \<Rightarrow> (uint \<Rightarrow> block) \<Rightarrow> nat" where
  "nfree sb v = card {b. b < unat (sb_size sb) \<and> \<not> used sb v b}"

lemma nfree_pos: "0 < nfree sb v \<Longrightarrow> \<exists>b < unat (sb_size sb). \<not> used sb v b"
proof (rule ccontr)
  assume a: "0 < nfree sb v" "\<not> (\<exists>b < unat (sb_size sb). \<not> used sb v b)"
  then have "{b. b < unat (sb_size sb) \<and> \<not> used sb v b} = {}" by blast
  then have "nfree sb v = 0" unfolding nfree_def by simp
  then show False using a(1) by simp
qed

lemma nfree_took:
  assumes "took s m bl b t" and "fs_layout (fs_sb s) m (view s) s" and "tx s m bl"
  shows "nfree (fs_sb s) (view s) \<le> Suc (nfree (fs_sb s) (view t))"
proof -
  let ?f = "\<lambda>v. {b. b < unat (sb_size (fs_sb s)) \<and> \<not> used (fs_sb s) v b}"
  have "?f (view s) = insert b (?f (view t))"
    using tookD(1)[OF assms] took_only(3,4)[OF assms(1)] by auto
  moreover have "finite (?f (view t))" by simp
  ultimately show ?thesis unfolding nfree_def by (simp add: card_insert_if)
qed

lemma quiet_can_alloc:
  "quiet s m bl \<Longrightarrow> fs_layout (fs_sb s) m (view s) s \<Longrightarrow> length bl + 2 < m \<Longrightarrow> can_alloc s m bl"
  by (simp add: can_alloc_def quiet_def)

lemma balloc_took:
  fixes s :: "'x fs_st_scheme"
  assumes "can_alloc s m bl" and "0 < nfree (fs_sb s) (view s)"
  shows "runs (balloc 1) s (\<lambda>a t. \<exists>b. a = of_nat b \<and> took s m bl b t)"
proof -
  obtain b where b: "b < unat (sb_size (fs_sb s))" "\<not> used (fs_sb s) (view s) b" using nfree_pos[OF assms(2)] by blast
  show ?thesis by (rule runs_mono[OF balloc_run[OF assms(1) b]]) blast
qed

lemma set_ins [simp]: "set (ins n bl) = insert n (set bl)"
  by (auto simp: ins_def)

lemma took_logged:
  assumes "took s m bl b t" and "quiet s m bl"
  shows "\<exists>bl'. quiet t m bl' \<and> set bl' \<subseteq> set bl \<union> bmbs (fs_sb s) \<union> {of_nat b} \<and> length bl' \<le> length bl + 2"
proof -
  let ?bl = "ins (of_nat b) (ins (bmb (fs_sb s) b) bl)"
  have "quiet t m ?bl" using assms quiet_tx_to unfolding took_def by blast
  moreover have "bmb (fs_sb s) b \<in> bmbs (fs_sb s)" using took_only(3)[OF assms(1)] by (rule bmb_in)
  moreover have "length ?bl \<le> length bl + 2"
    using ins_length[of "of_nat b" "ins (bmb (fs_sb s) b) bl"] ins_length[of "bmb (fs_sb s) b" bl] by linarith
  ultimately show ?thesis by (intro exI[of _ ?bl]) auto
qed

text \<open>The outcome of \<^verbatim>\<open>bmap\<close>: block \<open>bn\<close> of the file exists and is \<open>a\<close>.\<close>

definition bmapped :: "nat \<Rightarrow> nat \<Rightarrow> nat \<Rightarrow> nat \<Rightarrow> uint list \<Rightarrow> nat \<Rightarrow> 'x fs_st_scheme \<Rightarrow> uint \<Rightarrow> 'x fs_st_scheme \<Rightarrow> bool" where
  "bmapped m ip N bn bl off s a t \<longleftrightarrow> a = blk t ip bn \<and> fwrite m ip N (max N (Suc bn)) off [] s t
     \<and> (\<exists>bl'. quiet t m bl' \<and> set bl' \<subseteq> set bl \<union> bmbs (fs_sb s) \<union> {a} \<union> ({ind t ip} - {0}))"

lemma bmap_direct:
  fixes s :: "'x fs_st_scheme"
  assumes "quiet s m bl" and "file_ok s m ip N" and "fs_layout (fs_sb s) m (view s) s" and "N < NDIRECT"
    and "length bl + 4 < m" and "0 < nfree (fs_sb s) (view s)"
  shows "runs (bmap ip (of_nat N)) s (bmapped m ip N N bl off s)"
proof -
  note ok = file_okD[OF assms(2)]
  have dev: "i_dev (inodes s ip) = 1" by (rule mappedD(6)[OF ok(1)])
  have u: "unat (of_nat N :: uint) = N" "(of_nat N :: uint) < 12" using assms(4) by (simp_all add: unat_of_nat32 word_less_nat_alt)
  have z: "i_addrs (inodes s ip) ! N = 0" using ok(3) assms(4) by simp
  have tx: "tx s m bl" using assms(1) by (simp add: quiet_def)
  have "runs (balloc 1) s (\<lambda>a t. bmapped m ip N N bl off s a (put_addr ip N a t))"
  proof (rule runs_mono[OF balloc_took[OF quiet_can_alloc[OF assms(1,3)] assms(6)]], goal_cases)
    case (2 a t)
    then obtain b where b: "a = of_nat b" "took s m bl b t" by blast
    let ?u = "put_addr ip N a t"
    have g: "grows s ip N (Suc N) b ?u" unfolding b(1) by (rule grow_direct[OF assms(2,3) tx b(2) assms(4)])
    have f: "fwrite m ip N (Suc N) off [] s ?u"
      by (rule grows_fwrite[OF assms(2,3) took_only(3,4)[OF b(2)] g])
    obtain bl' where bl': "quiet t m bl'" "set bl' \<subseteq> set bl \<union> bmbs (fs_sb s) \<union> {a}"
      using took_logged[OF b(2) assms(1)] unfolding b(1) by blast
    have "a = blk ?u ip N" using g unfolding grows_def b(1) by simp
    then show ?case unfolding bmapped_def using f bl' by (simp add: max_def) blast
  qed (use assms(5) in simp)
  then show ?thesis by (simp add: bmap_def Let_def u z dev upi_def put_addr_def)
qed

text \<open>The two halves of the indirect case: the indirect block, then its entry.\<close>

lemma bmap_ind_block:
  fixes s :: "'x fs_st_scheme"
  assumes "quiet s m bl" and "file_ok s m ip N" and "fs_layout (fs_sb s) m (view s) s" and "NDIRECT \<le> N"
    and "length bl + 5 < m" and "(if ind s ip = 0 then 1 else 0) < nfree (fs_sb s) (view s)"
  shows "runs (let addr = i_addrs (inodes s ip) ! NDIRECT in
      if addr = 0 then bnd (balloc 1) (\<lambda>addr. thn (upi ip (\<lambda>n. n\<lparr>i_addrs := (i_addrs n)[NDIRECT := addr]\<rparr>)) (ret addr))
      else ret addr) s
    (\<lambda>a t. a = ind t ip \<and> a \<noteq> 0 \<and> fwrite m ip N N off [] s t \<and> 0 < nfree (fs_sb s) (view t)
      \<and> (\<exists>bl'. quiet t m bl' \<and> length bl' + 3 < m \<and> set bl' \<subseteq> set bl \<union> bmbs (fs_sb s) \<union> {a}))"
proof (cases "ind s ip = 0")
  case True
  note ok = file_okD[OF assms(2)]
  have N: "N = NDIRECT" using mappedD(2)[OF ok(1)] True assms(4) by fastforce
  have tx: "tx s m bl" using assms(1) by (simp add: quiet_def)
  have nf: "1 < nfree (fs_sb s) (view s)" using assms(6) True by simp
  have "runs (balloc 1) s (\<lambda>a t. let u = put_addr ip NDIRECT a t in a = ind u ip \<and> a \<noteq> 0 \<and> fwrite m ip N N off [] s u
      \<and> 0 < nfree (fs_sb s) (view u)
      \<and> (\<exists>bl'. quiet u m bl' \<and> length bl' + 3 < m \<and> set bl' \<subseteq> set bl \<union> bmbs (fs_sb s) \<union> {a}))"
  proof (rule runs_mono[OF balloc_took[OF quiet_can_alloc[OF assms(1,3)]]], goal_cases)
    case (3 a t)
    then obtain b where b: "a = of_nat b" "took s m bl b t" by blast
    let ?u = "put_addr ip NDIRECT a t"
    have g: "grows s ip N N b ?u" unfolding b(1) using N by (intro grow_ind[OF assms(2,3) tx b(2) _ True]) simp
    have f: "fwrite m ip N N off [] s ?u" by (rule grows_fwrite[OF assms(2,3) took_only(3,4)[OF b(2)] g])
    obtain bl' where bl': "quiet t m bl'" "set bl' \<subseteq> set bl \<union> bmbs (fs_sb s) \<union> {a}" "length bl' \<le> length bl + 2"
      using took_logged[OF b(2) assms(1)] unfolding b(1) by blast
    have i: "a = ind ?u ip" using g unfolding grows_def b(1) by simp
    have z: "a \<noteq> 0" unfolding b(1) by (rule fresh_block(1)[OF assms(2,3) took_only(3,4)[OF b(2)]])
    have "0 < nfree (fs_sb s) (view t)" using nfree_took[OF b(2) assms(3) tx] nf by linarith
    then show ?case unfolding Let_def using i z f bl' assms(5) by (intro conjI exI[of _ bl']) simp_all
  qed (use assms(5) nf in simp_all)
  then show ?thesis using True unfolding ind_def by (simp add: Let_def upi_def put_addr_def)
next
  case False
  have "fwrite m ip N N off [] s s"
    using assms(1) unfolding quiet_def by (blast intro: fwrite_same_view[OF assms(2,3)] tx_to_refl)
  moreover have "\<exists>bl'. quiet s m bl' \<and> length bl' + 3 < m \<and> set bl' \<subseteq> set bl \<union> bmbs (fs_sb s) \<union> {ind s ip}"
    using assms(1,5) by (intro exI[of _ bl]) auto
  ultimately show ?thesis using False assms(6) unfolding Let_def ind_def[symmetric] by simp
qed

lemma bmap_entry:
  fixes s :: "'x fs_st_scheme"
  assumes "quiet s m bl" and "file_ok s m ip N" and "fs_layout (fs_sb s) m (view s) s" and "NDIRECT \<le> N" and "N < MAXFILE"
    and "length bl + 3 < m" and "0 < nfree (fs_sb s) (view s)" and "ind s ip \<noteq> 0"
  shows "runs (bnd (bread 1 (ind s ip)) (\<lambda>bp.
         bnd (gets (\<lambda>s. get32 (buf_data s bp) (4 * (N - NDIRECT)))) (\<lambda>addr.
         bnd (if addr = 0 then
             bnd (balloc 1) (\<lambda>addr.
             thn (modify (\<lambda>s. put_data bp (put32 (buf_data s bp) (4 * (N - NDIRECT)) addr) s)) (
             thn (log_write bp) (
             ret addr)))
           else ret addr) (\<lambda>addr.
         thn (brelse bp) (
         ret addr))))) s (bmapped m ip N N bl off s)"
proof -
  note ok = file_okD[OF assms(2)]
  let ?ind = "ind s ip" and ?sb = "fs_sb s"
  have tx: "tx s m bl" and hn: "holds_buf s = Map.empty" using assms(1) by (simp_all add: quiet_def)
  have id: "?ind < disksize s" "?ind \<notin> region (lg_start s) m" using mappedD(3)[OF ok(1) assms(8)] by simp_all
  have iu: "?ind \<notin> bmbs ?sb" "used ?sb (view s) (unat ?ind)" using ok(5)[OF ind_in[OF assms(8)]] by simp_all
  have z: "get32 (view s ?ind) (4 * (N - NDIRECT)) = 0" using ok(4)[OF assms(8), of "N - NDIRECT"] assms(4,5) by simp
  show ?thesis unfolding runs_bnd[where m = "bread 1 ?ind"]
  proof (rule runs_mono[OF bread_tx[OF tx quiet_free[OF assms(1) id(1)]]], elim conjE)
    fix i and r :: "'x fs_st_scheme"
    assume r: "tx r m bl" "holds_buf s i = None" "holds_buf r = (holds_buf s)(i \<mapsto> ?ind)" "view r = view s"
      "only_log s r" "disk r = disk s" "buf_data r i = view s ?ind"
    note rf = only_log_fs[OF r(5)] and rs = only_log_sel[OF r(5)]
    have lr: "fs_layout (fs_sb r) m (view r) r" using assms(3) rf r(4) rs(2,3) by (simp add: fs_layout_def)
    have c: "can_alloc r m bl"
      using r(1) lr assms(6) iu unfolding can_alloc_def r(3,4) hn rf(2)
      by (auto simp: ran_def unat_of_nat32[OF size_bound])
    have "runs (balloc 1) r (\<lambda>a t. runs (thn (modify (\<lambda>s. put_data i (put32 (buf_data s i) (4 * (N - NDIRECT)) a) s))
        (thn (log_write i) (brelse i))) t (\<lambda>_ u. bmapped m ip N N bl off s a u))"
    proof (rule runs_mono[OF balloc_took[OF c]], goal_cases)
      case (2 a t)
      then obtain b where b: "a = of_nat b" "took r m bl b t" by blast
      note ko = took_only[OF b(2), unfolded rf(2) r(4)] and k = tookD[OF b(2) lr r(1), unfolded rf(2) r(4)]
      note fr = fresh_block[OF assms(2,3) ko(3,4)]
      let ?bl = "ins a (ins (bmb ?sb b) bl)"
      have t: "tx t m ?bl" "holds_buf t = (holds_buf s)(i \<mapsto> ?ind)" "only_log s t" "disk t = disk s"
        using b(2) r only_log_trans[OF r(5)] tx_toD[of r m ?bl _ t] unfolding took_def rf(2) b(1) by auto
      have vi: "view t ?ind = view s ?ind" using k(6)[OF iu(1) fr(8)] .
      have bd: "buf_data t i = view s ?ind" using buf_data_law[of t i ?ind] tx_sel(1)[OF t(1)] t(2) vi by simp
      let ?d = "put32 (view s ?ind) (4 * (N - NDIRECT)) a"
      have lb: "length ?bl \<le> length bl + 2" using ins_length[of a "ins (bmb ?sb b) bl"] ins_length[of "bmb ?sb b" bl] by linarith
      have "runs (thn (modify (put_data i ?d)) (thn (log_write i) (brelse i))) t
          (\<lambda>_ u. tx_to s m (ins ?ind ?bl) ((view t)(?ind := ?d)) u)"
        by (rule finish_update[OF t(1) r(2) t(2,3,4) _ _ id(2)]) (use tx_sel(6)[OF tx] lb assms(6) in simp_all)
      then have "runs (thn (modify (put_data i ?d)) (thn (log_write i) (brelse i))) t (\<lambda>_ u. bmapped m ip N N bl off s a u)"
      proof (rule runs_mono)
        fix u :: "'x fs_st_scheme" assume u: "tx_to s m (ins ?ind ?bl) ((view t)(?ind := ?d)) u"
        note uD = tx_toD[OF u]
        have g: "grows s ip N (Suc N) b u"
          by (rule grow_entry[OF assms(2,3) r(1) b(2) assms(4,5,8) uD(4,5) r(5,4)]) (use uD(3) b(1) in simp)
        have f: "fwrite m ip N (Suc N) off [] s u" by (rule grows_fwrite[OF assms(2,3) ko(3,4) g])
        have a: "a = blk u ip N" "ind u ip = ?ind" using g unfolding grows_def b(1) by simp_all
        have "bmb ?sb b \<in> bmbs ?sb" by (rule bmb_in[OF ko(3)])
        then have "set (ins ?ind ?bl) \<subseteq> set bl \<union> bmbs ?sb \<union> {a} \<union> ({ind u ip} - {0})" using a(2) assms(8) by auto
        then show "bmapped m ip N N bl off s a u"
          unfolding bmapped_def max_absorb2[OF le_SucI[OF order_refl]] using a(1) f quiet_tx_to[OF assms(1) u] by blast
      qed
      then show ?case by (simp add: bd)
    qed (use assms(7) in \<open>simp add: rf(2) r(4)\<close>)
    then show "runs (bnd (gets (\<lambda>s. get32 (buf_data s i) (4 * (N - NDIRECT)))) (\<lambda>addr.
         bnd (if addr = 0 then
             bnd (balloc 1) (\<lambda>addr.
             thn (modify (\<lambda>s. put_data i (put32 (buf_data s i) (4 * (N - NDIRECT)) addr) s)) (
             thn (log_write i) (
             ret addr)))
           else ret addr) (\<lambda>addr.
         thn (brelse i) (
         ret addr)))) r (bmapped m ip N N bl off s)"
      by (simp add: r(7) z)
  qed
qed

lemma fwrite_trans_nil:
  assumes "fwrite m ip N N' off [] s t" and "fwrite m ip N' N'' off ys t u"
  shows "fwrite m ip N N'' off ys s u"
  using fwrite_trans[OF assms(1), of N'' ys u] assms(2) by simp

lemma bmap_indirect:
  fixes s :: "'x fs_st_scheme"
  assumes "quiet s m bl" and "file_ok s m ip N" and "fs_layout (fs_sb s) m (view s) s" and "NDIRECT \<le> N" and "N < MAXFILE"
    and "length bl + 5 < m" and "(if ind s ip = 0 then 1 else 0) < nfree (fs_sb s) (view s)"
  shows "runs (bmap ip (of_nat N)) s (bmapped m ip N N bl off s)"
proof -
  have dev: "i_dev (inodes s ip) = 1" by (rule mappedD(6)[OF file_okD(1)[OF assms(2)]])
  have u: "unat (of_nat N :: uint) = N" using assms(5) by (simp add: unat_of_nat32)
  have v: "\<not> (of_nat N :: uint) < 12" using u assms(4) by (simp add: word_less_nat_alt)
  have sub: "(of_nat N - 12 :: uint) = of_nat (N - 12)" using assms(4) by (simp add: of_nat_diff)
  have w: "unat (of_nat N - 12 :: uint) = N - 12" unfolding sub using assms(5) by (intro unat_of_nat32) simp
  then have w2: "(of_nat N - 12 :: uint) < 128" using assms(5) by (simp add: word_less_nat_alt)
  let ?entry = "\<lambda>ind. bnd (bread 1 ind) (\<lambda>bp.
         bnd (gets (\<lambda>s. get32 (buf_data s bp) (4 * (N - 12)))) (\<lambda>addr.
         bnd (if addr = 0 then
             bnd (balloc 1) (\<lambda>addr.
             thn (modify (\<lambda>s. put_data bp (put32 (buf_data s bp) (4 * (N - 12)) addr) s)) (
             thn (log_write bp) (
             ret addr)))
           else ret addr) (\<lambda>addr.
         thn (brelse bp) (
         ret addr))))"
  have "runs (bnd (let addr = i_addrs (inodes s ip) ! NDIRECT in
      if addr = 0 then bnd (balloc 1) (\<lambda>addr. thn (upi ip (\<lambda>n. n\<lparr>i_addrs := (i_addrs n)[NDIRECT := addr]\<rparr>)) (ret addr))
      else ret addr) ?entry) s (bmapped m ip N N bl off s)"
    unfolding runs_bnd[where f = ?entry]
  proof (rule runs_mono[OF bmap_ind_block[OF assms(1-4,6,7)]], elim exE conjE)
    fix a and t :: "'x fs_st_scheme" and bl'
    assume a: "a = ind t ip" "a \<noteq> 0" and t: "fwrite m ip N N off [] s t" "0 < nfree (fs_sb s) (view t)"
      and bl': "quiet t m bl'" "length bl' + 3 < m" "set bl' \<subseteq> set bl \<union> bmbs (fs_sb s) \<union> {a}"
    note tD = fwriteD[OF t(1)]
    have "runs (?entry (ind t ip)) t (bmapped m ip N N bl' off t)"
      by (rule bmap_entry[OF bl'(1) tD(3,4) assms(4,5) bl'(2)]) (use t(2) a tD(13) in simp_all)
    then show "runs (?entry a) t (bmapped m ip N N bl off s)" unfolding a(1)
    proof (rule runs_mono)
      fix a' and u :: "'x fs_st_scheme" assume b: "bmapped m ip N N bl' off t a' u"
      then obtain bl'' where bl'': "quiet u m bl''" "set bl'' \<subseteq> set bl' \<union> bmbs (fs_sb s) \<union> {a'} \<union> ({ind u ip} - {0})"
          "a' = blk u ip N" "fwrite m ip N (max N (Suc N)) off [] t u"
        unfolding bmapped_def tD(13) by blast
      have "ind u ip = a" using fwriteD(9)[OF bl''(4)] a by simp
      then have "set bl'' \<subseteq> set bl \<union> bmbs (fs_sb s) \<union> {a'} \<union> ({ind u ip} - {0})" using bl'(3) bl''(2) a(2) by auto
      then show "bmapped m ip N N bl off s a' u"
        unfolding bmapped_def using bl''(1,3) fwrite_trans_nil[OF t(1) bl''(4)] by blast
    qed
  qed
  then show ?thesis using v w2 unfolding bmap_def runs_bnd[where m = "gets (\<lambda>s. inodes s ip)"] runs_gets
    by (simp only: dev w if_False if_True Let_def)
qed

lemma bmap_run:
  fixes s :: "'x fs_st_scheme"
  assumes "quiet s m bl" and "file_ok s m ip N" and "fs_layout (fs_sb s) m (view s) s" and "bn \<le> N" and "bn < MAXFILE"
    and "length bl + 5 < m" and "bn = N \<Longrightarrow> (if ind s ip = 0 then 1 else 0) < nfree (fs_sb s) (view s)"
  shows "runs (bmap ip (of_nat bn)) s (bmapped m ip N bn bl off s)"
proof (cases "bn < N")
  case True
  have mx: "max N (Suc bn) = N" using True by simp
  show ?thesis
  proof (rule runs_mono[OF bmap_mapped[OF assms(1) file_okD(1)[OF assms(2)] True]], elim conjE)
    fix a and t :: "'x fs_st_scheme" assume a: "a = blk s ip bn" and t: "tx_to s m bl (view s) t"
    have f: "fwrite m ip N N off [] s t" by (rule fwrite_same_view[OF assms(2,3) t])
    then have "blk t ip bn = a" using fwriteD(8)[OF f] True a by simp
    then show "bmapped m ip N bn bl off s a t" unfolding bmapped_def mx
      using f quiet_tx_to[OF assms(1) t] by blast
  qed
next
  case False
  then have bn: "bn = N" using assms(4) by simp
  have nf: "0 < nfree (fs_sb s) (view s)" using assms(7)[OF bn] by (auto split: if_splits)
  show ?thesis unfolding bn
  proof (cases "N < NDIRECT")
    case True
    then show "runs (bmap ip (of_nat N)) s (bmapped m ip N N bl off s)"
      using assms(6) nf by (intro bmap_direct[OF assms(1-3)]) simp_all
  qed (use assms(5-7) bn in \<open>intro bmap_indirect[OF assms(1-3)], simp_all\<close>)
qed

section \<open>Writing\<close>

lemma nfree_fwrite:
  assumes "file_ok s m ip N" and "fwrite m ip N N' off xs s t"
  shows "nfree (fs_sb s) (view s) \<le> nfree (fs_sb s) (view t) + (N' - N) + (if ind s ip = 0 \<and> ind t ip \<noteq> 0 then 1 else 0)"
proof -
  note f = fwriteD[OF assms(2)]
  let ?sz = "unat (sb_size (fs_sb s))"
  let ?F = "\<lambda>v. {b. b < ?sz \<and> \<not> used (fs_sb s) v b}"
  let ?I = "if ind s ip = 0 \<and> ind t ip \<noteq> 0 then {unat (ind t ip)} else {}"
  have "?F (view s) \<subseteq> ?F (view t) \<union> (unat ` blk t ip ` {N..<N'} \<union> ?I)"
  proof
    fix b assume "b \<in> ?F (view s)"
    then have b: "b < ?sz" "\<not> used (fs_sb s) (view s) b" by auto
    have u: "unat (of_nat b :: uint) = b" using unat_of_nat32[OF size_bound[OF b(1)]] .
    show "b \<in> ?F (view t) \<union> (unat ` blk t ip ` {N..<N'} \<union> ?I)"
    proof (cases "used (fs_sb s) (view t) b")
      case True
      then have t: "of_nat b \<in> fblocks t ip N'" using f(10)[OF b(1)] b(2) by blast
      have s: "of_nat b \<notin> fblocks s ip N" using file_okD(5)[OF assms(1)] b(2) u by force
      show ?thesis
      proof (cases "of_nat b \<in> blk t ip ` {0..<N'}")
        case True
        then obtain bn where bn: "bn < N'" "of_nat b = blk t ip bn" by auto
        have "\<not> bn < N" using s bn(2) f(8) blk_in[of bn N s ip] by auto
        then have "of_nat b \<in> blk t ip ` {N..<N'}" using bn by simp
        then have "b \<in> unat ` blk t ip ` {N..<N'}" using u by (metis imageI)
        then show ?thesis by blast
      next
        case False
        then have i: "of_nat b = ind t ip" "ind t ip \<noteq> 0" using t by (auto simp: fblocks_def)
        then have "ind s ip = 0" using s f(9) ind_in[of s ip N] by auto
        then have "b \<in> ?I" using i u by simp
        then show ?thesis by blast
      qed
    qed (use b in simp)
  qed
  then have "nfree (fs_sb s) (view s) \<le> card (?F (view t) \<union> (unat ` blk t ip ` {N..<N'} \<union> ?I))"
    unfolding nfree_def by (intro card_mono) auto
  also have "\<dots> \<le> card (?F (view t)) + (card (unat ` blk t ip ` {N..<N'}) + card ?I)"
    by (meson add_le_cancel_left card_Un_le le_trans)
  also have "card (unat ` blk t ip ` {N..<N'}) \<le> N' - N"
    by (metis card_atLeastLessThan card_image_le finite_atLeastLessThan finite_imageI le_trans)
  finally show ?thesis unfolding nfree_def by auto
qed

text \<open>The logged blocks stay within \<open>A\<close> and the indirect block.\<close>

lemma logged_length:
  assumes "tx s m bl" and "set bl \<subseteq> A \<union> ({n} - {0})" and "finite A"
  shows "length bl \<le> Suc (card A)"
proof -
  have "distinct bl" using assms(1) by (simp add: tx_def log_inv_def hdr_ok_def)
  then have "length bl = card (set bl)" by (simp add: distinct_card)
  also have "\<dots> \<le> card (insert n A)" using assms(2,3) by (intro card_mono) auto
  also have "\<dots> \<le> Suc (card A)" using assms(3) by (simp add: card_insert_if)
  finally show ?thesis .
qed

lemma writei_piece:
  fixes t :: "'x fs_st_scheme"
  assumes "quiet t m bl" and "file_ok t m ip N" and "fs_layout (fs_sb t) m (view t) t"
    and "set bl \<subseteq> A \<union> ({ind t ip} - {0})" and "finite A" and "bmbs (fs_sb t) \<subseteq> A" and "card A + 6 < m"
    and "o' \<le> N * BSIZE" and "o' < MAXFILE * BSIZE" and "o' mod BSIZE + length ys \<le> BSIZE" and "ys \<noteq> []"
    and "o' div BSIZE = N \<Longrightarrow> (if ind t ip = 0 then 1 else 0) < nfree (fs_sb t) (view t)"
  shows "runs (bnd (bmap ip (of_nat (o' div BSIZE))) (\<lambda>a. bnd (bread 1 a) (\<lambda>bp.
         thn (modify (\<lambda>s. put_data bp (splice (buf_data s bp) (o' mod BSIZE) ys) s)) (thn (log_write bp) (brelse bp))))) t
     (\<lambda>_ u. fwrite m ip N (max N (Suc (o' div BSIZE))) o' ys t u
       \<and> (\<exists>bl' a. quiet u m bl' \<and> set bl' \<subseteq> insert a A \<union> ({ind u ip} - {0})))"
proof -
  let ?bn = "o' div BSIZE"
  let ?N = "max N (Suc ?bn)"
  have tx: "tx t m bl" using assms(1) by (simp add: quiet_def)
  have bn: "?bn \<le> N" "?bn < MAXFILE" using div_le_mono[OF assms(8), of BSIZE] assms(9) by (simp_all add: less_mult_imp_div_less)
  have lb: "length bl + 5 < m" using logged_length[OF tx assms(4,5)] assms(7) by linarith
  show ?thesis unfolding runs_bnd[where m = "bmap ip (of_nat ?bn)"]
  proof (rule runs_mono[OF bmap_run[OF assms(1-3) bn lb assms(12), where off = o']])
    fix a and v :: "'x fs_st_scheme" assume "bmapped m ip N ?bn bl o' t a v"
    then obtain bl1 where v: "a = blk v ip ?bn" "fwrite m ip N ?N o' [] t v" "quiet v m bl1"
        "set bl1 \<subseteq> set bl \<union> bmbs (fs_sb t) \<union> {a} \<union> ({ind v ip} - {0})"
      unfolding bmapped_def by blast
    note vD = fwriteD[OF v(2)]
    have tv: "tx v m bl1" using v(3) by (simp add: quiet_def)
    have "{ind t ip} - {0} \<subseteq> {ind v ip} - {0}" using vD(9) by auto
    then have s1: "set bl1 \<subseteq> insert a A \<union> ({ind v ip} - {0})" using v(4) assms(4,6) by blast
    have "card (insert a A) \<le> Suc (card A)" using assms(5) by (simp add: card_insert_if)
    then have l1: "Suc (length bl1) < m" using logged_length[OF tv s1] assms(5,7) by simp
    have bN: "?bn < ?N" by simp
    note mv = mappedD(1)[OF file_okD(1)[OF vD(3)] bN]
    have ad: "a < disksize v" "a \<notin> region (lg_start v) m" using mv v(1) by simp_all
    let ?f = "\<lambda>d. splice d (o' mod BSIZE) ys"
    have "runs (bnd (bread 1 a) (\<lambda>bp. thn (modify (\<lambda>s. put_data bp (?f (buf_data s bp)) s)) (thn (log_write bp) (brelse bp)))) v
      (\<lambda>_ u. tx_to v m (ins a bl1) ((view v)(a := ?f (view v a))) u)"
      by (rule update_block[OF tv quiet_free[OF v(3) ad(1)] l1 ad(2)]) (use assms(10) in simp)
    then show "runs (bnd (bread 1 a) (\<lambda>bp. thn (modify (\<lambda>s. put_data bp (?f (buf_data s bp)) s)) (thn (log_write bp) (brelse bp)))) v
      (\<lambda>_ u. fwrite m ip N ?N o' ys t u \<and> (\<exists>bl' a. quiet u m bl' \<and> set bl' \<subseteq> insert a A \<union> ({ind u ip} - {0})))"
    proof (rule runs_mono)
      fix u :: "'x fs_st_scheme" assume u: "tx_to v m (ins a bl1) ((view v)(a := ?f (view v a))) u"
      have "o' + length ys \<le> Suc ?bn * BSIZE" by (rule piece_end[OF assms(10)])
      also have "\<dots> \<le> ?N * BSIZE" by (rule mult_le_mono1) simp
      finally have w: "fwrite m ip ?N ?N o' ys v u"
        by (rule fwrite_block[OF v(3) vD(3,4) _ assms(10,11) v(1) u])
      have "ind u ip = ind v ip" using fwriteD(5)[OF w] only_log_fs[OF tx_toD(4)[OF u]] by (simp add: ind_def)
      then have "set (ins a bl1) \<subseteq> insert a A \<union> ({ind u ip} - {0})" using s1 by auto
      then show "fwrite m ip N ?N o' ys t u \<and> (\<exists>bl' a. quiet u m bl' \<and> set bl' \<subseteq> insert a A \<union> ({ind u ip} - {0}))"
        using fwrite_trans_nil[OF v(2) w] quiet_tx_to[OF v(3) u] by blast
    qed
  qed
qed

lemma chunks_prefix:
  "chunks off n = ys @ (o', k) # zs \<Longrightarrow> o' = off + sum_list (map snd ys) \<and> sum_list (map snd ys) + k \<le> n"
proof (induction off n arbitrary: ys rule: chunks.induct)
  case (1 off n)
  let ?m = "min n (BSIZE - off mod BSIZE)"
  have n: "n \<noteq> 0" using "1.prems" by (cases "n = 0") (auto simp: chunks.simps[of off 0])
  then have c: "chunks off n = (off, ?m) # chunks (off + ?m) (n - ?m)" by (simp add: chunks.simps[of off n] Let_def)
  show ?case
  proof (cases ys)
    case Nil
    then show ?thesis using "1.prems" c by auto
  next
    case (Cons y ys')
    then have "y = (off, ?m)" "chunks (off + ?m) (n - ?m) = ys' @ (o', k) # zs" using "1.prems" c by simp_all
    then show ?thesis using "1.IH"[OF n refl, of ys'] Cons by (simp, linarith)
  qed
qed

lemma chunks_sum: "sum_list (map snd (chunks off n)) = n"
proof (induction off n rule: chunks.induct)
  case (1 off n)
  show ?case
  proof (cases "n = 0")
    case False
    then show ?thesis using "1.IH"[OF False refl] by (simp add: chunks.simps[of off n] Let_def)
  qed (simp add: chunks.simps)
qed

text \<open>The number of blocks a file of \<open>e\<close> bytes has.\<close>

definition nblk :: "nat \<Rightarrow> nat" where
  "nblk e = (e + BSIZE - 1) div BSIZE"

lemma nblk_mono: "a \<le> b \<Longrightarrow> nblk a \<le> nblk b"
  unfolding nblk_def by (intro div_le_mono) simp

lemma nblk_end: "0 < k \<Longrightarrow> Suc (o' div BSIZE) \<le> nblk (o' + k)"
proof -
  assume "0 < k"
  then have "(o' + BSIZE) div BSIZE \<le> nblk (o' + k)" unfolding nblk_def by (intro div_le_mono) simp
  then show ?thesis by simp
qed

text \<open>The state of the loop of \<^verbatim>\<open>writei\<close> after \<open>c\<close> bytes in \<open>k\<close> pieces.\<close>

definition writing :: "nat \<Rightarrow> nat \<Rightarrow> nat \<Rightarrow> nat \<Rightarrow> byte list \<Rightarrow> uint list \<Rightarrow> 'x fs_st_scheme \<Rightarrow> nat \<Rightarrow> nat \<Rightarrow> 'x fs_st_scheme \<Rightarrow> bool" where
  "writing m ip N off src blks s c k t \<longleftrightarrow> (\<exists>N' bl D. fwrite m ip N N' off (take c src) s t \<and> quiet t m bl
     \<and> N' \<le> max N (nblk (off + c)) \<and> off + c \<le> N' * BSIZE \<and> finite D \<and> card D \<le> k
     \<and> set bl \<subseteq> set blks \<union> bmbs (fs_sb s) \<union> D \<union> ({ind t ip} - {0}))"

lemma writing_step:
  fixes s t :: "'x fs_st_scheme"
  assumes "writing m ip N off src blks s c k t" and "file_ok s m ip N"
    and "off + n \<le> MAXFILE * BSIZE" and "c + l \<le> n" and "n \<le> length src" and "0 < l" and "(off + c) mod BSIZE + l \<le> BSIZE"
    and "length blks + card (bmbs (fs_sb s)) + k + 6 < m"
    and "max N (nblk (off + n)) - N < nfree (fs_sb s) (view s)"
  shows "runs (bnd (bmap ip (of_nat ((off + c) div BSIZE))) (\<lambda>a. bnd (bread 1 a) (\<lambda>bp.
         thn (modify (\<lambda>s. put_data bp (splice (buf_data s bp) ((off + c) mod BSIZE) (take l (drop c src))) s))
          (thn (log_write bp) (brelse bp))))) t (\<lambda>_. writing m ip N off src blks s (c + l) (Suc k))"
proof -
  obtain N' bl D where w: "fwrite m ip N N' off (take c src) s t" "quiet t m bl" "N' \<le> max N (nblk (off + c))"
      "off + c \<le> N' * BSIZE" "finite D" "card D \<le> k" "set bl \<subseteq> set blks \<union> bmbs (fs_sb s) \<union> D \<union> ({ind t ip} - {0})"
    using assms(1) unfolding writing_def by blast
  note wD = fwriteD[OF w(1)]
  let ?A = "set blks \<union> bmbs (fs_sb s) \<union> D" and ?o = "off + c" and ?ys = "take l (drop c src)"
  have fin: "finite (bmbs (fs_sb s))" by (simp add: bmbs_def)
  have "card ?A \<le> card (set blks) + card (bmbs (fs_sb s)) + card D"
    by (meson add_le_mono1 card_Un_le le_trans)
  then have cA: "card ?A + 6 < m" using assms(8) w(6) card_length[of blks] by linarith
  have len: "length ?ys = l" "length (take c src) = c" using assms(4,5) by simp_all
  have ob: "?o < MAXFILE * BSIZE" using assms(3,4,6) by linarith
  have e: "nblk (?o + l) \<le> nblk (off + n)" using assms(4) by (intro nblk_mono) simp
  have en: "Suc (?o div BSIZE) \<le> nblk (?o + l)" by (rule nblk_end[OF assms(6)])
  have nf: "(if ind t ip = 0 then 1 else 0) < nfree (fs_sb t) (view t)" if "?o div BSIZE = N'"
    using nfree_fwrite[OF assms(2) w(1)] assms(9) wD(1,9,13) that e en by (auto split: if_splits)
  have "runs (bnd (bmap ip (of_nat (?o div BSIZE))) (\<lambda>a. bnd (bread 1 a) (\<lambda>bp.
         thn (modify (\<lambda>s. put_data bp (splice (buf_data s bp) (?o mod BSIZE) ?ys) s)) (thn (log_write bp) (brelse bp))))) t
     (\<lambda>_ u. fwrite m ip N' (max N' (Suc (?o div BSIZE))) ?o ?ys t u
       \<and> (\<exists>bl' a. quiet u m bl' \<and> set bl' \<subseteq> insert a ?A \<union> ({ind u ip} - {0})))"
    by (rule writei_piece[OF w(2) wD(3,4) w(7) _ _ cA w(4) ob _ _ nf])
      (use w(5) fin wD(13) len assms(6,7) in auto)
  then show ?thesis
  proof (rule runs_mono, elim conjE exE)
    fix u :: "'x fs_st_scheme" and bl' a
    assume u: "fwrite m ip N' (max N' (Suc (?o div BSIZE))) ?o ?ys t u" "quiet u m bl'" "set bl' \<subseteq> insert a ?A \<union> ({ind u ip} - {0})"
    let ?N = "max N' (Suc (?o div BSIZE))"
    have "fwrite m ip N ?N off (take c src @ ?ys) s u" using fwrite_trans[OF w(1), of ?N ?ys u] u(1) len(2) by simp
    then have 1: "fwrite m ip N ?N off (take (c + l) src) s u" by (simp add: take_add)
    have "nblk ?o \<le> nblk (?o + l)" by (rule nblk_mono) simp
    then have 2: "?N \<le> max N (nblk (off + (c + l)))" using w(3) en unfolding add.assoc by linarith
    have "?o + l \<le> Suc (?o div BSIZE) * BSIZE" by (rule piece_end[OF assms(7)])
    also have "\<dots> \<le> ?N * BSIZE" by (rule mult_le_mono1) simp
    finally have 3: "off + (c + l) \<le> ?N * BSIZE" by simp
    have 4: "finite (insert a D)" "card (insert a D) \<le> Suc k" using w(5,6) by (simp_all add: card_insert_if)
    have "set bl' \<subseteq> set blks \<union> bmbs (fs_sb s) \<union> insert a D \<union> ({ind u ip} - {0})" using u(3) by auto
    then show "writing m ip N off src blks s (c + l) (Suc k) u"
      unfolding writing_def using 1 2 3 4 u(2) by blast
  qed
qed

section \<open>Disk inodes\<close>

lemma put_dinode_length [simp]: "length (put_dinode d k i) = length d"
  unfolding put_dinode_def by simp

lemma get_put_dinode:
  assumes "k + 64 \<le> length d" and "length (i_addrs i) = NDIRECT + 1"
  shows "get_dinode (put_dinode d k i) k j = j\<lparr>i_type := i_type i, i_major := i_major i, i_minor := i_minor i,
    i_nlink := i_nlink i, i_size := i_size i, i_addrs := i_addrs i\<rparr>"
proof -
  have "get_words (put_dinode d k i) (k + 12) (NDIRECT + 1) = map (\<lambda>n. i_addrs i ! n) [0..<NDIRECT + 1]"
    unfolding get_words_def put_dinode_def by (rule map_cong[OF refl]) (rule store_words_get, use assms(1) in simp_all)
  also have "\<dots> = i_addrs i" using assms(2) by (metis map_nth)
  finally show ?thesis unfolding get_dinode_def using assms(1)
    by (simp add: put_dinode_def store_words_before get_put_other del: upt_Suc)
qed

lemma put_dinode_other: "n < k \<or> k + 64 \<le> n \<Longrightarrow> put_dinode d k i ! n = d ! n"
  unfolding put_dinode_def by (subst store_words_other) (auto simp: nth_put32 nth_put16)

text \<open>The block and the offset of the disk inode of a cache entry.\<close>

definition iblock :: "'x fs_st_scheme \<Rightarrow> nat \<Rightarrow> uint" where
  "iblock s ip = IBLOCK (i_inum (inodes s ip)) (fs_sb s)"

definition islot :: "'x fs_st_scheme \<Rightarrow> nat \<Rightarrow> nat" where
  "islot s ip = 64 * (unat (i_inum (inodes s ip)) mod IPB)"

lemma islot_bound: "islot s ip + 64 \<le> BSIZE"
proof -
  have "unat (i_inum (inodes s ip)) mod 8 < 8" by simp
  then show ?thesis unfolding islot_def by simp
qed

lemma iupdate_run:
  fixes s :: "'x fs_st_scheme"
  assumes "quiet s m bl" and "i_dev (inodes s ip) = 1" and "Suc (length bl) < m"
    and "iblock s ip < disksize s" and "iblock s ip \<notin> region (lg_start s) m"
  shows "runs (iupdate ip) s (\<lambda>_ t. tx_to s m (ins (iblock s ip) bl)
    ((view s)(iblock s ip := put_dinode (view s (iblock s ip)) (islot s ip) (inodes s ip))) t)"
proof -
  have tx: "tx s m bl" using assms(1) by (simp add: quiet_def)
  show ?thesis
    using update_block[OF tx quiet_free[OF assms(1,4)] assms(3,5), of "\<lambda>d. put_dinode d (islot s ip) (inodes s ip)"] assms(2)
    by (simp add: iupdate_def iblock_def islot_def)
qed

text \<open>Where the disk inode lives: a block in use that is neither the free map nor part of the file.\<close>

definition inode_home :: "'x fs_st_scheme \<Rightarrow> nat \<Rightarrow> nat \<Rightarrow> nat \<Rightarrow> bool" where
  "inode_home s m ip N \<longleftrightarrow> iblock s ip < disksize s \<and> iblock s ip \<notin> region (lg_start s) m
     \<and> iblock s ip \<notin> bmbs (fs_sb s) \<and> iblock s ip \<notin> fblocks s ip N
     \<and> (unat (iblock s ip) < unat (sb_size (fs_sb s)) \<longrightarrow> used (fs_sb s) (view s) (unat (iblock s ip)))"

lemma writei_pieces:
  fixes s :: "'x fs_st_scheme"
  assumes "quiet s m blks" and "file_ok s m ip N" and "fs_layout (fs_sb s) m (view s) s"
    and "off \<le> N * BSIZE" and "off + n \<le> MAXFILE * BSIZE" and "n \<le> length src"
    and "length blks + card (bmbs (fs_sb s)) + length (chunks off n) + 6 < m"
    and "max N (nblk (off + n)) - N < nfree (fs_sb s) (view s)"
  shows "runs (forM (chunks off n) (\<lambda>(o', k).
         bnd (bmap ip (of_nat (o' div BSIZE))) (\<lambda>a. bnd (bread 1 a) (\<lambda>bp.
         thn (modify (\<lambda>s. put_data bp (splice (buf_data s bp) (o' mod BSIZE) (take k (drop (o' - off) src))) s))
          (thn (log_write bp) (brelse bp)))))) s
     (\<lambda>_. writing m ip N off src blks s n (length (chunks off n)))"
proof -
  let ?I = "\<lambda>ys. writing m ip N off src blks s (sum_list (map snd ys)) (length ys)"
  have "runs (forM (chunks off n) (\<lambda>(o', k).
         bnd (bmap ip (of_nat (o' div BSIZE))) (\<lambda>a. bnd (bread 1 a) (\<lambda>bp.
         thn (modify (\<lambda>s. put_data bp (splice (buf_data s bp) (o' mod BSIZE) (take k (drop (o' - off) src))) s))
          (thn (log_write bp) (brelse bp)))))) s (\<lambda>_. ?I (chunks off n))"
  proof (rule runs_forM[where I = ?I], goal_cases)
    case 1
    have "tx s m blks" using assms(1) by (simp add: quiet_def)
    then have f: "fwrite m ip N N off [] s s" by (rule fwrite_same_view[OF assms(2,3) tx_to_refl])
    show ?case unfolding writing_def
      using f assms(1,4) by (intro exI[of _ N] exI[of _ blks] exI[of _ "{}"]) auto
  next
    case (2 ys x zs t)
    obtain o' k where x: "x = (o', k)" by (cases x)
    let ?c = "sum_list (map snd ys)"
    have o': "o' = off + ?c" "?c + k \<le> n" using chunks_prefix[of off n ys o' k zs] 2(1) x by simp_all
    have "(o', k) \<in> set (chunks off n)" using 2(1) x by simp
    then have p: "0 < k" "o' mod BSIZE + k \<le> BSIZE" using chunks_piece by blast+
    have "length ys < length (chunks off n)" unfolding 2(1) by simp
    then have l: "length blks + card (bmbs (fs_sb s)) + length ys + 6 < m" using assms(7) by linarith
    have s: "o' - off = ?c" using o'(1) by simp
    show ?case unfolding x prod.case s unfolding o'(1)
      using writing_step[OF 2(2) assms(2,5) o'(2) assms(6) p(1) p(2)[unfolded o'(1)] l assms(8)] by simp
  qed
  then show ?thesis by (simp add: chunks_sum)
qed

text \<open>A file depends only on its addresses, its blocks and the free map.\<close>

lemma file_frame:
  fixes s t :: "'x fs_st_scheme"
  assumes "file_ok s m ip N" and "i_addrs (inodes t ip) = i_addrs (inodes s ip)" and "i_dev (inodes t ip) = i_dev (inodes s ip)"
    and "fs_sb t = fs_sb s" and "disksize t = disksize s" and "lg_start t = lg_start s"
    and "\<And>b. b \<in> fblocks s ip N \<Longrightarrow> view t b = view s b"
    and "\<And>b. b < unat (sb_size (fs_sb s)) \<Longrightarrow> used (fs_sb s) (view s) b \<Longrightarrow> used (fs_sb s) (view t) b"
  shows "file_ok t m ip N" and "fblocks t ip N = fblocks s ip N"
    and "j < N * BSIZE \<Longrightarrow> file_byte t ip j = file_byte s ip j"
proof -
  note ok = file_okD[OF assms(1)] and mD = mappedD[OF file_okD(1)[OF assms(1)]]
  have i: "ind t ip = ind s ip" by (simp add: ind_def assms(2))
  have vi: "view t (ind s ip) = view s (ind s ip)" if "ind s ip \<noteq> 0" using assms(7)[OF ind_in[OF that]] .
  have b: "blk t ip bn = blk s ip bn" if "bn < N" for bn
    using vi mD(2) that unfolding blk_def assms(2) ind_def[symmetric] by auto
  have bi: "blk t ip ` {0..<N} = blk s ip ` {0..<N}" by (rule image_cong) (auto simp: b)
  then show fb: "fblocks t ip N = fblocks s ip N" by (simp add: fblocks_def i)
  have "inj_on (blk t ip) {0..<N} = inj_on (blk s ip) {0..<N}" by (rule inj_on_cong) (simp add: b)
  then have "mapped t m ip N" using ok(1) bi i fb assms(3,5,6) by (simp add: mapped_def)
  then show "file_ok t m ip N" unfolding file_ok_def using ok(2-5) vi assms(2,4,8) unfolding fb i by auto
  show "j < N * BSIZE \<Longrightarrow> file_byte t ip j = file_byte s ip j"
    using b assms(7)[OF blk_in] less_mult_imp_div_less[of j N BSIZE] by (simp add: file_byte_def)
qed

text \<open>
  What \<^verbatim>\<open>writei\<close> achieves: the file has \<open>N'\<close> blocks and the bytes \<open>xs\<close> at
  \<open>off\<close>, its size has been raised to the end of the write, in memory and on disk, and blocks in use
  elsewhere are unchanged.
\<close>

definition written :: "nat \<Rightarrow> nat \<Rightarrow> nat \<Rightarrow> nat \<Rightarrow> nat \<Rightarrow> byte list \<Rightarrow> 'x fs_st_scheme \<Rightarrow> 'x fs_st_scheme \<Rightarrow> bool" where
  "written m ip N N' off xs s t \<longleftrightarrow> N \<le> N' \<and> off + length xs \<le> N' * BSIZE \<and> file_ok t m ip N'
     \<and> fs_layout (fs_sb t) m (view t) t \<and> inode_home t m ip N' \<and> fs_sb t = fs_sb s \<and> disk t = disk s \<and> held t = held s
     \<and> disksize t = disksize s \<and> lg_start t = lg_start s
     \<and> inodes t = (inodes s)(ip := (inodes s ip)\<lparr>i_addrs := i_addrs (inodes t ip),
         i_size := of_nat (max (unat (i_size (inodes s ip))) (off + length xs))\<rparr>)
     \<and> (\<forall>j < N' * BSIZE. file_byte t ip j = (if off \<le> j \<and> j < off + length xs then xs ! (j - off)
          else if j < N * BSIZE then file_byte s ip j else 0))
     \<and> (\<forall>n. n \<notin> bmbs (fs_sb s) \<and> n \<notin> fblocks s ip N \<and> n \<noteq> iblock s ip
          \<and> (unat n < unat (sb_size (fs_sb s)) \<longrightarrow> used (fs_sb s) (view s) (unat n)) \<longrightarrow> view t n = view s n)
     \<and> (unat (i_size (inodes s ip)) < off + length xs \<longrightarrow>
          get_dinode (view t (iblock s ip)) (islot s ip) (inodes t ip) = inodes t ip)"

lemma fwrite_home:
  assumes "fwrite m ip N N' off xs s t" and "inode_home s m ip N"
  shows "iblock t ip = iblock s ip" and "islot t ip = islot s ip" and "inode_home t m ip N'" and "view t (iblock s ip) = view s (iblock s ip)"
proof -
  note f = fwriteD[OF assms(1)]
  note o = only_log_inodes[OF f(6)]
  have num: "i_inum (inodes t ip) = i_inum (inodes s ip)" by (subst f(5)) simp
  show e: "iblock t ip = iblock s ip" "islot t ip = islot s ip" by (simp_all add: iblock_def islot_def num o(1))
  have h: "iblock s ip < disksize s" "iblock s ip \<notin> region (lg_start s) m" "iblock s ip \<notin> bmbs (fs_sb s)"
    "iblock s ip \<notin> fblocks s ip N"
    "unat (iblock s ip) < unat (sb_size (fs_sb s)) \<Longrightarrow> used (fs_sb s) (view s) (unat (iblock s ip))"
    using assms(2) by (simp_all add: inode_home_def)
  have nf: "iblock s ip \<notin> fblocks t ip N'"
  proof
    assume i: "iblock s ip \<in> fblocks t ip N'"
    then have "unat (iblock s ip) < unat (sb_size (fs_sb s))" using file_okD(5)[OF f(3) i] o(1) by simp
    then show False using f(15)[OF i] h(4,5) by blast
  qed
  then show "view t (iblock s ip) = view s (iblock s ip)" by (rule f(11)[OF h(3)])
  show "inode_home t m ip N'" unfolding inode_home_def e o using h nf f(10) by auto
qed

lemma fwrite_frame:
  assumes "fwrite m ip N N' off xs s t" and "n \<notin> bmbs (fs_sb s)" and "n \<notin> fblocks s ip N"
    and "unat n < unat (sb_size (fs_sb s)) \<longrightarrow> used (fs_sb s) (view s) (unat n)"
  shows "view t n = view s n"
proof -
  note f = fwriteD[OF assms(1)]
  have "n \<notin> fblocks t ip N'"
    using f(15)[of n] assms(3,4) file_okD(5)[OF f(3), of n] f(13) by auto
  then show ?thesis by (rule f(11)[OF assms(2)])
qed

lemma written_same_size:
  assumes "fwrite m ip N N' off xs s t" and "inode_home s m ip N" and "off + length xs \<le> N' * BSIZE"
    and "off + length xs \<le> unat (i_size (inodes s ip))"
  shows "written m ip N N' off xs s t"
proof -
  note f = fwriteD[OF assms(1)] and h = fwrite_home[OF assms(1,2)]
  have i: "inodes t = (inodes s)(ip := (inodes s ip)\<lparr>i_addrs := i_addrs (inodes t ip),
      i_size := of_nat (max (unat (i_size (inodes s ip))) (off + length xs))\<rparr>)"
    using f(5) assms(4) by (simp add: max_def)
  show ?thesis unfolding written_def
    using f(1,3,4,7,12,13) assms(3,4) h(3) only_log_inodes(2,3,4)[OF f(6)] fwrite_frame[OF assms(1)] i by auto
qed

lemma written_grown:
  fixes s t :: "'x fs_st_scheme"
  assumes "fwrite m ip N N' off xs s t" and "inode_home s m ip N" and "off + length xs \<le> N' * BSIZE"
    and "unat (i_size (inodes s ip)) < off + length xs" and "quiet t m bl" and "Suc (length bl) < m"
    and "e = of_nat (off + length xs)"
  shows "runs (thn (upi ip (i_size_update (\<lambda>_. e))) (iupdate ip)) t
    (\<lambda>_ u. written m ip N N' off xs s u \<and> quiet u m (ins (iblock s ip) bl))"
proof -
  note f = fwriteD[OF assms(1)] and h = fwrite_home[OF assms(1,2)]
  let ?t = "t\<lparr>inodes := (inodes t)(ip := (inodes t ip)\<lparr>i_size := e\<rparr>)\<rparr>" and ?b = "iblock s ip"
  have e: "iblock ?t ip = ?b" "islot ?t ip = islot s ip" using h(1,2) by (simp_all add: iblock_def islot_def)
  have hb: "?b < disksize t" "?b \<notin> region (lg_start t) m" "?b \<notin> bmbs (fs_sb t)" "?b \<notin> fblocks t ip N'"
    using h(3) by (simp_all add: inode_home_def h(1))
  have dev: "i_dev (inodes ?t ip) = 1" using mappedD(6)[OF file_okD(1)[OF f(3)]] by simp
  have "runs (iupdate ip) ?t (\<lambda>_ u. tx_to ?t m (ins (iblock ?t ip) bl)
      ((view ?t)(iblock ?t ip := put_dinode (view ?t (iblock ?t ip)) (islot ?t ip) (inodes ?t ip))) u)"
    by (rule iupdate_run) (use assms(5,6) dev hb in \<open>simp_all add: e\<close>)
  note run = this[unfolded e]
  have "written m ip N N' off xs s u \<and> quiet u m (ins ?b bl)"
    if u: "tx_to ?t m (ins ?b bl) ((view ?t)(?b := put_dinode (view ?t ?b) (islot s ip) (inodes ?t ip))) u" for u
  proof -
    note uD = tx_toD[OF u] and uf = only_log_fs[OF tx_toD(4)[OF u]]
    have q: "quiet u m (ins ?b bl)" using assms(5) quiet_tx_to[OF _ u] by simp
    have iu: "inodes u = (inodes t)(ip := (inodes t ip)\<lparr>i_size := e\<rparr>)" "fs_sb u = fs_sb t" using uf by simp_all
    have vu: "view u n = view t n" if "n \<noteq> ?b" for n using uD(3) that by simp
    have us: "used (fs_sb t) (view u) b = used (fs_sb t) (view t) b" if "b < unat (sb_size (fs_sb t))" for b
      by (rule used_cong[OF _ that], rule vu) (use hb(3) in auto)
    have vf: "view u b = view t b" if "b \<in> fblocks t ip N'" for b by (rule vu) (use that hb(4) in auto)
    have "file_ok u m ip N'" "fblocks u ip N' = fblocks t ip N'" "\<And>j. j < N' * BSIZE \<Longrightarrow> file_byte u ip j = file_byte t ip j"
      by (rule file_frame[OF f(3)], use iu uD(6,7) vf us in simp_all)+
    note fu = this
    have lay: "fs_layout (fs_sb u) m (view u) u"
      unfolding iu(2) by (rule fs_layout_mono[OF f(4)]) (use us uD(6,7) in simp_all)
    have ib: "iblock u ip = ?b" using h(1) by (simp add: iblock_def iu)
    have home: "inode_home u m ip N'"
      using h(3) us fu(2) uD(6,7) iu(2) by (auto simp: inode_home_def ib h(1))
    have s0: "inodes u = (inodes s)(ip := (inodes s ip)\<lparr>i_addrs := i_addrs (inodes u ip),
        i_size := of_nat (max (unat (i_size (inodes s ip))) (off + length xs))\<rparr>)"
    proof -
      obtain a where "inodes t = (inodes s)(ip := (inodes s ip)\<lparr>i_addrs := a\<rparr>)" using f(5) by blast
      then show ?thesis unfolding iu(1) using assms(4,7) by (simp add: max_def)
    qed
    have fr: "view u n = view s n" if "n \<notin> bmbs (fs_sb s)" "n \<notin> fblocks s ip N" "n \<noteq> ?b"
        "unat n < unat (sb_size (fs_sb s)) \<longrightarrow> used (fs_sb s) (view s) (unat n)" for n
      using vu[OF that(3)] fwrite_frame[OF assms(1) that(1,2,4)] by simp
    have vb: "length (view t ?b) = BSIZE" using tx_sel(6)[of t m bl] assms(5) unfolding quiet_def by blast
    have "get_dinode (view u ?b) (islot s ip) (inodes u ip) = inodes u ip"
    proof -
      let ?i = "inodes ?t ip"
      have "view u ?b = put_dinode (view t ?b) (islot s ip) ?i" using uD(3) by simp
      moreover have "inodes u ip = ?i" using iu(1) by simp
      moreover have "get_dinode (put_dinode (view t ?b) (islot s ip) ?i) (islot s ip) ?i = ?i"
        by (subst get_put_dinode) (use islot_bound[of s ip] vb file_okD(2)[OF f(3)] in simp_all)
      ultimately show ?thesis by simp
    qed
    then show ?thesis unfolding written_def
      using f(1,7,12,13) assms(3) fu lay home s0 fr uD(5-8) only_log_inodes(2,3,4)[OF f(6)] iu(2) q
      by (intro conjI allI impI) auto
  qed
  then show ?thesis using run by (simp add: upi_def) (erule runs_mono, blast)
qed

text \<open>What the caller of \<^verbatim>\<open>writei\<close> has to provide: room in the log, in the free map and in the file.\<close>

definition can_write :: "'x fs_st_scheme \<Rightarrow> nat \<Rightarrow> uint list \<Rightarrow> nat \<Rightarrow> nat \<Rightarrow> nat \<Rightarrow> nat \<Rightarrow> bool" where
  "can_write s m blks ip N off n \<longleftrightarrow> quiet s m blks \<and> file_ok s m ip N \<and> fs_layout (fs_sb s) m (view s) s
     \<and> inode_home s m ip N \<and> i_type (inodes s ip) \<noteq> T_DEV \<and> unat (i_size (inodes s ip)) \<le> N * BSIZE
     \<and> off \<le> unat (i_size (inodes s ip)) \<and> off + n \<le> MAXFILE * BSIZE
     \<and> length blks + card (bmbs (fs_sb s)) + length (chunks off n) + 6 < m
     \<and> max N (nblk (off + n)) - N < nfree (fs_sb s) (view s)"

lemma writei_run:
  fixes s :: "'x fs_st_scheme"
  assumes "can_write s m blks ip N (unat off) (unat n)" and "unat n \<le> length src"
  shows "runs (writei devsw ip src off n) s (\<lambda>r t. r = int (unat n)
    \<and> (\<exists>N' bl. written m ip N N' (unat off) (take (unat n) src) s t \<and> quiet t m bl))"
proof -
  let ?sz = "i_size (inodes s ip)" and ?E = "unat off + unat n"
  have c: "quiet s m blks" "file_ok s m ip N" "fs_layout (fs_sb s) m (view s) s" "inode_home s m ip N"
      "i_type (inodes s ip) \<noteq> T_DEV" "unat ?sz \<le> N * BSIZE" "unat off \<le> unat ?sz" "?E \<le> MAXFILE * BSIZE"
      "length blks + card (bmbs (fs_sb s)) + length (chunks (unat off) (unat n)) + 6 < m"
      "max N (nblk ?E) - N < nfree (fs_sb s) (view s)"
    using assms(1) unfolding can_write_def by blast+
  have dev: "i_dev (inodes s ip) = 1" by (rule mappedD(6)[OF file_okD(1)[OF c(2)]])
  have on: "unat (off + n) = ?E" using c(8) by (simp add: unat_word_ariths)
  have g1: "\<not> (?sz < off \<or> off + n < off)" unfolding word_less_nat_alt on using c(7) by simp
  have g2: "\<not> of_nat (MAXFILE * BSIZE) < off + n" unfolding word_less_nat_alt on using c(8) by simp
  have sn: "sint n = int (unat n)" using c(8) by (intro sint_unat) simp
  have en: "off + n = of_nat ?E" by simp
  have oN: "unat off \<le> N * BSIZE" using c(6,7) by linarith
  let ?loop = "forM (chunks (unat off) (unat n)) (\<lambda>(o', k).
         bnd (bmap ip (of_nat (o' div BSIZE))) (\<lambda>a. bnd (bread 1 a) (\<lambda>bp.
         thn (modify (\<lambda>s. put_data bp (splice (buf_data s bp) (o' mod BSIZE) (take k (drop (o' - unat off) src))) s))
          (thn (log_write bp) (brelse bp)))))"
  let ?fin = "bnd (gets (\<lambda>s. i_size (inodes s ip))) (\<lambda>size.
         whenk (0 < n \<and> size < off + n) (thn (upi ip (i_size_update (\<lambda>_. off + n))) (iupdate ip)))"
  let ?Q = "\<lambda>t. \<exists>N' bl. written m ip N N' (unat off) (take (unat n) src) s t \<and> quiet t m bl"
  have "runs ?loop s (\<lambda>_ t. runs ?fin t (\<lambda>_. ?Q))"
  proof (rule runs_mono[OF writei_pieces[OF c(1-3) oN c(8) assms(2) c(9,10)]])
    fix t :: "'x fs_st_scheme" assume "writing m ip N (unat off) src blks s (unat n) (length (chunks (unat off) (unat n))) t"
    then obtain N' bl D where w: "fwrite m ip N N' (unat off) (take (unat n) src) s t" "quiet t m bl" "?E \<le> N' * BSIZE"
        "finite D" "card D \<le> length (chunks (unat off) (unat n))"
        "set bl \<subseteq> set blks \<union> bmbs (fs_sb s) \<union> D \<union> ({ind t ip} - {0})"
      unfolding writing_def by blast
    have len: "length (take (unat n) src) = unat n" using assms(2) by simp
    have fin: "finite (set blks \<union> bmbs (fs_sb s) \<union> D)" using w(4) by (simp add: bmbs_def)
    have "tx t m bl" using w(2) by (simp add: quiet_def)
    from logged_length[OF this w(6) fin]
    have "length bl \<le> Suc (card (set blks) + card (bmbs (fs_sb s)) + card D)"
      using card_Un_le[of "set blks \<union> bmbs (fs_sb s)" D] card_Un_le[of "set blks" "bmbs (fs_sb s)"] by linarith
    then have lb: "Suc (length bl) < m" using c(9) w(5) card_length[of blks] by linarith
    have sz: "i_size (inodes t ip) = ?sz" by (subst fwriteD(5)[OF w(1)]) simp
    have cond: "0 < n \<and> ?sz < off + n \<longleftrightarrow> unat ?sz < ?E"
      unfolding word_less_nat_alt on using c(7) by (auto simp: unat_gt_0)
    show "runs ?fin t (\<lambda>_. ?Q)"
    proof (cases "unat ?sz < ?E")
      case True
      have "runs (thn (upi ip (i_size_update (\<lambda>_. off + n))) (iupdate ip)) t
          (\<lambda>_ u. written m ip N N' (unat off) (take (unat n) src) s u \<and> quiet u m (ins (iblock s ip) bl))"
        by (rule written_grown[OF w(1) c(4) _ _ w(2) lb]) (use True w(3) len en in simp_all)
      then have "runs (thn (upi ip (i_size_update (\<lambda>_. off + n))) (iupdate ip)) t (\<lambda>_. ?Q)"
        by (rule runs_mono) blast
      then show ?thesis unfolding runs_bnd runs_gets runs_whenk sz using cond True by (simp only: if_True)
    next
      case False
      then have "written m ip N N' (unat off) (take (unat n) src) s t"
        using w(3) len by (intro written_same_size[OF w(1) c(4)]) simp_all
      then show ?thesis unfolding runs_bnd runs_gets runs_whenk sz using cond False w(2) by (simp only: if_False) blast
    qed
  qed
  then show ?thesis using g1 g2 c(5) unfolding writei_def
    by (simp only: runs_bnd runs_gets runs_thn runs_ret dev sn if_False simp_thms)
qed

section \<open>Files as byte sequences\<close>

definition file_data :: "'x fs_st_scheme \<Rightarrow> nat \<Rightarrow> byte list" where
  "file_data s ip = map (file_byte s ip) [0..<unat (i_size (inodes s ip))]"

text \<open>The abstract write: the bytes \<open>xs\<close> replace those at \<open>off\<close> and extend the sequence.\<close>

definition overwrite :: "byte list \<Rightarrow> nat \<Rightarrow> byte list \<Rightarrow> byte list" where
  "overwrite bs off xs = take off bs @ xs @ drop (off + length xs) bs"

lemma overwrite_length: "off \<le> length bs \<Longrightarrow> length (overwrite bs off xs) = max (length bs) (off + length xs)"
  by (auto simp: overwrite_def)

lemma overwrite_nth:
  "off \<le> length bs \<Longrightarrow> j < max (length bs) (off + length xs) \<Longrightarrow>
     overwrite bs off xs ! j = (if off \<le> j \<and> j < off + length xs then xs ! (j - off) else bs ! j)"
  by (auto simp: overwrite_def nth_append less_max_iff_disj)

lemma written_inodes:
  assumes "written m ip N N' off xs s t"
  shows "\<exists>a. inodes t = (inodes s)(ip := (inodes s ip)\<lparr>i_addrs := a,
    i_size := of_nat (max (unat (i_size (inodes s ip))) (off + length xs))\<rparr>)"
  using assms unfolding written_def by blast

lemma written_size:
  assumes "written m ip N N' off xs s t" and "off + length xs \<le> MAXFILE * BSIZE"
  shows "unat (i_size (inodes t ip)) = max (unat (i_size (inodes s ip))) (off + length xs)"
proof -
  have "i_size (inodes t ip) = of_nat (max (unat (i_size (inodes s ip))) (off + length xs))"
    using written_inodes[OF assms(1)] by auto
  moreover have "max (unat (i_size (inodes s ip))) (off + length xs) < 2 ^ 32"
    using unat_lt32[of "i_size (inodes s ip)"] assms(2) by auto
  ultimately show ?thesis using unat_of_nat32 by metis
qed

lemma written_data:
  assumes "written m ip N N' off xs s t" and "off + length xs \<le> MAXFILE * BSIZE" and "unat (i_size (inodes s ip)) \<le> N * BSIZE"
    and "off \<le> unat (i_size (inodes s ip))"
  shows "file_data t ip = overwrite (file_data s ip) off xs"
proof (rule nth_equalityI)
  note sz = written_size[OF assms(1,2)]
  show "length (file_data t ip) = length (overwrite (file_data s ip) off xs)"
    using sz assms(4) by (subst overwrite_length) (simp_all add: file_data_def)
  fix j assume "j < length (file_data t ip)"
  then have j: "j < max (unat (i_size (inodes s ip))) (off + length xs)" by (simp add: file_data_def sz)
  have "N * BSIZE \<le> N' * BSIZE" "off + length xs \<le> N' * BSIZE" using assms(1) by (simp_all add: written_def)
  then have jN: "j < N' * BSIZE" using j assms(3) by linarith
  have "file_byte t ip j = (if off \<le> j \<and> j < off + length xs then xs ! (j - off)
      else if j < N * BSIZE then file_byte s ip j else 0)"
    using assms(1) jN unfolding written_def by blast
  then show "file_data t ip ! j = overwrite (file_data s ip) off xs ! j"
    using j assms(3,4) by (subst overwrite_nth) (auto simp: file_data_def sz less_max_iff_disj)
qed

text \<open>Another file, with blocks of its own, is not affected.\<close>

lemma written_other:
  fixes s t :: "'x fs_st_scheme"
  assumes "written m ip N N' off xs s t" and "ip' \<noteq> ip" and "file_ok s m ip' K" and "fblocks s ip' K \<inter> fblocks s ip N = {}"
    and "iblock s ip \<notin> fblocks s ip' K" and "unat (i_size (inodes s ip')) \<le> K * BSIZE"
  shows "file_data t ip' = file_data s ip'"
proof -
  have v: "view t b = view s b" if "b \<in> fblocks s ip' K" for b
    using assms(1,4,5) that file_okD(5)[OF assms(3) that] unfolding written_def by blast
  have i: "inodes t ip' = inodes s ip'" using written_inodes[OF assms(1)] assms(2) by auto
  note ok = file_okD[OF assms(3)] and mD = mappedD[OF file_okD(1)[OF assms(3)]]
  have b: "blk t ip' bn = blk s ip' bn" if "bn < K" for bn
    using file_cong(1)[of t ip' s K bn] i that v[OF ind_in] mD(2) by blast
  have "file_byte t ip' j = file_byte s ip' j" if "j < unat (i_size (inodes s ip'))" for j
  proof -
    have "j div BSIZE < K" using that assms(6) by (intro less_mult_imp_div_less) linarith
    then show ?thesis using b v[OF blk_in] by (simp add: file_byte_def)
  qed
  then show ?thesis by (simp add: file_data_def i)
qed

section \<open>Properties\<close>

text \<open>
  C3 (writing a file): with room in the log, in the free map and in the file, \<^verbatim>\<open>writei\<close>
  returns the number of bytes asked for and the contents of the file become the old contents with
  the given bytes written over them at the offset, extended at the end as far as needed, whether
  the blocks exist or are allocated on the way, directly or through the indirect block.  No file
  with other blocks changes, and a file that has grown has its new size and addresses on disk.
\<close>

theorem writei_overwrites:
  fixes s :: "'x fs_st_scheme"
  assumes "can_write s m blks ip N (unat off) (unat n)" and "unat n \<le> length src"
  shows "runs (writei devsw ip src off n) s (\<lambda>r t. r = int (unat n)
    \<and> file_data t ip = overwrite (file_data s ip) (unat off) (take (unat n) src)
    \<and> (\<forall>ip' K. ip' \<noteq> ip \<and> file_ok s m ip' K \<and> fblocks s ip' K \<inter> fblocks s ip N = {}
        \<and> iblock s ip \<notin> fblocks s ip' K \<and> unat (i_size (inodes s ip')) \<le> K * BSIZE
        \<longrightarrow> file_data t ip' = file_data s ip')
    \<and> (i_size (inodes s ip) < off + n
        \<longrightarrow> get_dinode (view t (iblock s ip)) (islot s ip) (inodes t ip) = inodes t ip))"
proof (rule runs_mono[OF writei_run[OF assms]], elim conjE exE)
  fix r and t :: "'x fs_st_scheme" and N' bl
  assume r: "r = int (unat n)" and w: "written m ip N N' (unat off) (take (unat n) src) s t"
  have c: "unat (i_size (inodes s ip)) \<le> N * BSIZE" "unat off \<le> unat (i_size (inodes s ip))"
      "unat off + unat n \<le> MAXFILE * BSIZE"
    using assms(1) unfolding can_write_def by blast+
  have len: "length (take (unat n) src) = unat n" using assms(2) by simp
  have on: "unat (off + n) = unat off + unat n" using c(3) by (simp add: unat_word_ariths)
  have "file_data t ip = overwrite (file_data s ip) (unat off) (take (unat n) src)"
    using c len by (intro written_data[OF w]) simp_all
  moreover have "i_size (inodes s ip) < off + n
      \<longrightarrow> get_dinode (view t (iblock s ip)) (islot s ip) (inodes t ip) = inodes t ip"
    using w len unfolding word_less_nat_alt on written_def by simp
  ultimately show "r = int (unat n)
    \<and> file_data t ip = overwrite (file_data s ip) (unat off) (take (unat n) src)
    \<and> (\<forall>ip' K. ip' \<noteq> ip \<and> file_ok s m ip' K \<and> fblocks s ip' K \<inter> fblocks s ip N = {}
        \<and> iblock s ip \<notin> fblocks s ip' K \<and> unat (i_size (inodes s ip')) \<le> K * BSIZE
        \<longrightarrow> file_data t ip' = file_data s ip')
    \<and> (i_size (inodes s ip) < off + n
        \<longrightarrow> get_dinode (view t (iblock s ip)) (islot s ip) (inodes t ip) = inodes t ip)"
    using r written_other[OF w] by blast
qed

text \<open>The bytes \<^verbatim>\<open>readi\<close> returns, as a part of the sequence.\<close>

lemma readi_data:
  fixes s :: "'x fs_st_scheme"
  assumes "quiet s m blks" and "mapped s m ip N" and "i_type (inodes s ip) \<noteq> T_DEV"
    and "unat (i_size (inodes s ip)) \<le> N * BSIZE" and "off \<le> i_size (inodes s ip)" and "unat off + unat n < 2 ^ 32"
  shows "runs (readi devsw ip off n) s (\<lambda>(r, xs) t. xs = take (unat n) (drop (unat off) (file_data s ip))
    \<and> r = int (length xs) \<and> tx_to s m blks (view s) t)"
proof (rule runs_mono[OF readi_run[OF assms]], goal_cases)
  case (1 a t)
  let ?len = "min (unat n) (unat (i_size (inodes s ip)) - unat off)"
  have "unat off \<le> unat (i_size (inodes s ip))" using assms(5) by (simp add: word_le_nat_alt)
  then have "take (unat n) (drop (unat off) (file_data s ip)) = map (file_byte s ip) [unat off..<unat off + ?len]"
    unfolding file_data_def take_map drop_map by (simp add: min_def)
  then show ?case using 1 by (cases a) simp
qed


text \<open>
  C4 (read after write): bytes written with \<^verbatim>\<open>writei\<close> come back from
  \<^verbatim>\<open>readi\<close> at the same offset.
\<close>

theorem write_read:
  fixes s :: "'x fs_st_scheme"
  assumes "can_write s m blks ip N (unat off) (unat n)" and "unat n \<le> length src"
  shows "runs (thn (writei devsw ip src off n) (readi devsw' ip off n)) s
    (\<lambda>(r, xs) _. r = int (unat n) \<and> xs = take (unat n) src)"
  unfolding runs_thn
proof (rule runs_mono[OF writei_run[OF assms]], elim conjE exE)
  fix t :: "'x fs_st_scheme" and N' bl
  assume w: "written m ip N N' (unat off) (take (unat n) src) s t" and q: "quiet t m bl"
  have c: "unat (i_size (inodes s ip)) \<le> N * BSIZE" "unat off \<le> unat (i_size (inodes s ip))"
      "unat off + unat n \<le> MAXFILE * BSIZE" "i_type (inodes s ip) \<noteq> T_DEV"
    using assms(1) unfolding can_write_def by blast+
  have len: "length (take (unat n) src) = unat n" using assms(2) by simp
  note d = written_data[OF w, unfolded len, OF c(3,1,2)] and sz = written_size[OF w, unfolded len, OF c(3)]
  have m: "mapped t m ip N'" "N \<le> N'" "unat off + unat n \<le> N' * BSIZE"
    using w len by (auto simp: written_def file_ok_def)
  have ty: "i_type (inodes t ip) = i_type (inodes s ip)" using written_inodes[OF w] by auto
  have "N * BSIZE \<le> N' * BSIZE" using m(2) by simp
  then have s1: "unat (i_size (inodes t ip)) \<le> N' * BSIZE" using sz c(1) m(3) by linarith
  have s2: "off \<le> i_size (inodes t ip)" unfolding word_le_nat_alt sz using c(2) by simp
  have s3: "unat off + unat n < 2 ^ 32" using c(3) by simp
  have fd: "length (file_data s ip) = unat (i_size (inodes s ip))" by (simp add: file_data_def)
  have "take (unat n) (drop (unat off) (file_data t ip)) = take (unat n) src"
    unfolding d overwrite_def using c(2) fd len by (simp add: min_def)
  note rd = this
  have "i_type (inodes t ip) \<noteq> T_DEV" using c(4) ty by simp
  from readi_data[OF q m(1) this s1 s2 s3, of devsw']
  show "runs (readi devsw' ip off n) t (\<lambda>(r, xs) _. r = int (unat n) \<and> xs = take (unat n) src)"
    by (rule runs_mono) (use rd len in auto)
qed

section \<open>Witnesses\<close>

text \<open>An empty file, inode 5 in cache entry 0, on the file system of the previous witnesses.\<close>

definition ex_inode :: inode where
  "ex_inode = \<lparr>i_dev = 1, i_inum = 5, i_ref = 1, i_busy = True, i_valid = True, i_type = 2, i_major = 0, i_minor = 0,
     i_nlink = 1, i_size = 0, i_addrs = replicate 13 0\<rparr>"

lemma ex_file:
  "\<exists>s :: fs_st. can_write s 30 [] 0 0 0 3 \<and> inodes s 0 = ex_inode \<and> quiet s 30 [] \<and> mapped s 30 0 0"
proof -
  have len: "length ex_bitmap = BSIZE" by (simp add: ex_bitmap_def)
  obtain s :: fs_st where s: "quiet s 30 []" "view s = ex_disk ex_bitmap" "disksize s = 1000" "lg_start s = 2" "fs_sb s = ex_sb"
      "inodes s = (\<lambda>_. ex_inode)"
    using fs_exists[of "ex_disk ex_bitmap" ex_sb "\<lambda>_. ex_inode", OF ex_disk_length[OF len]] by blast
  have l: "fs_layout ex_sb 30 (ex_disk ex_bitmap) s" by (rule ex_layout[OF s(3,4) ex_bits(1)])
  have i: "ind s 0 = 0" by (simp add: ind_def s(6) ex_inode_def)
  have fb: "fblocks s 0 0 = {}" by (simp add: fblocks_def i)
  have m: "mapped s 30 0 0" by (simp add: mapped_def fb s(6) ex_inode_def)
  have "file_ok s 30 0 0" by (simp add: file_ok_def m fb i s(6) ex_inode_def)
  moreover have b: "iblock s 0 = 32" by (simp add: iblock_def IBLOCK_def s(5,6) ex_inode_def ex_sb_def)
  moreover have "(32 :: uint) \<notin> region 2 30" using ex_region[of 32] by auto
  then have "inode_home s 30 0 0"
    unfolding inode_home_def b fb using s ex_bits(1)[of 32] by (simp add: ex_bmbs ex_used)
  moreover have "1 < nfree ex_sb (ex_disk ex_bitmap)"
  proof -
    have "\<not> bit_used ex_bitmap 60" by code_simp
    then have "{59, 60} \<subseteq> {b. b < unat (sb_size ex_sb) \<and> \<not> used ex_sb (ex_disk ex_bitmap) b}"
      using ex_bits(2) by (auto simp: ex_sb_def ex_used[unfolded ex_sb_def])
    then have "card {59, 60 :: nat} \<le> nfree ex_sb (ex_disk ex_bitmap)" unfolding nfree_def by (intro card_mono) simp_all
    then show ?thesis by simp
  qed
  moreover have "length (chunks 0 3) = 1" by (simp add: chunks.simps)
  ultimately have "can_write s 30 [] 0 0 0 3"
    using s l by (simp add: can_write_def ex_bmbs nblk_def) (simp add: ex_inode_def)
  then show ?thesis using s m by auto
qed

theorem writei_overwrites_witness:
  "\<exists>s :: fs_st. runs (writei (\<lambda>_. (None, None)) 0 [1, 2, 3] 0 3) s (\<lambda>r t. r = 3 \<and> file_data t 0 = [1, 2, 3])"
proof -
  obtain s :: fs_st where s: "can_write s 30 [] 0 0 0 3" "inodes s 0 = ex_inode" using ex_file by blast
  have "file_data s 0 = []" by (simp add: file_data_def s(2) ex_inode_def)
  then show ?thesis using writei_overwrites[of s 30 "[]" 0 0 0 3 "[1, 2, 3]" "\<lambda>_. (None, None)"] s(1)
    by (intro exI[of _ s]) (simp, elim runs_mono, simp add: overwrite_def)
qed


theorem write_read_witness:
  "\<exists>s :: fs_st. runs (thn (writei (\<lambda>_. (None, None)) 0 [1, 2, 3] 0 3) (readi (\<lambda>_. (None, None)) 0 0 3)) s
    (\<lambda>(r, xs) _. r = 3 \<and> xs = [1, 2, 3])"
proof -
  obtain s :: fs_st where s: "can_write s 30 [] 0 0 0 3" using ex_file by blast
  show ?thesis
    using write_read[of s 30 "[]" 0 0 0 3 "[1, 2, 3]" "\<lambda>_. (None, None)" "\<lambda>_. (None, None)"] s
    by (intro exI[of _ s]) simp
qed

end
