(* ===== verification/Fsname.thy ===== *)
theory Fsname
  imports Fswrite
begin

text \<open>
  Names in the file system: the components into which \<^verbatim>\<open>skipelem\<close> cuts a path
  name.
\<close>

section \<open>Path names\<close>

text \<open>
  The components of a path name: the maximal runs of bytes other than the slash, each cut to
  \<open>DIRSIZ\<close> bytes, as \<^verbatim>\<open>namex\<close> sees them one after the other.
\<close>

fun split_slash :: "byte list \<Rightarrow> byte list list" where
  "split_slash [] = [[]]"
| "split_slash (c # cs) = (if c = slash then [] # split_slash cs
     else case split_slash cs of [] \<Rightarrow> [[c]] | e # es \<Rightarrow> (c # e) # es)"

definition components :: "byte list \<Rightarrow> byte list list" where
  "components path = map (take DIRSIZ) (filter (\<lambda>e. e \<noteq> []) (split_slash path))"

fun walk_elems :: "nat \<Rightarrow> byte list \<Rightarrow> byte list list" where
  "walk_elems 0 path = []"
| "walk_elems (Suc n) path = (case skipelem path of None \<Rightarrow> [] | Some (e, rest) \<Rightarrow> e # walk_elems n rest)"

lemma split_slash_nonempty: "split_slash p \<noteq> []"
  by (cases p) (auto split: list.splits)

lemma split_slash_run:
  "split_slash p = takeWhile (\<lambda>c. c \<noteq> slash) p
     # (case dropWhile (\<lambda>c. c \<noteq> slash) p of [] \<Rightarrow> [] | _ # rest \<Rightarrow> split_slash rest)"
  by (induction p) (auto split: list.splits)

lemma components_skip: "components (dropWhile (\<lambda>c. c = slash) p) = components p"
  by (induction p) (auto simp: components_def)

lemma components_elem:
  assumes "p \<noteq> []" and "hd p \<noteq> slash"
  shows "components p = take DIRSIZ (takeWhile (\<lambda>c. c \<noteq> slash) p) # components (dropWhile (\<lambda>c. c \<noteq> slash) p)"
proof -
  obtain c cs where p: "p = c # cs" using assms(1) by (cases p) auto
  have e: "takeWhile (\<lambda>c. c \<noteq> slash) p \<noteq> []" using assms(2) p by simp
  obtain q where q: "q = dropWhile (\<lambda>c. c \<noteq> slash) p" by blast
  have "components q = map (take DIRSIZ) (filter (\<lambda>e. e \<noteq> []) (case q of [] \<Rightarrow> [] | _ # rest \<Rightarrow> split_slash rest))"
  proof (cases q)
    case (Cons a rest)
    then have "a = slash" using hd_dropWhile[of "\<lambda>c. c \<noteq> slash" p] unfolding q[symmetric] by simp
    then show ?thesis using Cons by (simp add: components_def)
  qed (simp add: components_def)
  then show ?thesis unfolding q[symmetric]
    by (subst components_def, subst split_slash_run) (use e in \<open>simp add: q[symmetric]\<close>)
qed

lemma components_step:
  "components path = (case skipelem path of None \<Rightarrow> [] | Some (e, rest) \<Rightarrow> e # components rest)"
proof -
  obtain p where p: "p = dropWhile (\<lambda>c. c = slash) path" by blast
  have c: "components path = components p" unfolding p by (rule components_skip[symmetric])
  show ?thesis
  proof (cases "p = []")
    case True
    then show ?thesis unfolding c by (simp add: skipelem_def p[symmetric] components_def)
  next
    case False
    then have "hd p \<noteq> slash" using hd_dropWhile[of "\<lambda>c. c = slash" path] unfolding p[symmetric] by simp
    from components_elem[OF False this] show ?thesis
      using False unfolding c by (simp add: skipelem_def p[symmetric] Let_def components_skip)
  qed
qed

lemma walk_elems_enough: "length p \<le> n \<Longrightarrow> walk_elems n p = components p"
proof (induction n arbitrary: p)
  case 0
  then show ?case by (simp add: components_def)
next
  case (Suc n)
  show ?case
  proof (cases "skipelem p")
    case None
    then show ?thesis using components_step[of p] by simp
  next
    case (Some x)
    then obtain e rest where x: "skipelem p = Some (e, rest)" by (cases x) auto
    then have "walk_elems n rest = components rest" using skipelem_shorter[OF x] Suc by simp
    then show ?thesis using components_step[of p] x by simp
  qed
qed

text \<open>
  C20 (path components): the elements that repeated \<^verbatim>\<open>skipelem\<close> takes from a path name
  are its components: the non-empty parts between slashes, however many slashes separate, precede
  or follow them, each cut to the length of a directory entry name.  As many steps as the path has
  bytes always reach the end.
\<close>

theorem skipelem_components: "walk_elems (length path) path = components path"
  by (rule walk_elems_enough) simp

end
