(* ===== verification/File.thy ===== *)
theory File
  imports Fs Ring
begin

text \<open>
  Model of \<^verbatim>\<open>file.c\<close> and \<^verbatim>\<open>pipe.c\<close>.  A pipe is known by the address of the page
  it lives in; its fields are a record.  Bytes read are returned to the caller, who stores them
  at the user address, and bytes to be written are passed as a list.  When a pipe is full or
  empty the routine sleeps; what it does when it is woken is its \<open>_resume\<close> routine.
\<close>

section \<open>Data (file.h, pipe.c)\<close>

datatype ftype = FD_NONE | FD_PIPE | FD_INODE

record file_t =
  f_type :: ftype
  f_ref :: int
  f_readable :: bool
  f_writable :: bool
  f_pipe :: uint
  f_ip :: nat
  f_off :: uint

record pipe =
  pi_data :: "byte list"
  pi_nread :: uint
  pi_nwrite :: uint
  pi_readopen :: bool
  pi_writeopen :: bool

record file_st = fs_st +
  files :: "nat \<Rightarrow> file_t"
  pipes :: "uint \<Rightarrow> pipe"

abbreviation (input) PIPESIZE :: nat where "PIPESIZE \<equiv> 512"

definition upf :: "nat \<Rightarrow> (file_t \<Rightarrow> file_t) \<Rightarrow> ('x file_st_scheme, unit) kernel" where
  "upf i g = modify (\<lambda>s. s\<lparr>files := (files s)(i := g (files s i))\<rparr>)"

definition uppi :: "uint \<Rightarrow> (pipe \<Rightarrow> pipe) \<Rightarrow> ('x file_st_scheme, unit) kernel" where
  "uppi p g = modify (\<lambda>s. s\<lparr>pipes := (pipes s)(p := g (pipes s p))\<rparr>)"

definition killed :: "('x pt_st_scheme, bool) kernel" where
  "killed = bnd cur (\<lambda>i. gets (\<lambda>s. p_killed (ptab s i)))"

section \<open>The file table\<close>

definition fileinit :: "('x file_st_scheme, unit) kernel" where
  "fileinit = initlk FtableLock"

definition filealloc :: "('x file_st_scheme, nat option) kernel" where
  "filealloc =
     thn (acq FtableLock) (
     bnd (gets (\<lambda>s. find (\<lambda>i. f_ref (files s i) = 0) [0..<NFILE])) (\<lambda>r.
     case r of
        Some i \<Rightarrow> (
          thn (upf i (f_ref_update (\<lambda>_. 1))) (
          thn (rel FtableLock) (
          ret (Some i))))
      | None \<Rightarrow> thn (rel FtableLock) (ret None)))"

definition filedup :: "nat \<Rightarrow> ('x file_st_scheme, nat) kernel" where
  "filedup f =
     thn (acq FtableLock) (
     bnd (gets (\<lambda>s. f_ref (files s f))) (\<lambda>r.
     if r < 1 then panic ''filedup'' else
     thn (upf f (f_ref_update (\<lambda>_. r + 1))) (
     thn (rel FtableLock) (
     ret f))))"

section \<open>Pipes\<close>

definition pipeclose :: "uint \<Rightarrow> bool \<Rightarrow> ('x file_st_scheme, unit) kernel" where
  "pipeclose p writable =
     thn (acq (PipeLock p)) (
     thn (if writable
       then thn (uppi p (pi_writeopen_update (\<lambda>_. False))) (wakeup (Some (ChanPipeRead p)))
       else thn (uppi p (pi_readopen_update (\<lambda>_. False))) (wakeup (Some (ChanPipeWrite p)))) (
     bnd (gets (\<lambda>s. \<not> pi_readopen (pipes s p) \<and> \<not> pi_writeopen (pipes s p))) (\<lambda>b.
     if b then thn (rel (PipeLock p)) (kfree p) else rel (PipeLock p))))"

text \<open>The loop of \<^verbatim>\<open>pipewrite\<close> with the bytes not yet written; \<open>n\<close> is the length asked for.\<close>

fun pipewrite_loop :: "uint \<Rightarrow> byte list \<Rightarrow> int \<Rightarrow> ('x file_st_scheme, int) kernel" where
  "pipewrite_loop p [] n =
     thn (wakeup (Some (ChanPipeRead p))) (
     thn (rel (PipeLock p)) (
     ret n))"
| "pipewrite_loop p (c # cs) n =
     bnd (gets (\<lambda>s. pipes s p)) (\<lambda>pi.
     if pi_nwrite pi = pi_nread pi + of_nat PIPESIZE then (
         bnd killed (\<lambda>k.
         if \<not> pi_readopen pi \<or> k then thn (rel (PipeLock p)) (ret (-1)) else
         thn (wakeup (Some (ChanPipeRead p))) (
         thn (sleep (Some (ChanPipeWrite p)) (Some (PipeLock p))) (
         ret n)))) else
     thn (uppi p (\<lambda>q. q\<lparr>pi_data := (pi_data q)[unat (pi_nwrite q) mod PIPESIZE := c],
       pi_nwrite := pi_nwrite q + 1\<rparr>)) (
     pipewrite_loop p cs n))"

definition pipewrite :: "uint \<Rightarrow> byte list \<Rightarrow> ('x file_st_scheme, int) kernel" where
  "pipewrite p addr = thn (acq (PipeLock p)) (pipewrite_loop p addr (int (length addr)))"

definition pipewrite_resume :: "uint \<Rightarrow> byte list \<Rightarrow> int \<Rightarrow> ('x file_st_scheme, int) kernel" where
  "pipewrite_resume p cs n = thn (sleep_resume (PipeLock p)) (pipewrite_loop p cs n)"

text \<open>The copying loop of \<^verbatim>\<open>piperead\<close>: at most \<open>n\<close> bytes.\<close>

fun pipe_take :: "uint \<Rightarrow> nat \<Rightarrow> ('x file_st_scheme, byte list) kernel" where
  "pipe_take p 0 = ret []"
| "pipe_take p (Suc n) =
     bnd (gets (\<lambda>s. pipes s p)) (\<lambda>pi.
     if pi_nread pi = pi_nwrite pi then ret [] else
     thn (uppi p (\<lambda>q. q\<lparr>pi_nread := pi_nread q + 1\<rparr>)) (
     bnd (pipe_take p n) (\<lambda>cs.
     ret (pi_data pi ! (unat (pi_nread pi) mod PIPESIZE) # cs))))"

definition piperead_loop :: "uint \<Rightarrow> nat \<Rightarrow> ('x file_st_scheme, int \<times> byte list) kernel" where
  "piperead_loop p n =
     bnd (gets (\<lambda>s. pipes s p)) (\<lambda>pi.
     if pi_nread pi = pi_nwrite pi \<and> pi_writeopen pi then (
         bnd killed (\<lambda>k.
         if k then thn (rel (PipeLock p)) (ret (-1, [])) else
         thn (sleep (Some (ChanPipeRead p)) (Some (PipeLock p))) (
         ret (0, [])))) else
     bnd (pipe_take p n) (\<lambda>cs.
     thn (wakeup (Some (ChanPipeWrite p))) (
     thn (rel (PipeLock p)) (
     ret (int (length cs), cs)))))"

definition piperead :: "uint \<Rightarrow> int \<Rightarrow> ('x file_st_scheme, int \<times> byte list) kernel" where
  "piperead p n = thn (acq (PipeLock p)) (piperead_loop p (nat n))"

definition piperead_resume :: "uint \<Rightarrow> int \<Rightarrow> ('x file_st_scheme, int \<times> byte list) kernel" where
  "piperead_resume p n = thn (sleep_resume (PipeLock p)) (piperead_loop p (nat n))"

section \<open>Operations on files\<close>

definition fileclose :: "nat \<Rightarrow> ('x file_st_scheme, unit) kernel" where
  "fileclose f =
     thn (acq FtableLock) (
     bnd (gets (\<lambda>s. f_ref (files s f))) (\<lambda>r.
     if r < 1 then panic ''fileclose'' else
     thn (upf f (f_ref_update (\<lambda>_. r - 1))) (
     if r - 1 > 0 then rel FtableLock else
     bnd (gets (\<lambda>s. files s f)) (\<lambda>ff.
     thn (upf f (\<lambda>g. g\<lparr>f_ref := 0, f_type := FD_NONE\<rparr>)) (
     thn (rel FtableLock) (
     case f_type ff of
        FD_PIPE \<Rightarrow> pipeclose (f_pipe ff) (f_writable ff)
      | FD_INODE \<Rightarrow> thn begin_op (thn (iput (f_ip ff)) end_op)
      | FD_NONE \<Rightarrow> ret ()))))))"

definition pipealloc_bad :: "nat option \<Rightarrow> nat option \<Rightarrow> ('x file_st_scheme, (nat \<times> nat) option) kernel" where
  "pipealloc_bad f0 f1 =
     thn (case f0 of Some f \<Rightarrow> fileclose f | None \<Rightarrow> ret ()) (
     thn (case f1 of Some f \<Rightarrow> fileclose f | None \<Rightarrow> ret ()) (
     ret None))"

text \<open>The two files on success, \<open>None\<close> for \<open>-1\<close>.  The label \<^verbatim>\<open>bad\<close> is reached only before
  there is a page, so nothing is to be freed there.\<close>

definition pipealloc :: "('x file_st_scheme, (nat \<times> nat) option) kernel" where
  "pipealloc =
     bnd filealloc (\<lambda>r0.
     case r0 of
        None \<Rightarrow> pipealloc_bad None None
      | Some f0 \<Rightarrow> (
          bnd filealloc (\<lambda>r1.
          case r1 of
             None \<Rightarrow> pipealloc_bad (Some f0) None
           | Some f1 \<Rightarrow> (
               bnd kalloc (\<lambda>p.
               if p = 0 then pipealloc_bad (Some f0) (Some f1) else
               thn (uppi p (\<lambda>q. q\<lparr>pi_readopen := True, pi_writeopen := True, pi_nwrite := 0, pi_nread := 0\<rparr>)) (
               thn (initlk (PipeLock p)) (
               thn (upf f0 (\<lambda>f. f\<lparr>f_type := FD_PIPE, f_readable := True, f_writable := False, f_pipe := p\<rparr>)) (
               thn (upf f1 (\<lambda>f. f\<lparr>f_type := FD_PIPE, f_readable := False, f_writable := True, f_pipe := p\<rparr>)) (
               ret (Some (f0, f1)))))))))))"

definition filestat :: "nat \<Rightarrow> ('x file_st_scheme, stat option) kernel" where
  "filestat f =
     bnd (gets (\<lambda>s. files s f)) (\<lambda>ff.
     if f_type ff \<noteq> FD_INODE then ret None else
     thn (ilock (f_ip ff)) (
     bnd (stati (f_ip ff)) (\<lambda>st.
     thn (iunlock (f_ip ff)) (
     ret (Some st)))))"

definition fileread :: "'x file_st_scheme devsw \<Rightarrow> nat \<Rightarrow> int \<Rightarrow> ('x file_st_scheme, int \<times> byte list) kernel" where
  "fileread devsw f n =
     bnd (gets (\<lambda>s. files s f)) (\<lambda>ff.
     if \<not> f_readable ff then ret (-1, []) else
     case f_type ff of
        FD_PIPE \<Rightarrow> piperead (f_pipe ff) n
      | FD_INODE \<Rightarrow> (
          thn (ilock (f_ip ff)) (
          bnd (gets (\<lambda>s. f_off (files s f))) (\<lambda>off.
          bnd (readi devsw (f_ip ff) off (word_of_int n)) (\<lambda>(r, xs).
          thn (whenk (r > 0) (upf f (f_off_update (\<lambda>off. off + word_of_int r)))) (
          thn (iunlock (f_ip ff)) (
          ret (r, xs)))))))
      | FD_NONE \<Rightarrow> panic ''fileread'')"

text \<open>The transactions of \<^verbatim>\<open>filewrite\<close>: at most thirteen blocks at a time.\<close>

definition filewrite :: "'x file_st_scheme devsw \<Rightarrow> nat \<Rightarrow> byte list \<Rightarrow> ('x file_st_scheme, int) kernel" where
  "filewrite devsw f addr =
     bnd (gets (\<lambda>s. files s f)) (\<lambda>ff.
     if \<not> f_writable ff then ret (-1) else
     case f_type ff of
        FD_PIPE \<Rightarrow> pipewrite (f_pipe ff) addr
      | FD_INODE \<Rightarrow> (
          let n = length addr; mx = ((LOGSIZE - 1 - 1 - 2) div 2) * 512 in
          bnd (scanM [0..<(n + mx - 1) div mx] (\<lambda>k. (
            let n1 = min mx (n - k * mx) in
            thn begin_op (
            thn (ilock (f_ip ff)) (
            bnd (gets (\<lambda>s. f_off (files s f))) (\<lambda>off.
            bnd (writei devsw (f_ip ff) (take n1 (drop (k * mx) addr)) off (of_nat n1)) (\<lambda>r.
            thn (whenk (r > 0) (upf f (f_off_update (\<lambda>off. off + word_of_int r)))) (
            thn (iunlock (f_ip ff)) (
            thn end_op (
            if r < 0 then ret (Some ()) else
            if r \<noteq> int n1 then panic ''short filewrite'' else
            ret None)))))))))) (\<lambda>r.
          ret (case r of None \<Rightarrow> int n | Some _ \<Rightarrow> -1)))
      | FD_NONE \<Rightarrow> panic ''filewrite'')"

section \<open>Pipes as bounded queues\<close>

interpretation pr: ring_buffer "\<lambda>i. unat i mod PIPESIZE" PIPESIZE
  by unfold_locales (simp, rule dvd_slot[where n = PIPESIZE], simp_all)

text \<open>The bytes in a pipe, oldest first.\<close>

definition pipe_bytes :: "pipe \<Rightarrow> byte list" where
  "pipe_bytes q = map (\<lambda>k. pi_data q ! (unat (pi_nread q + of_nat k) mod PIPESIZE))
     [0..<unat (pi_nwrite q - pi_nread q)]"

definition pipe_ok :: "pipe \<Rightarrow> bool" where
  "pipe_ok q \<longleftrightarrow> length (pi_data q) = PIPESIZE \<and> length (pipe_bytes q) \<le> PIPESIZE"

abbreviation (input) room :: "pipe \<Rightarrow> nat" where
  "room q \<equiv> PIPESIZE - length (pipe_bytes q)"

lemma pipe_ring:
  "pipe_bytes q = pr.contents (pi_data q) (pi_nread q) (pi_nwrite q)"
  "pipe_ok q = pr.ok (pi_data q) (pi_nread q) (pi_nwrite q)"
  by (simp_all add: pipe_bytes_def pipe_ok_def pr.contents_def pr.ok_def)

lemma pipe_empty: "pi_nread q = pi_nwrite q \<longleftrightarrow> pipe_bytes q = []"
  by (simp add: pipe_ring pr.contents_empty)

lemma pipe_full: "pi_nwrite q = pi_nread q + of_nat PIPESIZE \<longleftrightarrow> length (pipe_bytes q) = PIPESIZE"
  using pr.full_iff[of "pi_nwrite q" "pi_nread q"] by (simp add: pipe_ring)

definition pipe_put :: "byte \<Rightarrow> pipe \<Rightarrow> pipe" where
  "pipe_put c q = q\<lparr>pi_data := (pi_data q)[unat (pi_nwrite q) mod PIPESIZE := c], pi_nwrite := pi_nwrite q + 1\<rparr>"

lemma pipe_put:
  assumes "pipe_ok q" and "length (pipe_bytes q) < PIPESIZE"
  shows "pipe_ok (pipe_put c q)" and "pipe_bytes (pipe_put c q) = pipe_bytes q @ [c]"
    and "pi_readopen (pipe_put c q) = pi_readopen q"
  using pr.push[of "pi_data q" "pi_nread q" "pi_nwrite q" c] assms
  by (simp_all add: pipe_ring pipe_put_def)

lemma pipe_get:
  assumes "pipe_ok q" and "pi_nread q \<noteq> pi_nwrite q"
  shows "pipe_ok (q\<lparr>pi_nread := pi_nread q + 1\<rparr>)"
    and "pipe_bytes q = pi_data q ! (unat (pi_nread q) mod PIPESIZE) # pipe_bytes (q\<lparr>pi_nread := pi_nread q + 1\<rparr>)"
  using pr.pop(1)[OF assms(2), of "pi_data q"] pr.pop_ok[OF assms(1)[unfolded pipe_ring] assms(2)]
  by (simp_all add: pipe_ring)

lemma killed_run [kstep]: "curproc s = Some i \<Longrightarrow> killed s = Ret (p_killed (ptab s i)) s"
  by (simp add: killed_def cur_def kstep)

lemma uppi_run [kstep]: "uppi p g s = Ret () (s\<lparr>pipes := (pipes s)(p := g (pipes s p))\<rparr>)"
  by (simp add: uppi_def kstep)

text \<open>The table entry of a process that goes to sleep on a pipe.\<close>

definition asleep :: "nat \<Rightarrow> chan \<Rightarrow> (nat \<Rightarrow> proc) \<Rightarrow> nat \<Rightarrow> proc" where
  "asleep i ch pt = pt(i := (pt i)\<lparr>p_chan := Some ch, p_state := SLEEPING\<rparr>)"

lemma pipewrite_loop_run:
  assumes "held s = [PipeLock p]" and "curproc s = Some i" and "pipe_ok (pipes s p)"
  shows "\<exists>q. pipe_ok q \<and> (let q0 = pipes s p; k = room q0; pt = woken_tab (Some (ChanPipeRead p)) (ptab s) in
    pipe_bytes q = pipe_bytes q0 @ take k xs \<and> pipewrite_loop p xs n s =
     (if length xs \<le> k then Ret n (s\<lparr>held := [], pipes := (pipes s)(p := q), ptab := pt\<rparr>)
      else if \<not> pi_readopen q0 \<or> p_killed (ptab s i) then Ret (-1) (s\<lparr>held := [], pipes := (pipes s)(p := q)\<rparr>)
      else Sched (s\<lparr>held := [PtableLock], pipes := (pipes s)(p := q), ptab := asleep i (ChanPipeWrite p) pt\<rparr>)))"
  using assms
proof (induction xs arbitrary: s)
  case Nil
  then show ?case
    by (intro exI[of _ "pipes s p"]) (simp add: kstep wakeup_run)
next
  case (Cons c cs)
  let ?q = "pipes s p"
  show ?case
  proof (cases "length (pipe_bytes ?q) = PIPESIZE")
    case True
    then have f: "pi_nwrite ?q = pi_nread ?q + of_nat PIPESIZE" using pipe_full by blast
    let ?s = "s\<lparr>ptab := woken_tab (Some (ChanPipeRead p)) (ptab s)\<rparr>"
    have sl: "sleep (Some (ChanPipeWrite p)) (Some (PipeLock p)) ?s = Sched (?s\<lparr>held := [PtableLock],
        ptab := asleep i (ChanPipeWrite p) (ptab ?s)\<rparr>)"
      using Cons.prems sleep_run[of ?s i "PipeLock p"] by (simp add: asleep_def)
    show ?thesis
      using True f Cons.prems sl by (intro exI[of _ ?q]) (simp add: kstep wakeup_run)
  next
    case False
    then have l: "length (pipe_bytes ?q) < PIPESIZE" using Cons.prems(3) by (simp add: pipe_ok_def)
    have nf: "pi_nwrite ?q \<noteq> pi_nread ?q + of_nat PIPESIZE" using False pipe_full by blast
    let ?s = "s\<lparr>pipes := (pipes s)(p := pipe_put c ?q)\<rparr>"
    note pp = pipe_put[OF Cons.prems(3) l, of c]
    have e: "pipewrite_loop p (c # cs) n s = pipewrite_loop p cs n ?s"
      using nf by (simp add: kstep pipe_put_def)
    have k: "room ?q = Suc (room (pipe_put c ?q))" using l pp(2) by simp
    have "held ?s = [PipeLock p]" "curproc ?s = Some i" "pipe_ok (pipes ?s p)"
      using Cons.prems pp(1) by simp_all
    from Cons.IH[OF this] obtain q where "pipe_ok q \<and> (let q0 = pipes ?s p; k = room q0;
        pt = woken_tab (Some (ChanPipeRead p)) (ptab ?s) in
      pipe_bytes q = pipe_bytes q0 @ take k cs \<and> pipewrite_loop p cs n ?s =
       (if length cs \<le> k then Ret n (?s\<lparr>held := [], pipes := (pipes ?s)(p := q), ptab := pt\<rparr>)
        else if \<not> pi_readopen q0 \<or> p_killed (ptab ?s i) then Ret (-1) (?s\<lparr>held := [], pipes := (pipes ?s)(p := q)\<rparr>)
        else Sched (?s\<lparr>held := [PtableLock], pipes := (pipes ?s)(p := q), ptab := asleep i (ChanPipeWrite p) pt\<rparr>)))"
      by blast
    then show ?thesis using k pp(2,3) by (intro exI[of _ q]) (simp add: Let_def e fun_upd_same cong: if_cong del: pipewrite_loop.simps fun_upd_apply)
  qed
qed

lemma pipe_take_run:
  assumes "pipe_ok (pipes s p)"
  shows "\<exists>q. pipe_ok q \<and> pipe_bytes q = drop n (pipe_bytes (pipes s p))
    \<and> pipe_take p n s = Ret (take n (pipe_bytes (pipes s p))) (s\<lparr>pipes := (pipes s)(p := q)\<rparr>)"
  using assms
proof (induction n arbitrary: s)
  case 0
  then show ?case by (intro exI[of _ "pipes s p"]) (simp add: kstep)
next
  case (Suc n)
  let ?q = "pipes s p"
  show ?case
  proof (cases "pi_nread ?q = pi_nwrite ?q")
    case True
    then show ?thesis using pipe_empty[of ?q] Suc.prems by (intro exI[of _ ?q]) (simp add: kstep)
  next
    case False
    note g = pipe_get[OF Suc.prems False]
    let ?s = "s\<lparr>pipes := (pipes s)(p := ?q\<lparr>pi_nread := pi_nread ?q + 1\<rparr>)\<rparr>"
    have "pipe_ok (pipes ?s p)" using g(1) by simp
    from Suc.IH[OF this] obtain q where q: "pipe_ok q" "pipe_bytes q = drop n (pipe_bytes (pipes ?s p))"
        "pipe_take p n ?s = Ret (take n (pipe_bytes (pipes ?s p))) (?s\<lparr>pipes := (pipes ?s)(p := q)\<rparr>)"
      by blast
    have "pipe_take p (Suc n) s = bnd (pipe_take p n)
        (\<lambda>cs. ret (pi_data ?q ! (unat (pi_nread ?q) mod PIPESIZE) # cs)) ?s"
      using False by (simp add: kstep)
    then show ?thesis using q g(2) by (intro exI[of _ q]) (simp add: bnd_run ret_run fun_upd_same del: pipe_take.simps fun_upd_apply)
  qed
qed

section \<open>Properties\<close>

text \<open>
  C14 (writing to a pipe): a pipe is a queue of at most 512 bytes.  A write that fits appends all its
  bytes; one that does not appends what fits and then sleeps until there is room, keeping the
  rest for later, unless no reader is left or the process has been killed, when it fails.
\<close>

theorem pipewrite_queue:
  assumes "held s = []" and "curproc s = Some i" and "pipe_ok (pipes s p)"
  defines "q0 \<equiv> pipes s p"
  shows "case pipewrite p xs s of
      Ret r s' \<Rightarrow> held s' = [] \<and> pipe_ok (pipes s' p)
        \<and> pipe_bytes (pipes s' p) = pipe_bytes q0 @ take (PIPESIZE - length (pipe_bytes q0)) xs
        \<and> r = (if length (pipe_bytes q0) + length xs \<le> PIPESIZE then int (length xs) else -1)
        \<and> (r = -1 \<longrightarrow> \<not> pi_readopen q0 \<or> p_killed (ptab s i))
    | Sched s' \<Rightarrow> PIPESIZE < length (pipe_bytes q0) + length xs \<and> pi_readopen q0 \<and> \<not> p_killed (ptab s i)
        \<and> pipe_ok (pipes s' p)
        \<and> pipe_bytes (pipes s' p) = pipe_bytes q0 @ take (PIPESIZE - length (pipe_bytes q0)) xs
        \<and> p_state (ptab s' i) = SLEEPING \<and> p_chan (ptab s' i) = Some (ChanPipeWrite p)
    | _ \<Rightarrow> False"
proof -
  let ?s = "s\<lparr>held := [PipeLock p]\<rparr>"
  have "held ?s = [PipeLock p]" "curproc ?s = Some i" "pipe_ok (pipes ?s p)" using assms by simp_all
  from pipewrite_loop_run[OF this, of xs "int (length xs)"] obtain q where
    q: "pipe_ok q" "pipe_bytes q = pipe_bytes q0 @ take (room q0) xs"
      "pipewrite_loop p xs (int (length xs)) ?s =
       (if length xs \<le> room q0 then Ret (int (length xs)) (s\<lparr>held := [], pipes := (pipes s)(p := q),
          ptab := woken_tab (Some (ChanPipeRead p)) (ptab s)\<rparr>)
        else if \<not> pi_readopen q0 \<or> p_killed (ptab s i) then Ret (-1) (s\<lparr>held := [], pipes := (pipes s)(p := q)\<rparr>)
        else Sched (s\<lparr>held := [PtableLock], pipes := (pipes s)(p := q),
          ptab := asleep i (ChanPipeWrite p) (woken_tab (Some (ChanPipeRead p)) (ptab s))\<rparr>))"
    by (auto simp: Let_def q0_def)
  have e: "pipewrite p xs s = pipewrite_loop p xs (int (length xs)) ?s"
    using assms(1) by (simp add: pipewrite_def kstep)
  have l: "length xs \<le> room q0 \<longleftrightarrow> length (pipe_bytes q0) + length xs \<le> PIPESIZE"
    using assms(3) by (auto simp: pipe_ok_def q0_def)
  show ?thesis
    using q(1,2) l unfolding e q(3) by (auto simp: asleep_def)
qed

theorem pipewrite_queue_witness:
  "\<exists>s :: file_st. pipe_bytes (pipes s 0x80400000) = [] \<and>
    runs (pipewrite 0x80400000 [1, 2, 3]) s (\<lambda>r s'. r = 3 \<and> pipe_bytes (pipes s' 0x80400000) = [1, 2, 3])"
proof -
  define s :: file_st where "s = (undefined :: file_st)\<lparr>held := [], curproc := Some 0,
    pipes := \<lambda>_. \<lparr>pi_data = replicate 512 0, pi_nread = 0, pi_nwrite = 0, pi_readopen = True, pi_writeopen = True\<rparr>\<rparr>"
  have b: "pipe_bytes (pipes s 0x80400000) = []" by (simp add: s_def pipe_bytes_def)
  have s: "held s = []" "curproc s = Some 0" "pipe_ok (pipes s 0x80400000)"
    using b by (simp_all add: pipe_ok_def) (simp_all add: s_def)
  then have "runs (pipewrite 0x80400000 [1, 2, 3]) s (\<lambda>r s'. r = 3 \<and> pipe_bytes (pipes s' 0x80400000) = [1, 2, 3])"
    using pipewrite_queue[OF s, of "[1, 2, 3]"] b by (simp add: runs_def split: outcome.splits)
  then show ?thesis using b by blast
qed



end
