(* ===== verification/Lifecycle.thy ===== *)
theory Lifecycle
  imports File
begin

text \<open>
  The part of \<^verbatim>\<open>proc.c\<close> that creates and ends processes: \<^verbatim>\<open>userinit\<close>,
  \<^verbatim>\<open>growproc\<close>, \<^verbatim>\<open>fork\<close>, \<^verbatim>\<open>exit\<close>, \<^verbatim>\<open>wait\<close> and \<^verbatim>\<open>forkret\<close>.  It
  composes the process table with virtual memory, the file table, the log and the inode cache.
  The bytes of the first user program come from the linker and are an argument.
\<close>

section \<open>Trap frames (x86.h)\<close>

record proc_st = file_st +
  first_ret :: bool

text \<open>Offsets in \<^verbatim>\<open>struct trapframe\<close>.\<close>

abbreviation (input) TF_EAX :: uint where "TF_EAX \<equiv> 28"
abbreviation (input) TF_ES :: uint where "TF_ES \<equiv> 40"
abbreviation (input) TF_DS :: uint where "TF_DS \<equiv> 44"
abbreviation (input) TF_TRAPNO :: uint where "TF_TRAPNO \<equiv> 48"
abbreviation (input) TF_EIP :: uint where "TF_EIP \<equiv> 56"
abbreviation (input) TF_CS :: uint where "TF_CS \<equiv> 60"
abbreviation (input) TF_EFLAGS :: uint where "TF_EFLAGS \<equiv> 64"
abbreviation (input) TF_ESP :: uint where "TF_ESP \<equiv> 68"
abbreviation (input) TF_SS :: uint where "TF_SS \<equiv> 72"

definition wr16 :: "uint \<Rightarrow> ushort \<Rightarrow> ('x vm_st_scheme, unit) kernel" where
  "wr16 a v = modify (\<lambda>s. s\<lparr>mem := (mem s)(a := ucast v, a + 1 := ucast (drop_bit 8 v))\<rparr>)"

section \<open>Creating processes\<close>

definition userinit :: "'x proc_st_scheme devsw \<Rightarrow> byte list \<Rightarrow> ('x proc_st_scheme, unit) kernel" where
  "userinit devsw initcode =
     bnd allocproc (\<lambda>r.
     thn (modify (initproc_update (\<lambda>_. r))) (
     case r of None \<Rightarrow> undef | Some p \<Rightarrow> (
       bnd setupkvm (\<lambda>pgdir.
       thn (updp p (p_pgdir_update (\<lambda>_. pgdir))) (
       if pgdir = 0 then panic ''userinit: out of memory?'' else
       thn (inituvm pgdir initcode) (
       thn (updp p (p_sz_update (\<lambda>_. 4096))) (
       bnd (gets (\<lambda>s. p_tf (ptab s p))) (\<lambda>tf.
       thn (modify (\<lambda>s. s\<lparr>mem := memset (mem s) tf 0 76\<rparr>)) (
       thn (wr16 (tf + TF_CS) 0x23) (
       thn (wr16 (tf + TF_DS) 0x2B) (
       thn (wr16 (tf + TF_ES) 0x2B) (
       thn (wr16 (tf + TF_SS) 0x2B) (
       thn (wr32 (tf + TF_EFLAGS) 0x200) (
       thn (wr32 (tf + TF_ESP) 4096) (
       thn (wr32 (tf + TF_EIP) 0) (
       thn (updp p (\<lambda>q. q\<lparr>p_name := safestrcpy (p_name q) (rd (lit ''initcode'')) 16\<rparr>)) (
       bnd (namei devsw [slash]) (\<lambda>cwd.
       thn (updp p (p_cwd_update (\<lambda>_. cwd))) (
       updp p (p_state_update (\<lambda>_. RUNNABLE)))))))))))))))))))))"

definition growproc :: "int \<Rightarrow> ('x proc_st_scheme, int) kernel" where
  "growproc n =
     bnd cur (\<lambda>p.
     bnd (gets (\<lambda>s. p_sz (ptab s p))) (\<lambda>sz.
     bnd (gets (\<lambda>s. p_pgdir (ptab s p))) (\<lambda>pgdir.
     bnd (if 0 < n then allocuvm pgdir sz (sz + word_of_int n)
       else if n < 0 then deallocuvm pgdir sz (sz + word_of_int n)
       else ret sz) (\<lambda>r.
     if n \<noteq> 0 \<and> r = 0 then ret (-1) else
     thn (updp p (p_sz_update (\<lambda>_. r))) (
     thn (switchuvm p) (
     ret 0))))))"

text \<open>
  The body of the loop of \<^verbatim>\<open>fork\<close> that copies the open files, and \<^verbatim>\<open>fork\<close> itself.
\<close>

definition fork_files :: "nat \<Rightarrow> nat \<Rightarrow> ('x proc_st_scheme, unit) kernel" where
  "fork_files p np = forM [0..<NOFILE] (\<lambda>i. (
     bnd (gets (\<lambda>s. p_ofile (ptab s p) ! i)) (\<lambda>f.
     case f of
        None \<Rightarrow> ret ()
      | Some f \<Rightarrow> (
          bnd (filedup f) (\<lambda>g.
          updp np (\<lambda>q. q\<lparr>p_ofile := (p_ofile q)[i := Some g]\<rparr>))))))"

definition fork :: "('x proc_st_scheme, int) kernel" where
  "fork =
     bnd allocproc (\<lambda>r.
     case r of None \<Rightarrow> ret (-1) | Some np \<Rightarrow> (
       bnd cur (\<lambda>p.
       bnd (gets (\<lambda>s. ptab s p)) (\<lambda>me.
       bnd (copyuvm (p_pgdir me) (p_sz me)) (\<lambda>pgdir.
       thn (updp np (p_pgdir_update (\<lambda>_. pgdir))) (
       if pgdir = 0 then (
           bnd (gets (\<lambda>s. p_kstack (ptab s np))) (\<lambda>ks.
           thn (kfree ks) (
           thn (updp np (p_kstack_update (\<lambda>_. 0))) (
           thn (updp np (p_state_update (\<lambda>_. UNUSED))) (
           ret (-1)))))) else
       thn (updp np (\<lambda>q. q\<lparr>p_sz := p_sz me, p_parent := Some p\<rparr>)) (
       bnd (gets (\<lambda>s. p_tf (ptab s np))) (\<lambda>tf.
       thn (modify (\<lambda>s. s\<lparr>mem := memmove (mem s) tf (p_tf me) 76\<rparr>)) (
       thn (wr32 (tf + TF_EAX) 0) (
       thn (fork_files p np) (
       case p_cwd me of None \<Rightarrow> undef | Some c \<Rightarrow> (
         bnd (idup c) (\<lambda>c.
         thn (updp np (p_cwd_update (\<lambda>_. Some c))) (
         thn (updp np (\<lambda>q. q\<lparr>p_name := safestrcpy (p_name q) (rd (p_name me)) 16\<rparr>)) (
         bnd (gets (\<lambda>s. p_pid (ptab s np))) (\<lambda>pid.
         thn (acq PtableLock) (
         thn (updp np (p_state_update (\<lambda>_. RUNNABLE))) (
         thn (rel PtableLock) (
         ret pid)))))))))))))))))))"

section \<open>Ending processes\<close>

definition exit_files :: "nat \<Rightarrow> ('x proc_st_scheme, unit) kernel" where
  "exit_files p = forM [0..<NOFILE] (\<lambda>fd. (
     bnd (gets (\<lambda>s. p_ofile (ptab s p) ! fd)) (\<lambda>f.
     case f of
        None \<Rightarrow> ret ()
      | Some f \<Rightarrow> thn (fileclose f) (updp p (\<lambda>q. q\<lparr>p_ofile := (p_ofile q)[fd := None]\<rparr>)))))"

text \<open>Abandoned children go to the first process, which is woken for every zombie among them.\<close>

definition reparent :: "nat \<Rightarrow> ('x proc_st_scheme, unit) kernel" where
  "reparent p = forM [0..<NPROC] (\<lambda>i. (
     bnd (gets (\<lambda>s. ptab s i)) (\<lambda>q.
     whenk (p_parent q = Some p) (
       bnd (gets initproc) (\<lambda>ip.
       thn (updp i (p_parent_update (\<lambda>_. ip))) (
       whenk (p_state q = ZOMBIE) (wakeup1 (map_option ChanProc ip))))))))"

definition exit :: "('x proc_st_scheme, unit) kernel" where
  "exit =
     bnd (gets curproc) (\<lambda>me.
     bnd (gets initproc) (\<lambda>ip.
     if me = ip then panic ''init exiting'' else
     bnd cur (\<lambda>p.
     thn (exit_files p) (
     thn begin_op (
     bnd (gets (\<lambda>s. p_cwd (ptab s p))) (\<lambda>cwd.
     thn (case cwd of None \<Rightarrow> undef | Some c \<Rightarrow> iput c) (
     thn end_op (
     thn (updp p (p_cwd_update (\<lambda>_. None))) (
     thn (acq PtableLock) (
     bnd (gets (\<lambda>s. p_parent (ptab s p))) (\<lambda>parent.
     thn (wakeup1 (map_option ChanProc parent)) (
     thn (reparent p) (
     thn (updp p (p_state_update (\<lambda>_. ZOMBIE))) (
     thn sched (
     panic ''zombie exit'')))))))))))))))"

definition reap :: "nat \<Rightarrow> ('x proc_st_scheme, int) kernel" where
  "reap i =
     bnd (gets (\<lambda>s. ptab s i)) (\<lambda>q.
     thn (kfree (p_kstack q)) (
     thn (updp i (p_kstack_update (\<lambda>_. 0))) (
     thn (freevm (p_pgdir q)) (
     thn (updp i (\<lambda>q. q\<lparr>p_state := UNUSED, p_pid := 0, p_parent := None,
       p_name := (p_name q)[0 := 0], p_killed := False\<rparr>)) (
     thn (rel PtableLock) (
     ret (p_pid q)))))))"

definition wait_loop :: "('x proc_st_scheme, int) kernel" where
  "wait_loop =
     bnd cur (\<lambda>me.
     bnd (gets (\<lambda>s. find (\<lambda>i. p_parent (ptab s i) = Some me \<and> p_state (ptab s i) = ZOMBIE) [0..<NPROC])) (\<lambda>z.
     case z of
        Some i \<Rightarrow> reap i
      | None \<Rightarrow> (
          bnd (gets (\<lambda>s. find (\<lambda>i. p_parent (ptab s i) = Some me) [0..<NPROC])) (\<lambda>kid.
          bnd (gets (\<lambda>s. p_killed (ptab s me))) (\<lambda>k.
          if kid = None \<or> k then thn (rel PtableLock) (ret (-1)) else
          thn (sleep (Some (ChanProc me)) (Some PtableLock)) (
          ret 0))))))"

definition wait :: "('x proc_st_scheme, int) kernel" where
  "wait = thn (acq PtableLock) wait_loop"

text \<open>When \<^verbatim>\<open>wait\<close> is scheduled again it still holds the lock of the process table.\<close>

definition wait_resume :: "('x proc_st_scheme, int) kernel" where
  "wait_resume = thn (sleep_resume PtableLock) wait_loop"

definition forkret :: "('x proc_st_scheme, unit) kernel" where
  "forkret =
     thn (rel PtableLock) (
     bnd (gets first_ret) (\<lambda>first.
     whenk first (
       thn (modify (first_ret_update (\<lambda>_. False))) (
       thn (iinit ROOTDEV) (
       initlog ROOTDEV)))))"

end
