(* ===== verification/Syscall.thy ===== *)
theory Syscall
  imports Lifecycle
begin

text \<open>
  Model of \<^verbatim>\<open>syscall.c\<close> (fetching arguments from user memory) and of
  \<^verbatim>\<open>sysproc.c\<close>.  The kernel reads user memory through the page table in use; an address
  that is not mapped makes it trap in kernel mode, where \<^verbatim>\<open>trap\<close> panics.  Strings are
  returned as the bytes before the terminating zero.
\<close>

record sys_st = proc_st +
  ticks :: uint

section \<open>User memory\<close>

definition utrans :: "'x vm_st_scheme \<Rightarrow> uint \<Rightarrow> uint option" where
  "utrans s va =
     (let pde = load32 (mem s) (p2v (cr3 s) + 4 * PDX va) in
      if pde AND PTE_P = 0 then None else
      let pte = load32 (mem s) (p2v (PTE_ADDR pde) + 4 * PTX va) in
      if pte AND PTE_P = 0 then None else Some (p2v (PTE_ADDR pte) + (va AND 0xFFF)))"

definition uload :: "uint \<Rightarrow> ('x vm_st_scheme, byte) kernel" where
  "uload va = (\<lambda>s. case utrans s va of None \<Rightarrow> Panic ''trap'' | Some a \<Rightarrow> Ret (mem s a) s)"

definition ustore :: "uint \<Rightarrow> byte \<Rightarrow> ('x vm_st_scheme, unit) kernel" where
  "ustore va b = (\<lambda>s. case utrans s va of None \<Rightarrow> Panic ''trap'' | Some a \<Rightarrow> Ret () (s\<lparr>mem := (mem s)(a := b)\<rparr>))"

definition uload_bytes :: "uint \<Rightarrow> nat \<Rightarrow> ('x vm_st_scheme, byte list) kernel" where
  "uload_bytes va n = mapM [0..<n] (\<lambda>i. uload (va + of_nat i))"

definition ustore_bytes :: "uint \<Rightarrow> byte list \<Rightarrow> ('x vm_st_scheme, unit) kernel" where
  "ustore_bytes va bs = forM [0..<length bs] (\<lambda>i. ustore (va + of_nat i) (bs ! i))"

definition word_bytes :: "uint \<Rightarrow> byte list" where
  "word_bytes v = put32 (replicate 4 0) 0 v"

section \<open>Arguments (syscall.c)\<close>

definition cursz :: "('x pt_st_scheme, uint) kernel" where
  "cursz = bnd cur (\<lambda>p. gets (\<lambda>s. p_sz (ptab s p)))"

definition fetchint :: "uint \<Rightarrow> ('x sys_st_scheme, uint option) kernel" where
  "fetchint addr =
     bnd cursz (\<lambda>sz.
     if sz \<le> addr \<or> sz < addr + 4 then ret None else
     bnd (uload_bytes addr 4) (\<lambda>bs.
     ret (Some (get32 bs 0))))"

definition fetchstr :: "uint \<Rightarrow> ('x sys_st_scheme, byte list option) kernel" where
  "fetchstr addr =
     bnd cursz (\<lambda>sz.
     if sz \<le> addr then ret None else
     bnd (scanM [0..<unat sz - unat addr] (\<lambda>i. (
       bnd (uload (addr + of_nat i)) (\<lambda>c.
       ret (if c = 0 then Some i else None))))) (\<lambda>r.
     case r of
        None \<Rightarrow> ret None
      | Some n \<Rightarrow> bnd (uload_bytes addr n) (\<lambda>bs. ret (Some bs))))"

definition argint :: "nat \<Rightarrow> ('x sys_st_scheme, uint option) kernel" where
  "argint n =
     bnd cur (\<lambda>p.
     bnd (gets (\<lambda>s. p_tf (ptab s p))) (\<lambda>tf.
     bnd (rd32 (tf + TF_ESP)) (\<lambda>esp.
     fetchint (esp + 4 + 4 * of_nat n))))"

text \<open>The size is an \<^verbatim>\<open>int\<close>, added as an unsigned number.\<close>

definition argptr :: "nat \<Rightarrow> int \<Rightarrow> ('x sys_st_scheme, uint option) kernel" where
  "argptr n sz =
     bnd (argint n) (\<lambda>r.
     case r of None \<Rightarrow> ret None | Some i \<Rightarrow> (
       bnd cursz (\<lambda>top.
       ret (if top \<le> i \<or> top < i + word_of_int sz then None else Some i))))"

definition argstr :: "nat \<Rightarrow> ('x sys_st_scheme, byte list option) kernel" where
  "argstr n =
     bnd (argint n) (\<lambda>r.
     case r of None \<Rightarrow> ret None | Some a \<Rightarrow> fetchstr a)"

section \<open>System calls on processes (sysproc.c)\<close>

definition inc_scount :: "('x pt_st_scheme, unit) kernel" where
  "inc_scount = bnd cur (\<lambda>p. updp p (\<lambda>q. q\<lparr>p_scount := p_scount q + 1\<rparr>))"

definition sys_fork :: "('x sys_st_scheme, int) kernel" where
  "sys_fork =
     bnd fork (\<lambda>pidfork.
     bnd cur (\<lambda>p.
     thn (if pidfork = 0 then updp p (\<lambda>q. q\<lparr>p_scount := 0, p_ticket := 10\<rparr>) else inc_scount) (
     ret pidfork)))"

definition sys_exit :: "('x sys_st_scheme, int) kernel" where
  "sys_exit = thn inc_scount (thn exit (ret 0))"

definition sys_wait :: "('x sys_st_scheme, int) kernel" where
  "sys_wait = thn inc_scount wait"

definition sys_kill :: "('x sys_st_scheme, int) kernel" where
  "sys_kill =
     thn inc_scount (
     bnd (argint 0) (\<lambda>r.
     case r of None \<Rightarrow> ret (-1) | Some pid \<Rightarrow> kill (sint pid)))"

definition sys_getpid :: "('x sys_st_scheme, int) kernel" where
  "sys_getpid = thn inc_scount (bnd cur (\<lambda>p. gets (\<lambda>s. p_pid (ptab s p))))"

definition sys_sbrk :: "('x sys_st_scheme, int) kernel" where
  "sys_sbrk =
     thn inc_scount (
     bnd (argint 0) (\<lambda>r.
     case r of None \<Rightarrow> ret (-1) | Some n \<Rightarrow> (
       bnd cursz (\<lambda>addr.
       bnd (growproc (sint n)) (\<lambda>g.
       ret (if g < 0 then -1 else sint addr))))))"

text \<open>The difference of the ticks is compared as an unsigned number.\<close>

definition sys_sleep_loop :: "uint \<Rightarrow> uint \<Rightarrow> ('x sys_st_scheme, int) kernel" where
  "sys_sleep_loop ticks0 n =
     bnd (gets ticks) (\<lambda>t.
     if t - ticks0 < n then (
         bnd killed (\<lambda>k.
         if k then thn (rel TicksLock) (ret (-1)) else
         thn (sleep (Some ChanTicks) (Some TicksLock)) (
         ret 0))) else
     thn (rel TicksLock) (
     ret 0))"

definition sys_sleep :: "('x sys_st_scheme, int) kernel" where
  "sys_sleep =
     thn inc_scount (
     bnd (argint 0) (\<lambda>r.
     case r of None \<Rightarrow> ret (-1) | Some n \<Rightarrow> (
       thn (acq TicksLock) (
       bnd (gets ticks) (\<lambda>ticks0.
       sys_sleep_loop ticks0 n)))))"

definition sys_sleep_resume :: "uint \<Rightarrow> uint \<Rightarrow> ('x sys_st_scheme, int) kernel" where
  "sys_sleep_resume ticks0 n = thn (sleep_resume TicksLock) (sys_sleep_loop ticks0 n)"

definition sys_uptime :: "('x sys_st_scheme, int) kernel" where
  "sys_uptime =
     thn inc_scount (
     thn (acq TicksLock) (
     bnd (gets ticks) (\<lambda>xticks.
     thn (rel TicksLock) (
     ret (sint xticks)))))"

definition sys_count :: "('x sys_st_scheme, int) kernel" where
  "sys_count = thn inc_scount (bnd cur (\<lambda>p. gets (\<lambda>s. p_scount (ptab s p))))"

end
