(* ===== verification/Exec.thy ===== *)
theory Exec
  imports Syscall
begin

text \<open>
  Model of \<^verbatim>\<open>exec.c\<close> and of \<^verbatim>\<open>loaduvm\<close> of \<^verbatim>\<open>vm.c\<close>.  The headers of
  \<^verbatim>\<open>elf.h\<close> are read out of the bytes of the file.  The comparison of the result of
  \<^verbatim>\<open>readi\<close> with \<^verbatim>\<open>sizeof(elf)\<close> is unsigned, so a result of \<open>-1\<close> passes
  it and the header is used without having been read.
\<close>

section \<open>ELF headers (elf.h)\<close>

record elfhdr =
  elf_magic :: uint
  elf_entry :: uint
  elf_phoff :: uint
  elf_phnum :: ushort

record proghdr =
  ph_type :: uint
  ph_off :: uint
  ph_vaddr :: uint
  ph_filesz :: uint
  ph_memsz :: uint

definition decode_elf :: "byte list \<Rightarrow> elfhdr" where
  "decode_elf d = \<lparr>elf_magic = get32 d 0, elf_entry = get32 d 24, elf_phoff = get32 d 28, elf_phnum = get16 d 44\<rparr>"

definition decode_ph :: "byte list \<Rightarrow> proghdr" where
  "decode_ph d = \<lparr>ph_type = get32 d 0, ph_off = get32 d 4, ph_vaddr = get32 d 8,
     ph_filesz = get32 d 16, ph_memsz = get32 d 20\<rparr>"

section \<open>Loading\<close>

definition loaduvm :: "'x sys_st_scheme devsw \<Rightarrow> uint \<Rightarrow> uint \<Rightarrow> nat \<Rightarrow> uint \<Rightarrow> uint \<Rightarrow> ('x sys_st_scheme, int) kernel" where
  "loaduvm devsw pgdir addr ip offset sz =
    (if addr mod 4096 \<noteq> 0 then panic ''loaduvm: addr must be page aligned'' else
     bnd (scanM [0..<(unat sz + 4095) div 4096] (\<lambda>k. (
       let i = of_nat k * 4096 in
       bnd (walkpgdir pgdir (addr + i) False) (\<lambda>pte.
       if pte = 0 then panic ''loaduvm: address should exist'' else
       bnd (rd32 pte) (\<lambda>e.
       let n = (if sz - i < 4096 then sz - i else 4096) in
       bnd (readi devsw ip (offset + i) n) (\<lambda>(x, bs).
       thn (modify (\<lambda>s. s\<lparr>mem := store_bytes (mem s) (p2v (PTE_ADDR e)) bs\<rparr>)) (
       ret (if x \<noteq> sint n then Some () else None)))))))) (\<lambda>r.
     ret (case r of Some _ \<Rightarrow> -1 | None \<Rightarrow> 0)))"

text \<open>The label \<^verbatim>\<open>bad\<close>, with the inode still locked or already put.\<close>

definition exec_bad :: "uint \<Rightarrow> nat option \<Rightarrow> ('x sys_st_scheme, int) kernel" where
  "exec_bad pgdir ip =
     thn (whenk (pgdir \<noteq> 0) (freevm pgdir)) (
     thn (case ip of Some i \<Rightarrow> thn (iunlockput i) end_op | None \<Rightarrow> ret ()) (
     ret (-1)))"

text \<open>One program header: the new size, or \<open>None\<close> for \<^verbatim>\<open>goto bad\<close>.\<close>

definition load_segment :: "'x sys_st_scheme devsw \<Rightarrow> uint \<Rightarrow> nat \<Rightarrow> uint \<Rightarrow> uint \<Rightarrow> ('x sys_st_scheme, uint option) kernel" where
  "load_segment devsw pgdir ip off sz =
     bnd (readi devsw ip off 32) (\<lambda>(r, bs).
     if r \<noteq> 32 then ret None else
     let ph = decode_ph bs in
     if ph_type ph \<noteq> 1 then ret (Some sz) else
     if ph_memsz ph < ph_filesz ph then ret None else
     bnd (allocuvm pgdir sz (ph_vaddr ph + ph_memsz ph)) (\<lambda>sz.
     if sz = 0 then ret None else
     bnd (loaduvm devsw pgdir (ph_vaddr ph) ip (ph_off ph) (ph_filesz ph)) (\<lambda>l.
     ret (if l < 0 then None else Some sz))))"

fun load_segments :: "'x sys_st_scheme devsw \<Rightarrow> uint \<Rightarrow> nat \<Rightarrow> uint \<Rightarrow> nat \<Rightarrow> uint \<Rightarrow> ('x sys_st_scheme, uint option) kernel" where
  "load_segments devsw pgdir ip off 0 sz = ret (Some sz)"
| "load_segments devsw pgdir ip off (Suc n) sz =
     bnd (load_segment devsw pgdir ip off sz) (\<lambda>r.
     case r of
        None \<Rightarrow> ret None
      | Some sz \<Rightarrow> load_segments devsw pgdir ip (off + 32) n sz)"

text \<open>
  Pushing the argument strings: the new stack pointer and the addresses of the strings, or
  \<open>None\<close> for \<^verbatim>\<open>goto bad\<close>.
\<close>

fun push_args :: "uint \<Rightarrow> byte list list \<Rightarrow> nat \<Rightarrow> uint \<Rightarrow> ('x sys_st_scheme, (uint \<times> uint list) option) kernel" where
  "push_args pgdir [] argc sp = ret (Some (sp, []))"
| "push_args pgdir (a # argv) argc sp =
    (if 32 \<le> argc then ret None else
     let sp = (sp - (of_nat (length a) + 1)) AND NOT 3 in
     bnd (copyout pgdir sp (a @ [0])) (\<lambda>r.
     if r < 0 then ret None else
     bnd (push_args pgdir argv (Suc argc) sp) (\<lambda>rest.
     ret (map_option (\<lambda>(sp', us). (sp', sp # us)) rest))))"

text \<open>The name of the program: what follows the last slash.\<close>

definition last_elem :: "byte list \<Rightarrow> byte list" where
  "last_elem path = rev (takeWhile (\<lambda>c. c \<noteq> slash) (rev path))"

definition exec_commit :: "byte list \<Rightarrow> uint \<Rightarrow> uint \<Rightarrow> uint \<Rightarrow> uint \<Rightarrow> ('x sys_st_scheme, int) kernel" where
  "exec_commit path pgdir sz entry sp =
     bnd cur (\<lambda>p.
     thn (updp p (\<lambda>q. q\<lparr>p_name := safestrcpy (p_name q) (rd (last_elem path @ [0])) 16\<rparr>)) (
     bnd (gets (\<lambda>s. p_pgdir (ptab s p))) (\<lambda>oldpgdir.
     thn (updp p (\<lambda>q. q\<lparr>p_pgdir := pgdir, p_sz := sz\<rparr>)) (
     bnd (gets (\<lambda>s. p_tf (ptab s p))) (\<lambda>tf.
     thn (wr32 (tf + TF_EIP) entry) (
     thn (wr32 (tf + TF_ESP) sp) (
     thn (switchuvm p) (
     thn (freevm oldpgdir) (
     ret 0)))))))))"

definition exec_stack :: "byte list \<Rightarrow> byte list list \<Rightarrow> uint \<Rightarrow> uint \<Rightarrow> uint \<Rightarrow> ('x sys_st_scheme, int) kernel" where
  "exec_stack path argv pgdir sz0 entry =
    (let sz = PGROUNDUP sz0 in
     bnd (allocuvm pgdir sz (sz + 2 * 4096)) (\<lambda>sz.
     if sz = 0 then exec_bad pgdir None else
     thn (clearpteu pgdir (sz - 2 * 4096)) (
     bnd (push_args pgdir argv 0 sz) (\<lambda>r.
     case r of None \<Rightarrow> exec_bad pgdir None | Some (sp, us) \<Rightarrow> (
       let argc = length us; ustack = [0xFFFFFFFF, of_nat argc, sp - (of_nat argc + 1) * 4] @ us @ [0];
         sp = sp - (3 + of_nat argc + 1) * 4 in
       bnd (copyout pgdir sp (concat (map word_bytes ustack))) (\<lambda>c.
       if c < 0 then exec_bad pgdir None else
       exec_commit path pgdir sz entry sp))))))"

definition exec :: "'x sys_st_scheme devsw \<Rightarrow> byte list \<Rightarrow> byte list list \<Rightarrow> ('x sys_st_scheme, int) kernel" where
  "exec devsw path argv =
     thn begin_op (
     bnd (namei devsw path) (\<lambda>r.
     case r of None \<Rightarrow> thn end_op (ret (-1)) | Some ip \<Rightarrow> (
       thn (ilock ip) (
       bnd (readi devsw ip 0 52) (\<lambda>(n, bs).
       if (word_of_int n :: uint) < 52 then exec_bad 0 (Some ip) else
       if n \<noteq> 52 then undef else
       let elf = decode_elf bs in
       if elf_magic elf \<noteq> 0x464C457F then exec_bad 0 (Some ip) else
       bnd setupkvm (\<lambda>pgdir.
       if pgdir = 0 then exec_bad 0 (Some ip) else
       bnd (load_segments devsw pgdir ip (elf_phoff elf) (unat (elf_phnum elf)) 0) (\<lambda>s.
       case s of None \<Rightarrow> exec_bad pgdir (Some ip) | Some sz \<Rightarrow> (
         thn (iunlockput ip) (
         thn end_op (
         exec_stack path argv pgdir sz (elf_entry elf)))))))))))"

end
