(* ===== verification/Sysfile.thy ===== *)
theory Sysfile
  imports Exec
begin

text \<open>
  Model of \<^verbatim>\<open>sysfile.c\<close>, the system calls on files, and of the dispatcher
  \<^verbatim>\<open>syscall\<close>.  A \<^verbatim>\<open>goto bad\<close> is a call of the code at the label.
\<close>

section \<open>Descriptors\<close>

definition argfd :: "nat \<Rightarrow> ('x sys_st_scheme, (nat \<times> nat) option) kernel" where
  "argfd n =
     bnd (argint n) (\<lambda>r.
     case r of None \<Rightarrow> ret None | Some fd \<Rightarrow> (
        bnd cur (\<lambda>p.
        if sint fd < 0 \<or> int NOFILE \<le> sint fd then ret None else
        bnd (gets (\<lambda>s. p_ofile (ptab s p) ! unat fd)) (\<lambda>f.
        ret (map_option (\<lambda>f. (unat fd, f)) f)))))"

definition fdalloc :: "nat \<Rightarrow> ('x sys_st_scheme, nat option) kernel" where
  "fdalloc f =
     bnd cur (\<lambda>p.
     bnd (gets (\<lambda>s. find (\<lambda>fd. p_ofile (ptab s p) ! fd = None) [0..<NOFILE])) (\<lambda>r.
     case r of
        None \<Rightarrow> ret None
      | Some fd \<Rightarrow> thn (updp p (\<lambda>q. q\<lparr>p_ofile := (p_ofile q)[fd := Some f]\<rparr>)) (ret (Some fd))))"

definition sys_dup :: "('x sys_st_scheme, int) kernel" where
  "sys_dup =
     bnd (argfd 0) (\<lambda>r.
     case r of None \<Rightarrow> ret (-1) | Some (_, f) \<Rightarrow> (
        bnd (fdalloc f) (\<lambda>fd.
        case fd of None \<Rightarrow> ret (-1) | Some fd \<Rightarrow> (
           bnd (filedup f) (\<lambda>_.
           ret (int fd))))))"

text \<open>The three arguments of \<^verbatim>\<open>read\<close> and \<^verbatim>\<open>write\<close>, fetched in the order of the code.\<close>

definition arg_rw :: "('x sys_st_scheme, (nat \<times> int \<times> uint) option) kernel" where
  "arg_rw =
     bnd (argfd 0) (\<lambda>r.
     case r of None \<Rightarrow> ret None | Some (_, f) \<Rightarrow> (
        bnd (argint 2) (\<lambda>m.
        case m of None \<Rightarrow> ret None | Some n \<Rightarrow> (
           bnd (argptr 1 (sint n)) (\<lambda>q.
           ret (map_option (\<lambda>p. (f, sint n, p)) q))))))"

definition sys_read :: "'x sys_st_scheme devsw \<Rightarrow> ('x sys_st_scheme, int) kernel" where
  "sys_read devsw =
     thn inc_scount (
     bnd arg_rw (\<lambda>r.
     case r of None \<Rightarrow> ret (-1) | Some (f, n, p) \<Rightarrow> (
        bnd (fileread devsw f n) (\<lambda>(k, bs).
        thn (ustore_bytes p bs) (
        ret k)))))"

definition sys_write :: "'x sys_st_scheme devsw \<Rightarrow> ('x sys_st_scheme, int) kernel" where
  "sys_write devsw =
     thn inc_scount (
     bnd arg_rw (\<lambda>r.
     case r of None \<Rightarrow> ret (-1) | Some (f, n, p) \<Rightarrow> (
        bnd (uload_bytes p (nat n)) (\<lambda>bs.
        filewrite devsw f bs))))"

definition sys_close :: "('x sys_st_scheme, int) kernel" where
  "sys_close =
     thn inc_scount (
     bnd (argfd 0) (\<lambda>r.
     case r of None \<Rightarrow> ret (-1) | Some (fd, f) \<Rightarrow> (
        bnd cur (\<lambda>p.
        thn (updp p (\<lambda>q. q\<lparr>p_ofile := (p_ofile q)[fd := None]\<rparr>)) (
        thn (fileclose f) (
        ret 0))))))"

text \<open>The fields of \<^verbatim>\<open>struct stat\<close> at their offsets; the padding is not written.\<close>

definition sys_fstat :: "('x sys_st_scheme, int) kernel" where
  "sys_fstat =
     thn inc_scount (
     bnd (argfd 0) (\<lambda>r.
     case r of None \<Rightarrow> ret (-1) | Some (_, f) \<Rightarrow> (
        bnd (argptr 1 20) (\<lambda>q.
        case q of None \<Rightarrow> ret (-1) | Some st \<Rightarrow> (
           bnd (filestat f) (\<lambda>x.
           case x of None \<Rightarrow> ret (-1) | Some v \<Rightarrow> (
              thn (ustore_bytes (st + 4) (word_bytes (st_dev v))) (
              thn (ustore_bytes (st + 8) (word_bytes (st_ino v))) (
              thn (ustore_bytes st (put16 [0, 0] 0 (st_type v))) (
              thn (ustore_bytes (st + 12) (put16 [0, 0] 0 (st_nlink v))) (
              thn (ustore_bytes (st + 16) (word_bytes (st_size v))) (
              ret 0))))))))))))"

section \<open>Names\<close>

definition upd_nlink :: "nat \<Rightarrow> ushort \<Rightarrow> ('x sys_st_scheme, unit) kernel" where
  "upd_nlink ip d = thn (upi ip (\<lambda>n. n\<lparr>i_nlink := i_nlink n + d\<rparr>)) (iupdate ip)"

definition link_bad :: "nat \<Rightarrow> ('x sys_st_scheme, int) kernel" where
  "link_bad ip =
     thn (ilock ip) (
     thn (upd_nlink ip (-1)) (
     thn (iunlockput ip) (
     thn end_op (
     ret (-1)))))"

definition sys_link :: "'x sys_st_scheme devsw \<Rightarrow> ('x sys_st_scheme, int) kernel" where
  "sys_link devsw =
     thn inc_scount (
     bnd (argstr 0) (\<lambda>a.
     case a of None \<Rightarrow> ret (-1) | Some old \<Rightarrow> (
      bnd (argstr 1) (\<lambda>b.
      case b of None \<Rightarrow> ret (-1) | Some new \<Rightarrow> (
       thn begin_op (
       bnd (namei devsw old) (\<lambda>r.
       case r of None \<Rightarrow> thn end_op (ret (-1)) | Some ip \<Rightarrow> (
          thn (ilock ip) (
          bnd (gets (\<lambda>s. i_type (inodes s ip))) (\<lambda>t.
          if t = T_DIR then thn (iunlockput ip) (thn end_op (ret (-1))) else
          thn (upd_nlink ip 1) (
          thn (iunlock ip) (
          bnd (nameiparent devsw new) (\<lambda>q.
          case q of None \<Rightarrow> link_bad ip | Some (dp, name) \<Rightarrow> (
             thn (ilock dp) (
             bnd (gets (\<lambda>s. i_dev (inodes s dp) = i_dev (inodes s ip))) (\<lambda>same.
             bnd (gets (\<lambda>s. i_inum (inodes s ip))) (\<lambda>inum.
             bnd (if same then dirlink devsw dp name inum else ret (-1)) (\<lambda>l.
             if l < 0 then thn (iunlockput dp) (link_bad ip) else
             thn (iunlockput dp) (
             thn (iput ip) (
             thn end_op (
             ret 0)))))))))))))))))))))"

definition isdirempty :: "'x sys_st_scheme devsw \<Rightarrow> nat \<Rightarrow> ('x sys_st_scheme, bool) kernel" where
  "isdirempty devsw dp =
     bnd (gets (\<lambda>s. i_size (inodes s dp))) (\<lambda>size.
     bnd (scanM (drop 2 (dir_offs size)) (\<lambda>off. (
        bnd (readi devsw dp (of_nat off) 16) (\<lambda>(k, de).
        if k \<noteq> 16 then panic ''isdirempty: readi'' else
        ret (if get16 de 0 \<noteq> 0 then Some () else None))))) (\<lambda>r.
     ret (r = None)))"

definition unlink_bad :: "nat \<Rightarrow> ('x sys_st_scheme, int) kernel" where
  "unlink_bad dp = thn (iunlockput dp) (thn end_op (ret (-1)))"

definition sys_unlink :: "'x sys_st_scheme devsw \<Rightarrow> ('x sys_st_scheme, int) kernel" where
  "sys_unlink devsw =
     thn inc_scount (
     bnd (argstr 0) (\<lambda>a.
     case a of None \<Rightarrow> ret (-1) | Some path \<Rightarrow> (
      thn begin_op (
      bnd (nameiparent devsw path) (\<lambda>r.
      case r of None \<Rightarrow> thn end_op (ret (-1)) | Some (dp, name) \<Rightarrow> (
         thn (ilock dp) (
         if namecmp name (lit ''.'') = 0 \<or> namecmp name (lit ''..'') = 0 then unlink_bad dp else
         bnd (dirlookup devsw dp name) (\<lambda>l.
         case l of None \<Rightarrow> unlink_bad dp | Some (ip, off) \<Rightarrow> (
            thn (ilock ip) (
            bnd (gets (\<lambda>s. inodes s ip)) (\<lambda>i.
            if sint (i_nlink i) < 1 then panic ''unlink: nlink < 1'' else
            bnd (if i_type i = T_DIR then isdirempty devsw ip else ret True) (\<lambda>e.
            if \<not> e then thn (iunlockput ip) (unlink_bad dp) else
            bnd (writei devsw dp (replicate 16 0) off 16) (\<lambda>w.
            if w \<noteq> 16 then panic ''unlink: writei'' else
            thn (whenk (i_type i = T_DIR) (upd_nlink dp (-1))) (
            thn (iunlockput dp) (
            thn (upd_nlink ip (-1)) (
            thn (iunlockput ip) (
            thn end_op (
            ret 0))))))))))))))))))"

text \<open>The directory entries of a new directory, without the final link from its parent.\<close>

definition create_dots :: "'x sys_st_scheme devsw \<Rightarrow> nat \<Rightarrow> nat \<Rightarrow> ('x sys_st_scheme, unit) kernel" where
  "create_dots devsw dp ip =
     thn (upd_nlink dp 1) (
     bnd (gets (\<lambda>s. i_inum (inodes s ip))) (\<lambda>iinum.
     bnd (gets (\<lambda>s. i_inum (inodes s dp))) (\<lambda>dinum.
     bnd (dirlink devsw ip (lit ''.'') iinum) (\<lambda>a.
     if a < 0 then panic ''create dots'' else
     bnd (dirlink devsw ip (lit ''..'') dinum) (\<lambda>b.
     whenk (b < 0) (panic ''create dots''))))))"

definition create :: "'x sys_st_scheme devsw \<Rightarrow> byte list \<Rightarrow> ushort \<Rightarrow> ushort \<Rightarrow> ushort \<Rightarrow> ('x sys_st_scheme, nat option) kernel" where
  "create devsw path type major minor =
     bnd (nameiparent devsw path) (\<lambda>r.
     case r of None \<Rightarrow> ret None | Some (dp, name) \<Rightarrow> (
      thn (ilock dp) (
      bnd (dirlookup devsw dp name) (\<lambda>l.
      case l of
         Some (ip, _) \<Rightarrow> (
            thn (iunlockput dp) (
            thn (ilock ip) (
            bnd (gets (\<lambda>s. i_type (inodes s ip))) (\<lambda>t.
            if type = T_FILE \<and> t = T_FILE then ret (Some ip) else
            thn (iunlockput ip) (
            ret None)))))
       | None \<Rightarrow> (
            bnd (gets (\<lambda>s. i_dev (inodes s dp))) (\<lambda>dev.
            bnd (ialloc dev type) (\<lambda>ip.
            thn (ilock ip) (
            thn (upi ip (\<lambda>n. n\<lparr>i_major := major, i_minor := minor, i_nlink := 1\<rparr>)) (
            thn (iupdate ip) (
            thn (whenk (type = T_DIR) (create_dots devsw dp ip)) (
            bnd (gets (\<lambda>s. i_inum (inodes s ip))) (\<lambda>inum.
            bnd (dirlink devsw dp name inum) (\<lambda>x.
            if x < 0 then panic ''create: dirlink'' else
            thn (iunlockput dp) (
            ret (Some ip)))))))))))))))"

text \<open>The inode \<^verbatim>\<open>open\<close> works on, locked, or \<open>None\<close> after the error exits.\<close>

definition open_inode :: "'x sys_st_scheme devsw \<Rightarrow> byte list \<Rightarrow> uint \<Rightarrow> ('x sys_st_scheme, nat option) kernel" where
  "open_inode devsw path omode =
     (if omode AND 0x200 \<noteq> 0 then (
         bnd (create devsw path T_FILE 0 0) (\<lambda>c.
         thn (whenk (c = None) end_op) (
         ret c)))
      else (
         bnd (namei devsw path) (\<lambda>r.
         case r of None \<Rightarrow> thn end_op (ret None) | Some ip \<Rightarrow> (
            thn (ilock ip) (
            bnd (gets (\<lambda>s. i_type (inodes s ip))) (\<lambda>t.
            if t = T_DIR \<and> omode \<noteq> 0 then thn (iunlockput ip) (thn end_op (ret None)) else
            ret (Some ip)))))))"

definition open_bad :: "nat option \<Rightarrow> nat \<Rightarrow> ('x sys_st_scheme, int) kernel" where
  "open_bad f ip =
     thn (case f of Some f \<Rightarrow> fileclose f | None \<Rightarrow> ret ()) (
     thn (iunlockput ip) (
     thn end_op (
     ret (-1))))"

definition sys_open :: "'x sys_st_scheme devsw \<Rightarrow> ('x sys_st_scheme, int) kernel" where
  "sys_open devsw =
     thn inc_scount (
     bnd (argstr 0) (\<lambda>a.
     case a of None \<Rightarrow> ret (-1) | Some path \<Rightarrow> (
      bnd (argint 1) (\<lambda>m.
      case m of None \<Rightarrow> ret (-1) | Some omode \<Rightarrow> (
       thn begin_op (
       bnd (open_inode devsw path omode) (\<lambda>r.
       case r of None \<Rightarrow> ret (-1) | Some ip \<Rightarrow> (
          bnd filealloc (\<lambda>f.
          case f of None \<Rightarrow> open_bad None ip | Some f \<Rightarrow> (
             bnd (fdalloc f) (\<lambda>fd.
             case fd of None \<Rightarrow> open_bad (Some f) ip | Some fd \<Rightarrow> (
                thn (iunlock ip) (
                thn end_op (
                thn (upf f (\<lambda>g. g\<lparr>f_type := FD_INODE, f_ip := ip, f_off := 0, f_readable := (omode AND 1 = 0),
                  f_writable := (omode AND 1 \<noteq> 0 \<or> omode AND 2 \<noteq> 0)\<rparr>)) (
                ret (int fd))))))))))))))))"

definition sys_mkdir :: "'x sys_st_scheme devsw \<Rightarrow> ('x sys_st_scheme, int) kernel" where
  "sys_mkdir devsw =
     thn inc_scount (
     thn begin_op (
     bnd (argstr 0) (\<lambda>a.
     bnd (case a of None \<Rightarrow> ret None | Some path \<Rightarrow> create devsw path T_DIR 0 0) (\<lambda>r.
     case r of None \<Rightarrow> thn end_op (ret (-1)) | Some ip \<Rightarrow> (
        thn (iunlockput ip) (
        thn end_op (
        ret 0)))))))"

definition sys_mknod :: "'x sys_st_scheme devsw \<Rightarrow> ('x sys_st_scheme, int) kernel" where
  "sys_mknod devsw =
     thn inc_scount (
     thn begin_op (
     bnd (argstr 0) (\<lambda>a.
     bnd (case a of None \<Rightarrow> ret None | Some path \<Rightarrow> (
        bnd (argint 1) (\<lambda>ma.
        case ma of None \<Rightarrow> ret None | Some major \<Rightarrow> (
           bnd (argint 2) (\<lambda>mi.
           case mi of None \<Rightarrow> ret None | Some minor \<Rightarrow>
             create devsw path T_DEV (ucast major) (ucast minor)))))) (\<lambda>r.
     case r of None \<Rightarrow> thn end_op (ret (-1)) | Some ip \<Rightarrow> (
        thn (iunlockput ip) (
        thn end_op (
        ret 0)))))))"

definition sys_chdir :: "'x sys_st_scheme devsw \<Rightarrow> ('x sys_st_scheme, int) kernel" where
  "sys_chdir devsw =
     thn inc_scount (
     thn begin_op (
     bnd (argstr 0) (\<lambda>a.
     bnd (case a of None \<Rightarrow> ret None | Some path \<Rightarrow> namei devsw path) (\<lambda>r.
     case r of None \<Rightarrow> thn end_op (ret (-1)) | Some ip \<Rightarrow> (
        thn (ilock ip) (
        bnd (gets (\<lambda>s. i_type (inodes s ip))) (\<lambda>t.
        if t \<noteq> T_DIR then thn (iunlockput ip) (thn end_op (ret (-1))) else
        thn (iunlock ip) (
        bnd cur (\<lambda>p.
        bnd (gets (\<lambda>s. p_cwd (ptab s p))) (\<lambda>cwd.
        thn (case cwd of None \<Rightarrow> undef | Some c \<Rightarrow> iput c) (
        thn end_op (
        thn (updp p (p_cwd_update (\<lambda>_. Some ip))) (
        ret 0)))))))))))))"

text \<open>The loop of \<^verbatim>\<open>sys_exec\<close>: the argument strings, from argument \<open>i\<close> on, with \<open>n\<close> entries
  of the array left.\<close>

fun exec_args :: "uint \<Rightarrow> nat \<Rightarrow> nat \<Rightarrow> ('x sys_st_scheme, byte list list option) kernel" where
  "exec_args uargv i 0 = ret None"
| "exec_args uargv i (Suc n) =
     bnd (fetchint (uargv + 4 * of_nat i)) (\<lambda>r.
     case r of None \<Rightarrow> ret None | Some uarg \<Rightarrow> (
        if uarg = 0 then ret (Some []) else
        bnd (fetchstr uarg) (\<lambda>a.
        case a of None \<Rightarrow> ret None | Some a \<Rightarrow> (
           bnd (exec_args uargv (Suc i) n) (\<lambda>rest.
           ret (map_option (\<lambda>as. a # as) rest))))))"

definition sys_exec :: "'x sys_st_scheme devsw \<Rightarrow> ('x sys_st_scheme, int) kernel" where
  "sys_exec devsw =
     thn inc_scount (
     bnd (argstr 0) (\<lambda>a.
     case a of None \<Rightarrow> ret (-1) | Some path \<Rightarrow> (
      bnd (argint 1) (\<lambda>u.
      case u of None \<Rightarrow> ret (-1) | Some uargv \<Rightarrow> (
       bnd (exec_args uargv 0 32) (\<lambda>argv.
       case argv of None \<Rightarrow> ret (-1) | Some argv \<Rightarrow> exec devsw path argv))))))"

definition sys_pipe :: "('x sys_st_scheme, int) kernel" where
  "sys_pipe =
     thn inc_scount (
     bnd (argptr 0 8) (\<lambda>a.
     case a of None \<Rightarrow> ret (-1) | Some fd \<Rightarrow> (
      bnd pipealloc (\<lambda>r.
      case r of None \<Rightarrow> ret (-1) | Some (rf, wfl) \<Rightarrow> (
         bnd cur (\<lambda>p.
         bnd (fdalloc rf) (\<lambda>r0.
         bnd (case r0 of None \<Rightarrow> ret None | Some _ \<Rightarrow> fdalloc wfl) (\<lambda>r1.
         case (r0, r1) of
            (Some fd0, Some fd1) \<Rightarrow> (
               thn (ustore_bytes fd (word_bytes (of_nat fd0))) (
               thn (ustore_bytes (fd + 4) (word_bytes (of_nat fd1))) (
               ret 0)))
          | _ \<Rightarrow> (
               thn (case r0 of Some fd0 \<Rightarrow> updp p (\<lambda>q. q\<lparr>p_ofile := (p_ofile q)[fd0 := None]\<rparr>) | None \<Rightarrow> ret ()) (
               thn (fileclose rf) (
               thn (fileclose wfl) (
               ret (-1)))))))))))))"

section \<open>The dispatcher (syscall.c)\<close>

definition syscalls :: "'x sys_st_scheme devsw \<Rightarrow> int \<Rightarrow> ('x sys_st_scheme, int) kernel option" where
  "syscalls devsw num =
     (if num = 1 then Some sys_fork else if num = 2 then Some sys_exit
      else if num = 3 then Some sys_wait else if num = 4 then Some sys_pipe
      else if num = 5 then Some (sys_read devsw) else if num = 6 then Some sys_kill
      else if num = 7 then Some (sys_exec devsw) else if num = 8 then Some sys_fstat
      else if num = 9 then Some (sys_chdir devsw) else if num = 10 then Some sys_dup
      else if num = 11 then Some sys_getpid else if num = 12 then Some sys_sbrk
      else if num = 13 then Some sys_sleep else if num = 14 then Some sys_uptime
      else if num = 15 then Some (sys_open devsw) else if num = 16 then Some (sys_write devsw)
      else if num = 17 then Some (sys_mknod devsw) else if num = 18 then Some (sys_unlink devsw)
      else if num = 19 then Some (sys_link devsw) else if num = 20 then Some (sys_mkdir devsw)
      else if num = 21 then Some sys_close else if num = 22 then Some sys_count
      else None)"

definition syscall :: "'x sys_st_scheme devsw \<Rightarrow> ('x sys_st_scheme, unit) kernel" where
  "syscall devsw =
     bnd cur (\<lambda>p.
     bnd (gets (\<lambda>s. p_tf (ptab s p))) (\<lambda>tf.
     bnd (rd32 (tf + TF_EAX)) (\<lambda>num.
     case syscalls devsw (sint num) of
        Some f \<Rightarrow> (
           bnd f (\<lambda>r.
           bnd (gets (\<lambda>s. p_tf (ptab s p))) (\<lambda>tf.
           wr32 (tf + TF_EAX) (word_of_int r))))
      | None \<Rightarrow> wr32 (tf + TF_EAX) (-1))))"

end
