(* ===== verification/Kbd.thy ===== *)
theory Kbd
  imports Prelude
begin

text \<open>
  Model of the keyboard driver \<^verbatim>\<open>kbd.c\<close> with the tables of \<^verbatim>\<open>kbd.h\<close>.  The
  controller delivers a list of scan codes; \<^verbatim>\<open>kbdgetc\<close> turns one of them into a character,
  or into 0, and keeps the state of the modifier keys.
\<close>

text \<open>An array with an initialised prefix, designated entries, and zeros elsewhere.\<close>

definition table_get :: "byte list \<Rightarrow> (nat \<times> byte) list \<Rightarrow> nat \<Rightarrow> byte" where
  "table_get xs ex i = (if i < length xs then xs ! i else case map_of ex i of Some v \<Rightarrow> v | None \<Rightarrow> 0)"

definition shiftcode :: "nat \<Rightarrow> byte" where
  "shiftcode = table_get
     []
     [(0x1D, 2), (0x2A, 1), (0x36, 1), (0x38, 4), (0x9D, 2), (0xB8, 4)]"

definition togglecode :: "nat \<Rightarrow> byte" where
  "togglecode = table_get
     []
     [(0x3A, 8), (0x45, 16), (0x46, 32)]"

definition normalmap :: "nat \<Rightarrow> byte" where
  "normalmap = table_get
     [0, 27, 49, 50, 51, 52, 53, 54, 55, 56, 57, 48, 45, 61, 8, 9,
      113, 119, 101, 114, 116, 121, 117, 105, 111, 112, 91, 93, 10, 0, 97, 115,
      100, 102, 103, 104, 106, 107, 108, 59, 39, 96, 0, 92, 122, 120, 99, 118,
      98, 110, 109, 44, 46, 47, 0, 42, 0, 32, 0, 0, 0, 0, 0, 0,
      0, 0, 0, 0, 0, 0, 0, 55, 56, 57, 45, 52, 53, 54, 43, 49,
      50, 51, 48, 46, 0, 0, 0, 0]
     [(0x9C, 10), (0xB5, 47), (0xC8, 226), (0xD0, 227), (0xC9, 230), (0xD1, 231), (0xCB, 228), (0xCD, 229),
      (0x97, 224), (0xCF, 225), (0xD2, 232), (0xD3, 233)]"

definition shiftmap :: "nat \<Rightarrow> byte" where
  "shiftmap = table_get
     [0, 27, 33, 64, 35, 36, 37, 94, 38, 42, 40, 41, 95, 43, 8, 9,
      81, 87, 69, 82, 84, 89, 85, 73, 79, 80, 123, 125, 10, 0, 65, 83,
      68, 70, 71, 72, 74, 75, 76, 58, 34, 126, 0, 124, 90, 88, 67, 86,
      66, 78, 77, 60, 62, 63, 0, 42, 0, 32, 0, 0, 0, 0, 0, 0,
      0, 0, 0, 0, 0, 0, 0, 55, 56, 57, 45, 52, 53, 54, 43, 49,
      50, 51, 48, 46, 0, 0, 0, 0]
     [(0x9C, 10), (0xB5, 47), (0xC8, 226), (0xD0, 227), (0xC9, 230), (0xD1, 231), (0xCB, 228), (0xCD, 229),
      (0x97, 224), (0xCF, 225), (0xD2, 232), (0xD3, 233)]"

definition ctlmap :: "nat \<Rightarrow> byte" where
  "ctlmap = table_get
     [0, 0, 0, 0, 0, 0, 0, 0, 0, 0, 0, 0, 0, 0, 0, 0,
      17, 23, 5, 18, 20, 25, 21, 9, 15, 16, 0, 0, 13, 0, 1, 19,
      4, 6, 7, 8, 10, 11, 12, 0, 0, 0, 0, 28, 26, 24, 3, 22,
      2, 14, 13, 0, 0, 239, 0, 0]
     [(0x9C, 13), (0xB5, 239), (0xC8, 226), (0xD0, 227), (0xC9, 230), (0xD1, 231), (0xCB, 228), (0xCD, 229),
      (0x97, 224), (0xCF, 225), (0xD2, 232), (0xD3, 233)]"

abbreviation (input) SHIFT :: uint where "SHIFT \<equiv> 1"
abbreviation (input) CTL :: uint where "CTL \<equiv> 2"
abbreviation (input) CAPSLOCK :: uint where "CAPSLOCK \<equiv> 8"
abbreviation (input) E0ESC :: uint where "E0ESC \<equiv> 64"

definition charcode :: "uint \<Rightarrow> nat \<Rightarrow> byte" where
  "charcode k = (if k = 0 then normalmap else if k = 1 then shiftmap else ctlmap)"

text \<open>\<^verbatim>\<open>kbdgetc\<close> on a scan code, with the static variable \<^verbatim>\<open>shift\<close> threaded through.\<close>

definition kbdgetc :: "uint \<Rightarrow> byte \<Rightarrow> uint \<times> nat" where
  "kbdgetc shift code =
     (let data = unat code in
      if data = 0xE0 then (shift OR E0ESC, 0)
      else if 0x80 \<le> data then
        let data = (if shift AND E0ESC \<noteq> 0 then data else data - 0x80) in
        (shift AND NOT (ucast (shiftcode data) OR E0ESC), 0)
      else
        let (data, shift) = (if shift AND E0ESC \<noteq> 0 then (data + 0x80, shift AND NOT E0ESC) else (data, shift));
          shift = (shift OR ucast (shiftcode data)) XOR ucast (togglecode data);
          c = unat (charcode (shift AND (CTL OR SHIFT)) data) in
        (shift,
         if shift AND CAPSLOCK \<noteq> 0 then
           if 97 \<le> c \<and> c \<le> 122 then c - 32 else if 65 \<le> c \<and> c \<le> 90 then c + 32 else c
         else c))"

text \<open>What the successive calls of \<^verbatim>\<open>kbdgetc\<close> return until the controller has no more data.\<close>

fun kbd_chars :: "uint \<Rightarrow> byte list \<Rightarrow> uint \<times> nat list" where
  "kbd_chars shift [] = (shift, [])"
| "kbd_chars shift (x # xs) =
     (let (shift, c) = kbdgetc shift x; (shift, cs) = kbd_chars shift xs in (shift, c # cs))"

end
