(* ===== verification/Console.thy ===== *)
theory Console
  imports Sysfile Kbd
begin

text \<open>
  Model of \<^verbatim>\<open>console.c\<close>, of the character output of \<^verbatim>\<open>uart.c\<close>, and of
  \<^verbatim>\<open>kbdintr\<close> and \<^verbatim>\<open>uartintr\<close>.  The screen memory and the cursor register of the
  display are state, and so is the sequence of bytes sent to the serial port; waiting for the
  port to be ready has no effect on the state.  The characters an interrupt delivers are an
  argument.  \<^verbatim>\<open>procdump\<close> only prints.
\<close>

section \<open>State\<close>

record cons_st = sys_st +
  cons_locking :: bool
  panicked :: bool
  crt :: "nat \<Rightarrow> ushort"
  crt_pos :: nat
  uart :: bool
  uart_out :: "byte list"
  in_buf :: "byte list"
  in_r :: uint
  in_w :: uint
  in_e :: uint
  kbd_shift :: uint

abbreviation (input) BACKSPACE :: nat where "BACKSPACE \<equiv> 0x100"
abbreviation (input) INPUT_BUF :: nat where "INPUT_BUF \<equiv> 128"

section \<open>Output\<close>

definition uartputc :: "byte \<Rightarrow> ('x cons_st_scheme, unit) kernel" where
  "uartputc c = modify (\<lambda>s. if uart s then s\<lparr>uart_out := uart_out s @ [c]\<rparr> else s)"

text \<open>The cursor register keeps sixteen bits.\<close>

definition cgaputc :: "nat \<Rightarrow> ('x cons_st_scheme, unit) kernel" where
  "cgaputc c =
     bnd (gets crt_pos) (\<lambda>pos.
     bnd (if c = 10 then ret (pos + (80 - pos mod 80))
       else if c = BACKSPACE then ret (if 0 < pos then pos - 1 else pos)
       else thn (modify (\<lambda>s. s\<lparr>crt := (crt s)(pos := of_nat (c mod 256) OR 0x700)\<rparr>)) (ret (pos + 1))) (\<lambda>pos.
     if 25 * 80 < pos then panic ''pos under/overflow'' else
     bnd (if 24 \<le> pos div 80 then (
          thn (modify (\<lambda>s. s\<lparr>crt := \<lambda>i. if i < 23 * 80 then crt s (i + 80) else crt s i\<rparr>)) (
          let pos = pos - 80 in
          thn (modify (\<lambda>s. s\<lparr>crt := \<lambda>i. if pos \<le> i \<and> i < 24 * 80 then 0 else crt s i\<rparr>)) (
          ret pos)))
       else ret pos) (\<lambda>pos.
     thn (modify (\<lambda>s. s\<lparr>crt_pos := pos mod 65536\<rparr>)) (
     modify (\<lambda>s. s\<lparr>crt := (crt s)(pos := 0x720)\<rparr>)))))"

definition consputc :: "nat \<Rightarrow> ('x cons_st_scheme, unit) kernel" where
  "consputc c =
     bnd (gets panicked) (\<lambda>p.
     if p then (\<lambda>s. Spin) else
     thn (if c = BACKSPACE then thn (uartputc 8) (thn (uartputc 32) (uartputc 8)) else uartputc (of_nat c)) (
     cgaputc c))"

section \<open>Formatted output\<close>

text \<open>The digits of \<open>x\<close>, least significant first, as the loop of \<^verbatim>\<open>printint\<close> stores them.\<close>

definition digit :: "nat \<Rightarrow> byte" where
  "digit d = (if d < 10 then of_nat (48 + d) else of_nat (87 + d))"

function digits_of :: "nat \<Rightarrow> nat \<Rightarrow> byte list" where
  "digits_of base x = (if base < 2 then [digit x] else
     digit (x mod base) # (if x div base = 0 then [] else digits_of base (x div base)))"
  by pat_completeness auto
termination
proof (relation "measure snd", goal_cases)
  case (2 base x)
  then have "0 < x" by (cases x) auto
  then show ?case using 2 by simp
qed simp

declare digits_of.simps [simp del]

text \<open>What \<^verbatim>\<open>printint\<close> prints; \<open>-xx\<close> is computed modulo \<open>2 ^ 32\<close>.\<close>

definition printint :: "uint \<Rightarrow> nat \<Rightarrow> bool \<Rightarrow> byte list" where
  "printint xx base sg =
     (let neg = (sg \<and> sint xx < 0);
          x = (if neg then - xx else xx) in
      rev (digits_of base (unat x) @ (if neg then [45] else [])))"

text \<open>
  An argument of \<^verbatim>\<open>cprintf\<close> is a word or a pointer to a string, which may be null.  A
  format that asks for more arguments than there are reads past them.
\<close>

datatype parg = PInt uint | PStr "byte list option"

fun cprintf_loop :: "byte list \<Rightarrow> parg list \<Rightarrow> ('x cons_st_scheme, unit) kernel" where
  "cprintf_loop [] as = ret ()"
| "cprintf_loop (c # cs) as =
     (if c \<noteq> 37 then thn (consputc (unat c)) (cprintf_loop cs as) else
      case cs of
        [] \<Rightarrow> ret ()
      | d # cs \<Rightarrow>
          if d = 100 \<or> d = 120 \<or> d = 112 then
            (case as of
               PInt x # as \<Rightarrow>
                 thn (forM (if d = 100 then printint x 10 True else printint x 16 False) (\<lambda>b. consputc (unat b)))
                   (cprintf_loop cs as)
             | _ \<Rightarrow> undef)
          else if d = 115 then
            (case as of
               PStr p # as \<Rightarrow>
                 thn (forM (case p of Some s \<Rightarrow> s | None \<Rightarrow> butlast (lit ''(null)'')) (\<lambda>b. consputc (unat b)))
                   (cprintf_loop cs as)
             | _ \<Rightarrow> undef)
          else if d = 37 then thn (consputc 37) (cprintf_loop cs as)
          else thn (consputc 37) (thn (consputc (unat d)) (cprintf_loop cs as)))"

definition cprintf :: "byte list \<Rightarrow> parg list \<Rightarrow> ('x cons_st_scheme, unit) kernel" where
  "cprintf fmt as =
     bnd (gets cons_locking) (\<lambda>locking.
     thn (whenk locking (acq ConsLock)) (
     thn (cprintf_loop fmt as) (
     whenk locking (rel ConsLock))))"

section \<open>Input\<close>

text \<open>The loop that kills a line; it ends at the edit buffer's start, after at most its length.\<close>

fun kill_line :: "nat \<Rightarrow> ('x cons_st_scheme, unit) kernel" where
  "kill_line 0 = (\<lambda>s. Spin)"
| "kill_line (Suc n) =
     bnd (gets (\<lambda>s. in_e s \<noteq> in_w s \<and> in_buf s ! (unat (in_e s - 1) mod INPUT_BUF) \<noteq> 10)) (\<lambda>go.
     if \<not> go then ret () else
     thn (modify (\<lambda>s. s\<lparr>in_e := in_e s - 1\<rparr>)) (
     thn (consputc BACKSPACE) (
     kill_line n)))"

definition cons_char :: "nat \<Rightarrow> ('x cons_st_scheme, unit) kernel" where
  "cons_char c =
     (if c = 16 then ret ()
      else if c = 21 then kill_line (INPUT_BUF + 1)
      else if c = 8 \<or> c = 127 then (
         bnd (gets (\<lambda>s. in_e s \<noteq> in_w s)) (\<lambda>ne.
         whenk ne (thn (modify (\<lambda>s. s\<lparr>in_e := in_e s - 1\<rparr>)) (consputc BACKSPACE))))
      else (
         bnd (gets (\<lambda>s. in_e s - in_r s < of_nat INPUT_BUF)) (\<lambda>room.
         whenk (c \<noteq> 0 \<and> room) (
            let c = (if c = 13 then 10 else c) in
            thn (modify (\<lambda>s. s\<lparr>in_buf := (in_buf s)[unat (in_e s) mod INPUT_BUF := of_nat c], in_e := in_e s + 1\<rparr>)) (
            thn (consputc c) (
            bnd (gets (\<lambda>s. in_e s = in_r s + of_nat INPUT_BUF)) (\<lambda>full.
            whenk (c = 10 \<or> c = 4 \<or> full) (
               thn (modify (\<lambda>s. s\<lparr>in_w := in_e s\<rparr>)) (
               wakeup (Some ChanInput))))))))))"

definition consoleintr :: "nat list \<Rightarrow> ('x cons_st_scheme, unit) kernel" where
  "consoleintr cs =
     thn (acq ConsLock) (
     thn (forM cs cons_char) (
     rel ConsLock))"

definition kbdintr :: "byte list \<Rightarrow> ('x cons_st_scheme, unit) kernel" where
  "kbdintr codes =
     bnd (gets kbd_shift) (\<lambda>sh.
     let (sh', cs) = kbd_chars sh codes in
     thn (modify (\<lambda>s. s\<lparr>kbd_shift := sh'\<rparr>)) (
     consoleintr cs))"

definition uartintr :: "byte list \<Rightarrow> ('x cons_st_scheme, unit) kernel" where
  "uartintr cs =
     bnd (gets uart) (\<lambda>u.
     consoleintr (if u then map unat cs else []))"

text \<open>
  The loops of \<^verbatim>\<open>consoleread\<close>: \<open>n\<close> bytes are still wanted, \<open>acc\<close> has been
  read.  When there is no input it sleeps and comes back to the loop.
\<close>

fun consoleread_loop :: "nat \<Rightarrow> nat \<Rightarrow> byte list \<Rightarrow> ('x cons_st_scheme, int \<times> byte list) kernel" where
  "consoleread_loop ip 0 acc =
     thn (rel ConsLock) (
     thn (ilock ip) (
     ret (int (length acc), acc)))"
| "consoleread_loop ip (Suc n) acc =
     bnd (gets (\<lambda>s. in_r s = in_w s)) (\<lambda>empty.
     if empty then (
          bnd killed (\<lambda>k.
          if k then thn (rel ConsLock) (thn (ilock ip) (ret (-1, acc))) else
          thn (sleep (Some ChanInput) (Some ConsLock)) (
          ret (0, acc)))) else
     bnd (gets (\<lambda>s. in_buf s ! (unat (in_r s) mod INPUT_BUF))) (\<lambda>c.
     thn (modify (\<lambda>s. s\<lparr>in_r := in_r s + 1\<rparr>)) (
     if c = 4 then (
          thn (whenk (acc \<noteq> []) (modify (\<lambda>s. s\<lparr>in_r := in_r s - 1\<rparr>))) (
          consoleread_loop ip 0 acc)) else
     if c = 10 then consoleread_loop ip 0 (acc @ [c]) else
     consoleread_loop ip n (acc @ [c]))))"

definition consoleread :: "nat \<Rightarrow> uint \<Rightarrow> ('x cons_st_scheme, int \<times> byte list) kernel" where
  "consoleread ip n =
     thn (iunlock ip) (
     thn (acq ConsLock) (
     consoleread_loop ip (nat (sint n)) []))"

definition consoleread_resume :: "nat \<Rightarrow> nat \<Rightarrow> byte list \<Rightarrow> ('x cons_st_scheme, int \<times> byte list) kernel" where
  "consoleread_resume ip n acc = thn (sleep_resume ConsLock) (consoleread_loop ip n acc)"

definition consolewrite :: "nat \<Rightarrow> byte list \<Rightarrow> uint \<Rightarrow> ('x cons_st_scheme, int) kernel" where
  "consolewrite ip buf n =
     thn (iunlock ip) (
     thn (acq ConsLock) (
     thn (forM (take (nat (sint n)) buf) (\<lambda>c. consputc (unat c))) (
     thn (rel ConsLock) (
     thn (ilock ip) (
     ret (sint n))))))"

text \<open>The device table that \<^verbatim>\<open>consoleinit\<close> fills in.\<close>

definition cons_devsw :: "'x cons_st_scheme devsw" where
  "cons_devsw = (\<lambda>major. if major = 1 then (Some consoleread, Some consolewrite) else (None, None))"

definition consoleinit :: "('x cons_st_scheme, unit) kernel" where
  "consoleinit =
     thn (initlk ConsLock) (
     modify (\<lambda>s. s\<lparr>cons_locking := True\<rparr>))"

end
