(* ===== verification/Trap.thy ===== *)
theory Trap
  imports Console
begin

text \<open>
  Model of \<^verbatim>\<open>trap.c\<close> and of the boot sequence \<^verbatim>\<open>main\<close> on one processor.  A trap is
  given by the address of its trap frame; the number of the processor and the bytes the
  interrupting device delivers are arguments.  Acknowledging an interrupt has no effect on the
  state.
\<close>

section \<open>Interrupt descriptors (mmu.h)\<close>

record gatedesc =
  gd_off :: uint
  gd_cs :: ushort
  gd_istrap :: bool
  gd_dpl :: nat

record trap_st = cons_st +
  idt :: "nat \<Rightarrow> gatedesc"

definition SETGATE :: "bool \<Rightarrow> ushort \<Rightarrow> uint \<Rightarrow> nat \<Rightarrow> gatedesc" where
  "SETGATE istrap sel off d = \<lparr>gd_off = off, gd_cs = sel, gd_istrap = istrap, gd_dpl = d\<rparr>"

abbreviation (input) T_SYSCALL :: nat where "T_SYSCALL \<equiv> 64"
abbreviation (input) T_IRQ0 :: nat where "T_IRQ0 \<equiv> 32"

definition tvinit :: "(nat \<Rightarrow> uint) \<Rightarrow> ('x trap_st_scheme, unit) kernel" where
  "tvinit vectors =
     thn (forM [0..<256] (\<lambda>i. modify (\<lambda>s. s\<lparr>idt := (idt s)(i := SETGATE False 8 (vectors i) 0)\<rparr>))) (
     thn (modify (\<lambda>s. s\<lparr>idt := (idt s)(T_SYSCALL := SETGATE True 8 (vectors T_SYSCALL) 3)\<rparr>)) (
     initlk TicksLock))"

section \<open>Traps\<close>

text \<open>The tests of \<^verbatim>\<open>proc\<close> and \<^verbatim>\<open>proc->killed\<close> that end in \<^verbatim>\<open>exit\<close>.\<close>

definition exit_if_killed :: "uint \<Rightarrow> ('x trap_st_scheme, unit) kernel" where
  "exit_if_killed cs =
     bnd (gets curproc) (\<lambda>p.
     case p of None \<Rightarrow> ret () | Some i \<Rightarrow> (
        bnd (gets (\<lambda>s. p_killed (ptab s i))) (\<lambda>k.
        whenk (k \<and> cs AND 3 = 3) exit)))"

definition trap_syscall :: "uint \<Rightarrow> ('x trap_st_scheme, unit) kernel" where
  "trap_syscall tf =
     bnd killed (\<lambda>k.
     thn (whenk k exit) (
     bnd cur (\<lambda>p.
     thn (updp p (p_tf_update (\<lambda>_. tf))) (
     thn (syscall cons_devsw) (
     bnd killed (\<lambda>k.
     whenk k exit))))))"

definition trap_dispatch :: "nat \<Rightarrow> byte list \<Rightarrow> nat \<Rightarrow> uint \<Rightarrow> ('x trap_st_scheme, unit) kernel" where
  "trap_dispatch cpuid inp trapno cs =
     (if trapno = T_IRQ0 + 0 then
        whenk (cpuid = 0) (
           thn (acq TicksLock) (
           thn (modify (\<lambda>s. s\<lparr>ticks := ticks s + 1\<rparr>)) (
           thn (wakeup (Some ChanTicks)) (
           rel TicksLock))))
      else if trapno = T_IRQ0 + 14 \<or> trapno = T_IRQ0 + 15 then ret ()
      else if trapno = T_IRQ0 + 1 then kbdintr inp
      else if trapno = T_IRQ0 + 4 then uartintr inp
      else if trapno = T_IRQ0 + 7 \<or> trapno = T_IRQ0 + 31 then ret ()
      else (
         bnd (gets curproc) (\<lambda>p.
         case p of
            None \<Rightarrow> panic ''trap''
          | Some i \<Rightarrow>
              if cs AND 3 = 0 then panic ''trap''
              else updp i (p_killed_update (\<lambda>_. True)))))"

definition trap_yield :: "nat \<Rightarrow> ('x trap_st_scheme, unit) kernel" where
  "trap_yield trapno =
     bnd (gets curproc) (\<lambda>p.
     case p of None \<Rightarrow> ret () | Some i \<Rightarrow> (
        bnd (gets (\<lambda>s. p_state (ptab s i))) (\<lambda>st.
        whenk (st = RUNNING \<and> trapno = T_IRQ0 + 0) yield)))"

definition trap :: "nat \<Rightarrow> byte list \<Rightarrow> uint \<Rightarrow> ('x trap_st_scheme, unit) kernel" where
  "trap cpuid inp tf =
     bnd (rd32 (tf + TF_TRAPNO)) (\<lambda>no.
     let trapno = unat no in
     if trapno = T_SYSCALL then trap_syscall tf else
     bnd (rd32 (tf + TF_CS)) (\<lambda>cs.
     thn (trap_dispatch cpuid inp trapno cs) (
     thn (exit_if_killed cs) (
     thn (trap_yield trapno) (
     exit_if_killed cs)))))"

text \<open>What is left of a trap when the process that yielded runs again.\<close>

definition trap_resume :: "uint \<Rightarrow> ('x trap_st_scheme, unit) kernel" where
  "trap_resume tf =
     thn yield_resume (
     bnd (rd32 (tf + TF_CS)) (\<lambda>cs.
     exit_if_killed cs))"

section \<open>Booting (main.c)\<close>

text \<open>
  \<^verbatim>\<open>main\<close> on a machine with one processor, up to the call of the scheduler, without the
  set-up of interrupt controllers, segments and serial port.  The arguments are what the linker
  provides: the file system image, the first program and the interrupt vectors.
\<close>

definition main :: "(uint \<Rightarrow> block) \<Rightarrow> uint \<Rightarrow> byte list \<Rightarrow> (nat \<Rightarrow> uint) \<Rightarrow> ('x trap_st_scheme, unit) kernel" where
  "main img img_size initcode vectors =
     bnd (gets kend) (\<lambda>e.
     thn (kinit1 e (p2v (4 * 1024 * 1024))) (
     thn kvmalloc (
     thn consoleinit (
     thn pinit (
     thn (tvinit vectors) (
     thn binit (
     thn fileinit (
     thn (ideinit img img_size) (
     thn (kinit2 (p2v (4 * 1024 * 1024)) (p2v PHYSTOP)) (
     userinit cons_devsw initcode))))))))))"

end
