(* ===== verification/Grep.thy ===== *)
theory Grep
  imports Prelude
begin

text \<open>
  Model of \<^verbatim>\<open>grep.c\<close>.  A C string is the list of its bytes without the terminating
  zero, and a pointer into one is the list of the bytes from there on.  The successive results
  of \<^verbatim>\<open>read\<close> are an argument; an empty one ends the input.
\<close>

section \<open>The matcher\<close>

abbreviation (input) star :: byte where "star \<equiv> 42"
abbreviation (input) dot :: byte where "dot \<equiv> 46"
abbreviation (input) dollar :: byte where "dollar \<equiv> 36"
abbreviation (input) caret :: byte where "caret \<equiv> 94"
abbreviation (input) newline :: byte where "newline \<equiv> 10"

fun matchhere :: "byte list \<Rightarrow> byte list \<Rightarrow> bool" and matchstar :: "byte \<Rightarrow> byte list \<Rightarrow> byte list \<Rightarrow> bool" where
  "matchhere re s =
     (case re of
        [] \<Rightarrow> True
      | c # re' \<Rightarrow>
          if re' \<noteq> [] \<and> hd re' = star then matchstar c (tl re') s
          else if c = dollar \<and> re' = [] then s = []
          else case s of
              [] \<Rightarrow> False
            | x # s' \<Rightarrow> (c = dot \<or> c = x) \<and> matchhere re' s')"
| "matchstar c re s =
     (matchhere re s \<or>
       (case s of
          [] \<Rightarrow> False
        | x # s' \<Rightarrow> (x = c \<or> c = dot) \<and> matchstar c re s'))"

declare matchhere.simps [simp del] matchstar.simps [simp del]

text \<open>The loop of \<^verbatim>\<open>match\<close> over the positions of the text, its end included.\<close>

fun match_from :: "byte list \<Rightarrow> byte list \<Rightarrow> bool" where
  "match_from re [] = matchhere re []"
| "match_from re (x # s) = (matchhere re (x # s) \<or> match_from re s)"

definition match_re :: "byte list \<Rightarrow> byte list \<Rightarrow> bool" where
  "match_re re s = (if re \<noteq> [] \<and> hd re = caret then matchhere (tl re) s else match_from re s)"

section \<open>The filter\<close>

text \<open>
  The inner loop: the position of the next newline within the string at \<open>p\<close>, which ends at the
  first zero byte; matching lines are written with their newline.
\<close>

definition strchr_nl :: "byte list \<Rightarrow> nat option" where
  "strchr_nl p = (let s = takeWhile (\<lambda>c. c \<noteq> 0) p in find (\<lambda>i. s ! i = newline) [0..<length s])"

lemma strchr_nl_bound: "strchr_nl p = Some i \<Longrightarrow> i < length p"
  using length_takeWhile_le[of "\<lambda>c. c \<noteq> 0" p] by (auto simp: strchr_nl_def Let_def find_upt_Some)

function grep_lines :: "byte list \<Rightarrow> byte list \<Rightarrow> byte list \<times> byte list" where
  "grep_lines re p =
     (case strchr_nl p of
        None \<Rightarrow> ([], p)
      | Some i \<Rightarrow>
          let (out, p') = grep_lines re (drop (i + 1) p) in
          ((if match_re re (take i p) then take (i + 1) p else []) @ out, p'))"
  by pat_completeness auto
termination
  by (relation "measure (\<lambda>(_, p). length p)") (auto dest: strchr_nl_bound)

declare grep_lines.simps [simp del]

text \<open>The outer loop; \<open>pend\<close> is the part of a line that is still in the buffer.\<close>

fun grep :: "byte list \<Rightarrow> byte list \<Rightarrow> byte list list \<Rightarrow> byte list" where
  "grep re pend [] = []"
| "grep re pend (r # reads) =
     (if r = [] then [] else
      let buf = pend @ r;
          (out, p) = grep_lines re buf;
          pend' = (if length p = length buf then [] else p) in
      out @ grep re pend' reads)"

section \<open>The language of a pattern\<close>

text \<open>
  A pattern is a sequence of characters, each taken once or any number of times, with an
  optional anchor at the end; its words are defined without reference to positions.
\<close>

datatype atom = Once byte | Many byte

definition hits :: "byte \<Rightarrow> byte \<Rightarrow> bool" where
  "hits c x \<longleftrightarrow> c = dot \<or> c = x"

fun parse_re :: "byte list \<Rightarrow> atom list \<times> bool" where
  "parse_re [] = ([], False)"
| "parse_re [c] = (if c = dollar then ([], True) else ([Once c], False))"
| "parse_re (c # d # re) =
     (if d = star then (let (as, e) = parse_re re in (Many c # as, e))
      else (let (as, e) = parse_re (d # re) in (Once c # as, e)))"

fun lang :: "atom list \<Rightarrow> byte list set" where
  "lang [] = {[]}"
| "lang (Once c # as) = {x # w | x w. hits c x \<and> w \<in> lang as}"
| "lang (Many c # as) = {u @ w | u w. list_all (hits c) u \<and> w \<in> lang as}"

text \<open>\<open>re\<close> matches a prefix of \<open>s\<close>, all of it when the pattern is anchored at the end.\<close>

definition prefix_match :: "byte list \<Rightarrow> byte list \<Rightarrow> bool" where
  "prefix_match re s \<longleftrightarrow>
     (\<exists>w v. s = w @ v \<and> w \<in> lang (fst (parse_re re)) \<and> (snd (parse_re re) \<longrightarrow> v = []))"

definition selects :: "byte list \<Rightarrow> byte list \<Rightarrow> bool" where
  "selects re s \<longleftrightarrow>
     (if re \<noteq> [] \<and> hd re = caret then prefix_match (tl re) s
      else \<exists>u v. s = u @ v \<and> prefix_match re v)"

lemma hits_alt: "x = c \<or> c = dot \<longleftrightarrow> hits c x"
  by (auto simp: hits_def)

lemma prefix_match_Nil: "prefix_match [] s"
  by (simp add: prefix_match_def)

lemma prefix_match_dollar: "prefix_match [dollar] s \<longleftrightarrow> s = []"
  by (auto simp: prefix_match_def)

lemma prefix_match_Once:
  assumes "re = [] \<Longrightarrow> c \<noteq> dollar" and "re \<noteq> [] \<Longrightarrow> hd re \<noteq> star"
  shows "prefix_match (c # re) s \<longleftrightarrow> (\<exists>x s'. s = x # s' \<and> hits c x \<and> prefix_match re s')"
proof -
  have "parse_re (c # re) = (Once c # fst (parse_re re), snd (parse_re re))"
    using assms by (cases re) (auto simp: Let_def split: prod.split)
  then show ?thesis unfolding prefix_match_def by simp (metis append_Cons)
qed

lemma prefix_match_Many:
  "prefix_match (c # star # re) s \<longleftrightarrow> (\<exists>u v. s = u @ v \<and> list_all (hits c) u \<and> prefix_match re v)"
proof -
  have "parse_re (c # star # re) = (Many c # fst (parse_re re), snd (parse_re re))"
    by (simp add: Let_def split: prod.split)
  then show ?thesis unfolding prefix_match_def by simp (metis append_assoc)
qed

lemma many_step:
  "(\<exists>u v. s = u @ v \<and> list_all (hits c) u \<and> P v) \<longleftrightarrow>
     P s \<or> (\<exists>x s'. s = x # s' \<and> hits c x \<and> (\<exists>u v. s' = u @ v \<and> list_all (hits c) u \<and> P v))"
  (is "?L \<longleftrightarrow> ?R")
proof
  assume ?L
  then obtain u v where u: "s = u @ v" "list_all (hits c) u" "P v" by blast
  then show ?R by (cases u) auto
next
  assume ?R
  then show ?L
  proof
    assume "P s"
    then show ?L by (intro exI[of _ "[]"] exI[of _ s]) simp
  next
    assume "\<exists>x s'. s = x # s' \<and> hits c x \<and> (\<exists>u v. s' = u @ v \<and> list_all (hits c) u \<and> P v)"
    then obtain x u v where "s = x # u @ v" "hits c x" "list_all (hits c) u" "P v" by blast
    then show ?L by (intro exI[of _ "x # u"] exI[of _ v]) simp
  qed
qed

lemma matchhere_lang:
  "matchhere re s \<longleftrightarrow> prefix_match re s"
  "matchstar c re s \<longleftrightarrow> (\<exists>u v. s = u @ v \<and> list_all (hits c) u \<and> prefix_match re v)"
proof (induction re s and c re s rule: matchhere_matchstar.induct)
  case (1 re s)
  show ?case
  proof (cases re)
    case Nil
    then show ?thesis unfolding matchhere.simps[of re s] by (simp add: prefix_match_Nil)
  next
    case (Cons c re')
    consider "re' \<noteq> []" "hd re' = star" | "re' = []" "c = dollar" | "re' = [] \<Longrightarrow> c \<noteq> dollar" "re' \<noteq> [] \<Longrightarrow> hd re' \<noteq> star"
      by blast
    then show ?thesis
    proof cases
      case a: 1
      then obtain re2 where "re' = star # re2" by (cases re') auto
      then show ?thesis unfolding matchhere.simps[of re s] using Cons 1(1)[OF Cons] a by (simp add: prefix_match_Many)
    next
      case a: 2
      then show ?thesis unfolding matchhere.simps[of re s] using Cons prefix_match_dollar[of s] by simp
    next
      case a: 3
      have nb: "\<not> (re' \<noteq> [] \<and> hd re' = star)" "\<not> (c = dollar \<and> re' = [])" using a by blast+
      show ?thesis unfolding matchhere.simps[of re s]
        using prefix_match_Once[OF a, of s] 1(2)[OF Cons nb] Cons nb by (cases s) (auto simp: hits_def)
    qed
  qed
next
  case (2 c re s)
  show ?case unfolding matchstar.simps[of c re s] many_step[of s c "prefix_match re"]
    using 2 by (cases s) (simp_all add: hits_alt)
qed

lemma match_from_suffix: "match_from re s \<longleftrightarrow> (\<exists>u v. s = u @ v \<and> prefix_match re v)"
proof (induction s)
  case (Cons x s)
  have "(\<exists>u v. x # s = u @ v \<and> prefix_match re v) \<longleftrightarrow> prefix_match re (x # s) \<or> (\<exists>u v. s = u @ v \<and> prefix_match re v)"
    by (metis Cons_eq_append_conv append_Nil)
  then show ?case using Cons by (simp add: matchhere_lang(1))
qed (simp add: matchhere_lang(1))

lemma match_re_selects: "match_re re s = selects re s"
  by (simp add: match_re_def selects_def matchhere_lang(1) match_from_suffix)

text \<open>
  C16 (pattern matching): the matcher of \<^verbatim>\<open>grep\<close> accepts a text exactly when some
  part of it, starting at its beginning for a pattern that begins with a caret and reaching its
  end for one that ends with a dollar, is a word of the language of the pattern.
\<close>

theorem match_is_language: "match_re re s \<longleftrightarrow> selects re s"
  by (rule match_re_selects)

section \<open>The lines of the input\<close>

text \<open>The complete lines of a text, without their newlines, and what follows the last newline.\<close>

fun split_lines :: "byte list \<Rightarrow> byte list list \<times> byte list" where
  "split_lines [] = ([], [])"
| "split_lines (c # cs) =
     (let (ls, r) = split_lines cs in
      if c = newline then ([] # ls, r)
      else case ls of [] \<Rightarrow> ([], c # r) | l # ls \<Rightarrow> ((c # l) # ls, r))"

lemma split_lines_none: "newline \<notin> set p \<Longrightarrow> split_lines p = ([], p)"
  by (induction p) auto

lemma split_lines_line:
  "newline \<notin> set l \<Longrightarrow> split_lines (l @ newline # q) = (l # fst (split_lines q), snd (split_lines q))"
  by (induction l) (auto split: prod.splits)

lemma split_lines_append:
  "split_lines (a @ b) = (fst (split_lines a) @ fst (split_lines (snd (split_lines a) @ b)), snd (split_lines (snd (split_lines a) @ b)))"
proof (induction "length a" arbitrary: a rule: less_induct)
  case less
  show ?case
  proof (cases "newline \<in> set a")
    case False
    then show ?thesis by (simp add: split_lines_none)
  next
    case True
    then obtain l q where a: "a = l @ newline # q" "newline \<notin> set l" by (meson split_list_first)
    then show ?thesis using less[of q] by (simp add: split_lines_line)
  qed
qed

lemma split_lines_rest: "newline \<notin> set (snd (split_lines p))"
proof (induction p)
  case (Cons c cs)
  then show ?case by (cases "fst (split_lines cs)") (auto split: prod.splits)
qed simp

lemma strchr_nl_none: "0 \<notin> set p \<Longrightarrow> newline \<notin> set p \<Longrightarrow> strchr_nl p = None"
proof -
  assume a: "0 \<notin> set p" "newline \<notin> set p"
  then have t: "takeWhile (\<lambda>c. c \<noteq> 0) p = p" unfolding takeWhile_eq_all_conv by auto
  show ?thesis unfolding strchr_nl_def t Let_def find_upt_None using a(2) by (auto simp: in_set_conv_nth)
qed

lemma strchr_nl_line:
  assumes "0 \<notin> set l" and "newline \<notin> set l" and "0 \<notin> set q"
  shows "strchr_nl (l @ newline # q) = Some (length l)"
proof -
  have "0 \<notin> set (l @ newline # q)" using assms by auto
  then have t: "takeWhile (\<lambda>c. c \<noteq> 0) (l @ newline # q) = l @ newline # q" unfolding takeWhile_eq_all_conv by auto
  have "\<forall>j < length l. (l @ newline # q) ! j \<noteq> newline" using assms(2) by (auto simp: nth_append in_set_conv_nth)
  then show ?thesis unfolding strchr_nl_def t Let_def find_upt_Some by simp
qed

definition keep :: "byte list \<Rightarrow> byte list list \<Rightarrow> byte list" where
  "keep re ls = concat (map (\<lambda>l. l @ [newline]) (filter (selects re) ls))"

lemma grep_lines_split:
  "0 \<notin> set p \<Longrightarrow> grep_lines re p = (keep re (fst (split_lines p)), snd (split_lines p))"
proof (induction "length p" arbitrary: p rule: less_induct)
  case less
  show ?case
  proof (cases "newline \<in> set p")
    case False
    then show ?thesis using less.prems by (simp add: grep_lines.simps[of re p] strchr_nl_none split_lines_none keep_def)
  next
    case True
    then obtain l q where p: "p = l @ newline # q" "newline \<notin> set l" by (meson split_list_first)
    then have z: "0 \<notin> set l" "0 \<notin> set q" using less.prems by auto
    have g: "grep_lines re q = (keep re (fst (split_lines q)), snd (split_lines q))"
      by (rule less.hyps) (use p z in auto)
    show ?thesis unfolding p(1)
      by (subst grep_lines.simps) (simp add: strchr_nl_line[OF z(1) p(2) z(2)] g split_lines_line[OF p(2)] keep_def match_re_selects)
  qed
qed

text \<open>Every buffer the loop looks at contains a newline.\<close>

fun fed :: "byte list \<Rightarrow> byte list list \<Rightarrow> bool" where
  "fed pend [] = True"
| "fed pend (r # reads) = (newline \<in> set r \<and> fed (snd (split_lines (pend @ r))) reads)"

lemma split_lines_length: "length (snd (split_lines p)) \<le> length p"
proof (induction p)
  case (Cons c cs)
  then show ?case by (cases "fst (split_lines cs)") (auto split: prod.splits)
qed simp

lemma split_lines_shorter: "newline \<in> set p \<Longrightarrow> length (snd (split_lines p)) < length p"
proof -
  assume "newline \<in> set p"
  then obtain l q where p: "p = l @ newline # q" "newline \<notin> set l" by (meson split_list_first)
  then show ?thesis using split_lines_length[of q] by (simp add: split_lines_line)
qed

lemma split_lines_zero: "0 \<notin> set p \<Longrightarrow> 0 \<notin> set (snd (split_lines p))"
proof (induction p)
  case (Cons c cs)
  then show ?case by (cases "fst (split_lines cs)") (auto split: prod.splits)
qed simp

lemma keep_append: "keep re (a @ b) = keep re a @ keep re b"
  by (simp add: keep_def)

lemma grep_run:
  "0 \<notin> set pend \<Longrightarrow> newline \<notin> set pend \<Longrightarrow> 0 \<notin> set (concat reads) \<Longrightarrow> fed pend reads \<Longrightarrow>
     grep re pend reads = keep re (fst (split_lines (pend @ concat reads)))"
proof (induction reads arbitrary: pend)
  case Nil
  then show ?case by (simp add: split_lines_none keep_def)
next
  case (Cons r reads)
  let ?p = "snd (split_lines (pend @ r))"
  have z: "0 \<notin> set (pend @ r)" "r \<noteq> []" "newline \<in> set (pend @ r)" using Cons.prems by auto
  have "grep re ?p reads = keep re (fst (split_lines (?p @ concat reads)))"
    by (rule Cons.IH) (use Cons.prems split_lines_zero[OF z(1)] split_lines_rest in auto)
  moreover have "length ?p \<noteq> length (pend @ r)" using split_lines_shorter[OF z(3)] by simp
  ultimately have "grep re pend (r # reads) = keep re (fst (split_lines (pend @ r))) @ keep re (fst (split_lines (?p @ concat reads)))"
    using z(2) by (simp add: grep_lines_split[OF z(1)] Let_def)
  also have "\<dots> = keep re (fst (split_lines ((pend @ r) @ concat reads)))"
    by (subst split_lines_append) (simp add: keep_append)
  finally show ?case by simp
qed

text \<open>
  C28 (grep): on a text without zero bytes, delivered by \<^verbatim>\<open>read\<close> in pieces that each
  contain a newline, \<^verbatim>\<open>grep\<close> writes exactly the complete lines the pattern selects, in
  order, however the pieces cut the lines.
\<close>

theorem grep_filters:
  assumes "0 \<notin> set (concat reads)" and "fed [] reads"
  shows "grep re [] reads = concat (map (\<lambda>l. l @ [newline]) (filter (selects re) (fst (split_lines (concat reads)))))"
  using grep_run[of "[]" reads re] assms by (simp add: keep_def)

theorem grep_filters_witness:
  "fed [] [[97, 98, 10, 97], [99, 10]] \<and>
    grep [97] [] [[97, 98, 10, 97], [99, 10]] =
    concat (map (\<lambda>l. l @ [newline]) (filter (selects [97]) (fst (split_lines (concat [[97, 98, 10, 97], [99, 10]])))))"
  using grep_filters[of "[[97, 98, 10, 97], [99, 10]]" "[97]"] by simp

text \<open>
  A piece without a newline is dropped, also when the buffer has room for the rest of the line:
  a line that arrives in two pieces is not seen as a whole.
\<close>

lemma grep_drops_partial_line:
  "grep [97, 98] [] [[97, 98, 10]] = [97, 98, 10]" "grep [97, 98] [] [[97], [98, 10]] = []"
proof -
  have "fed [] [[97, 98, 10]]" "fed [] [[98, 10]]" by simp_all
  then show "grep [97, 98] [] [[97, 98, 10]] = [97, 98, 10]"
    by (subst grep_run) (simp_all add: keep_def match_re_selects[symmetric] match_re_def matchhere.simps)
  have "grep [97, 98] [] [[98, 10]] = []"
    by (subst grep_run) (simp_all add: keep_def match_re_selects[symmetric] match_re_def matchhere.simps)
  then show "grep [97, 98] [] [[97], [98, 10]] = []" by (simp add: grep_lines_split Let_def keep_def)
qed

end
