(* ===== verification/Ulib.thy ===== *)
theory Ulib
  imports Cstring
begin

text \<open>
  The user-level library: the string functions, \<^verbatim>\<open>gets\<close> and \<^verbatim>\<open>atoi\<close> of
  \<^verbatim>\<open>ulib.c\<close> and the formatted output of \<^verbatim>\<open>printf.c\<close>.  A C string is the
  list of its bytes without the terminating zero; \<^verbatim>\<open>printf\<close> gives the bytes it writes.
  Names that the kernel uses as well carry the prefix \<open>u_\<close>.
\<close>

section \<open>Strings and memory (ulib.c)\<close>

text \<open>\<^verbatim>\<open>strcpy\<close> into an array; without room for the terminating zero it writes past the end.\<close>

definition u_strcpy :: "byte list \<Rightarrow> byte list \<Rightarrow> byte list option" where
  "u_strcpy s t = (if length t < length s then Some (t @ 0 # drop (length t + 1) s) else None)"

fun u_strcmp :: "byte list \<Rightarrow> byte list \<Rightarrow> int" where
  "u_strcmp [] [] = 0"
| "u_strcmp [] (d # q) = - uint d"
| "u_strcmp (c # p) [] = uint c"
| "u_strcmp (c # p) (d # q) = (if c = d then u_strcmp p q else uint c - uint d)"

fun u_strlen_from :: "nat \<Rightarrow> byte list \<Rightarrow> nat" where
  "u_strlen_from n [] = n"
| "u_strlen_from n (c # s) = u_strlen_from (n + 1) s"

definition u_strlen :: "byte list \<Rightarrow> uint" where
  "u_strlen s = of_nat (u_strlen_from 0 s)"

definition u_memset :: "memory \<Rightarrow> uint \<Rightarrow> uint \<Rightarrow> uint \<Rightarrow> memory" where
  "u_memset m dst c n = stosb m dst c (unat n)"

fun u_strchr :: "byte list \<Rightarrow> byte \<Rightarrow> byte list option" where
  "u_strchr [] c = None"
| "u_strchr (d # s) c = (if d = c then Some (d # s) else u_strchr s c)"

definition u_memmove :: "memory \<Rightarrow> uint \<Rightarrow> uint \<Rightarrow> int \<Rightarrow> memory" where
  "u_memmove m vdst vsrc n = copy_up m vdst vsrc (nat n)"

fun atoi_loop :: "uint \<Rightarrow> byte list \<Rightarrow> uint" where
  "atoi_loop n [] = n"
| "atoi_loop n (c # s) = (if 48 \<le> c \<and> c \<le> 57 then atoi_loop (n * 10 + ucast c - 48) s else n)"

definition u_atoi :: "byte list \<Rightarrow> int" where
  "u_atoi s = sint (atoi_loop 0 s)"

text \<open>
  \<^verbatim>\<open>gets\<close> reads byte by byte what is left of the standard input, until \<open>mx - 1\<close> bytes,
  the end of the input or the end of a line; the result is what the buffer holds before the zero.
\<close>

fun gets_loop :: "nat \<Rightarrow> byte list \<Rightarrow> byte list \<times> byte list" where
  "gets_loop 0 inp = ([], inp)"
| "gets_loop (Suc n) [] = ([], [])"
| "gets_loop (Suc n) (c # inp) =
     (if c = 10 \<or> c = 13 then ([c], inp)
      else let (l, rest) = gets_loop n inp in (c # l, rest))"

definition u_gets :: "nat \<Rightarrow> byte list \<Rightarrow> byte list \<times> byte list" where
  "u_gets mx inp = gets_loop (mx - 1) inp"

section \<open>Formatted output (printf.c)\<close>

definition u_digit :: "nat \<Rightarrow> byte" where
  "u_digit d = (if d < 10 then of_nat (48 + d) else of_nat (55 + d))"

text \<open>The digits in the order in which the loop stores them; the bases used are ten and sixteen.\<close>

function u_digits :: "nat \<Rightarrow> nat \<Rightarrow> byte list" where
  "u_digits base x = (if base < 2 then [u_digit x] else
     u_digit (x mod base) # (if x div base = 0 then [] else u_digits base (x div base)))"
  by pat_completeness auto
termination
proof (relation "measure snd", goal_cases)
  case (2 base x)
  then have "0 < x" by (cases x) auto
  then show ?case using 2 by simp
qed simp

declare u_digits.simps [simp del]

text \<open>The contents of \<^verbatim>\<open>buf\<close> before it is written out from its end.\<close>

definition printint_buf :: "uint \<Rightarrow> nat \<Rightarrow> bool \<Rightarrow> byte list" where
  "printint_buf xx base sg =
     (let neg = (sg \<and> sint xx < 0);
          x = (if neg then - xx else xx) in
      u_digits base (unat x) @ (if neg then [45] else []))"

definition u_printint :: "uint \<Rightarrow> nat \<Rightarrow> bool \<Rightarrow> byte list" where
  "u_printint xx base sg = rev (printint_buf xx base sg)"

datatype uarg = UInt uint | UStr "byte list option"

text \<open>What \<^verbatim>\<open>printf\<close> writes; a format that asks for an argument that is not there reads past the arguments.\<close>

fun u_printf :: "byte list \<Rightarrow> uarg list \<Rightarrow> byte list option" where
  "u_printf [] as = Some []"
| "u_printf (c # cs) as =
     (if c \<noteq> 37 then map_option (\<lambda>out. c # out) (u_printf cs as) else
      case cs of
        [] \<Rightarrow> Some []
      | d # cs \<Rightarrow>
          if d = 100 \<or> d = 120 \<or> d = 112 \<or> d = 99 then
            (case as of
               UInt x # as \<Rightarrow>
                 map_option (\<lambda>out. (if d = 100 then u_printint x 10 True
                   else if d = 99 then [ucast x] else u_printint x 16 False) @ out) (u_printf cs as)
             | _ \<Rightarrow> None)
          else if d = 115 then
            (case as of
               UStr p # as \<Rightarrow>
                 map_option (\<lambda>out. (case p of Some s \<Rightarrow> s | None \<Rightarrow> [40, 110, 117, 108, 108, 41]) @ out) (u_printf cs as)
             | _ \<Rightarrow> None)
          else if d = 37 then map_option (\<lambda>out. 37 # out) (u_printf cs as)
          else map_option (\<lambda>out. 37 # d # out) (u_printf cs as))"

section \<open>Numbers out and in\<close>

definition is_digit :: "byte \<Rightarrow> bool" where
  "is_digit c \<longleftrightarrow> 48 \<le> c \<and> c \<le> 57"

lemma u_digit_dec: "d < 10 \<Longrightarrow> is_digit (u_digit d) \<and> ucast (u_digit d) = (of_nat (48 + d) :: uint)"
proof -
  assume d: "d < 10"
  have u: "unat (of_nat (48 + d) :: byte) = 48 + d" using d by (simp add: unat_of_nat del: of_nat_add)
  then have "is_digit (of_nat (48 + d))" unfolding is_digit_def word_le_nat_alt using d by simp
  moreover have "unat (ucast (of_nat (48 + d) :: byte) :: uint) = unat (of_nat (48 + d) :: uint)"
    using u d by (simp add: unsigned_ucast_eq unat_of_nat take_bit_eq_mod del: of_nat_add)
  ultimately show ?thesis unfolding u_digit_def using d by (simp only: if_True word_unat_eq_iff)
qed

lemma atoi_snoc: "list_all is_digit s \<Longrightarrow> is_digit d \<Longrightarrow> atoi_loop n (s @ [d]) = atoi_loop n s * 10 + ucast d - 48"
  by (induction s arbitrary: n) (auto simp: is_digit_def)

lemma u_digits_dec: "list_all is_digit (u_digits 10 x) \<and> atoi_loop 0 (rev (u_digits 10 x)) = of_nat x"
proof (induction "10 :: nat" x rule: u_digits.induct)
  case (1 x)
  have d: "is_digit (u_digit (x mod 10))" "ucast (u_digit (x mod 10)) = (of_nat (48 + x mod 10) :: uint)"
    using u_digit_dec[of "x mod 10"] by simp_all
  show ?case
  proof (cases "x div 10 = 0")
    case True
    then have "x mod 10 = x" by auto
    then show ?thesis using d True by (simp add: u_digits.simps[of 10 x] is_digit_def)
  next
    case False
    then have IH: "list_all is_digit (u_digits 10 (x div 10))" "atoi_loop 0 (rev (u_digits 10 (x div 10))) = of_nat (x div 10)"
      using 1 by simp_all
    have "of_nat (x div 10) * 10 + of_nat (48 + x mod 10) - 48 = (of_nat (x div 10 * 10 + x mod 10) :: uint)"
      by (simp only: of_nat_add of_nat_mult of_nat_numeral) simp
    also have "x div 10 * 10 + x mod 10 = x" by simp
    finally have e: "of_nat (x div 10) * 10 + of_nat (48 + x mod 10) - 48 = (of_nat x :: uint)" .
    show ?thesis using False d IH e atoi_snoc[of "rev (u_digits 10 (x div 10))" "u_digit (x mod 10)" 0]
      by (simp add: u_digits.simps[of 10 x] del: of_nat_add of_nat_mult)
  qed
qed

lemma u_digits_length: "2 \<le> base \<Longrightarrow> x < base ^ Suc k \<Longrightarrow> length (u_digits base x) \<le> Suc k"
proof (induction k arbitrary: x)
  case 0
  then show ?case by (simp add: u_digits.simps[of base x])
next
  case (Suc k)
  have "x div base < base ^ Suc k" using Suc.prems by (intro less_mult_imp_div_less) (simp add: mult.commute)
  then show ?case using Suc by (simp add: u_digits.simps[of base x])
qed



end
