(* ===== verification/Utils.thy ===== *)
theory Utils
  imports Ulib Grep
begin

text \<open>
  The small user programs \<^verbatim>\<open>cat\<close>, \<^verbatim>\<open>wc\<close>, \<^verbatim>\<open>echo\<close>,
  \<^verbatim>\<open>rm\<close>, \<^verbatim>\<open>mkdir\<close>, \<^verbatim>\<open>kill\<close>, \<^verbatim>\<open>ln\<close> and
  \<^verbatim>\<open>ls\<close>, each a function of its arguments and of what the system calls it makes
  return.  Output is what goes to the descriptors one and two together, in its order.
\<close>

section \<open>Filters (cat.c, wc.c, echo.c)\<close>

text \<open>
  The results of successive calls of \<^verbatim>\<open>read\<close>: \<open>Some\<close> bytes, none of them at the end
  of the file, or \<open>None\<close> for an error.  The functions give what goes to the standard output and
  whether the program goes on.
\<close>

type_synonym reads = "byte list option list"

definition str :: "string \<Rightarrow> byte list" where
  "str s = map of_char s"

fun cat :: "reads \<Rightarrow> byte list \<times> bool" where
  "cat [] = ([], True)"
| "cat (None # rs) = (str ''cat: read error'' @ [10], False)"
| "cat (Some xs # rs) = (if xs = [] then ([], True) else let (out, ok) = cat rs in (xs @ out, ok))"

fun wc_byte :: "uint \<times> uint \<times> uint \<times> bool \<Rightarrow> byte \<Rightarrow> uint \<times> uint \<times> uint \<times> bool" where
  "wc_byte (l, w, c, inword) b =
     (let l = (if b = 10 then l + 1 else l) in
      if u_strchr [32, 13, 9, 10, 11] b \<noteq> None then (l, w, c + 1, False)
      else if \<not> inword then (l, w + 1, c + 1, True)
      else (l, w, c + 1, inword))"

fun wc_loop :: "uint \<times> uint \<times> uint \<times> bool \<Rightarrow> reads \<Rightarrow> (uint \<times> uint \<times> uint \<times> bool) option" where
  "wc_loop st [] = Some st"
| "wc_loop st (None # rs) = None"
| "wc_loop st (Some xs # rs) = (if xs = [] then Some st else wc_loop (foldl wc_byte st xs) rs)"

definition wc :: "reads \<Rightarrow> byte list \<Rightarrow> byte list \<times> bool" where
  "wc rs name =
     (case wc_loop (0, 0, 0, False) rs of
        None \<Rightarrow> (str ''wc: read error'' @ [10], False)
      | Some (l, w, c, _) \<Rightarrow>
          (the (u_printf (str ''%d %d %d %s'' @ [10]) [UInt l, UInt w, UInt c, UStr (Some name)]), True))"

text \<open>
  The loop over the arguments in \<^verbatim>\<open>main\<close> of \<^verbatim>\<open>cat\<close> and \<^verbatim>\<open>wc\<close>: \<open>files\<close>
  gives what reading a file returns, or nothing for one that cannot be opened.
\<close>

fun each_file :: "byte list \<Rightarrow> (reads \<Rightarrow> byte list \<Rightarrow> byte list \<times> bool) \<Rightarrow> (byte list \<Rightarrow> reads option) \<Rightarrow> byte list list \<Rightarrow> byte list" where
  "each_file prog f files [] = []"
| "each_file prog f files (a # as) =
     (case files a of
        None \<Rightarrow> prog @ str '': cannot open '' @ a @ [10]
      | Some rs \<Rightarrow> let (out, ok) = f rs a in out @ (if ok then each_file prog f files as else []))"

definition cat_main :: "reads \<Rightarrow> (byte list \<Rightarrow> reads option) \<Rightarrow> byte list list \<Rightarrow> byte list" where
  "cat_main stdin files args =
     (if args = [] then fst (cat stdin) else each_file (str ''cat'') (\<lambda>rs _. cat rs) files args)"

definition wc_main :: "reads \<Rightarrow> (byte list \<Rightarrow> reads option) \<Rightarrow> byte list list \<Rightarrow> byte list" where
  "wc_main stdin files args =
     (if args = [] then fst (wc stdin []) else each_file (str ''wc'') wc files args)"

fun echo :: "byte list list \<Rightarrow> byte list" where
  "echo [] = []"
| "echo [a] = a @ [10]"
| "echo (a # b # as) = a @ [32] @ echo (b # as)"

text \<open>The words of a text: its non-empty parts between white space.\<close>

definition space :: "byte \<Rightarrow> bool" where
  "space b \<longleftrightarrow> b \<in> {32, 13, 9, 10, 11}"

fun words :: "byte list \<Rightarrow> byte list list" where
  "words [] = []"
| "words (c # cs) =
     (if space c then words cs
      else if cs = [] \<or> space (hd cs) then [c] # words cs
      else case words cs of [] \<Rightarrow> [[c]] | w # ws \<Rightarrow> (c # w) # ws)"

lemma u_strchr_None: "u_strchr s c = None \<longleftrightarrow> c \<notin> set s"
  by (induction s) auto

lemma space_strchr: "u_strchr [32, 13, 9, 10, 11] b \<noteq> None \<longleftrightarrow> space b"
  by (simp add: u_strchr_None space_def del: u_strchr.simps)

lemma words_nonempty: "cs \<noteq> [] \<Longrightarrow> \<not> space (hd cs) \<Longrightarrow> words cs \<noteq> []"
  by (cases cs) (auto split: list.split)

text \<open>The state of the counters after some bytes; a word that continues is counted once.\<close>

lemma wc_fold:
  "foldl wc_byte (l, w, c, inword) xs =
     (l + of_nat (count_list xs 10),
      w + of_nat (length (words xs)) - (if inword \<and> xs \<noteq> [] \<and> \<not> space (hd xs) then 1 else 0),
      c + of_nat (length xs), if xs = [] then inword else \<not> space (last xs))"
proof (induction xs arbitrary: l w c inword)
  case (Cons x xs)
  have f: "wc_byte (l, w, c, inword) x = (l + (if x = 10 then 1 else 0), w + (if space x \<or> inword then 0 else 1), c + 1, \<not> space x)"
    by (simp add: Let_def space_strchr[symmetric])
  show ?case
  proof (cases "space x")
    case True
    then show ?thesis unfolding foldl_Cons f Cons.IH by simp
  next
    case False
    have "words xs \<noteq> []" if "xs \<noteq> []" "\<not> space (hd xs)" using words_nonempty that by blast
    then show ?thesis using False unfolding foldl_Cons f Cons.IH by (cases "words xs") auto
  qed
qed simp

lemma wc_loop_all:
  "\<forall>r \<in> set rs. r \<noteq> None \<and> r \<noteq> Some [] \<Longrightarrow> wc_loop st rs = Some (foldl wc_byte st (concat (map the rs)))"
proof (induction rs arbitrary: st)
  case (Cons r rs)
  then obtain x where "r = Some x" "x \<noteq> []" by (cases r) auto
  then show ?case using Cons by simp
qed simp

text \<open>
  C36 (wc): when no read fails, \<^verbatim>\<open>wc\<close> prints the number of newlines, of maximal runs of
  bytes other than white space and of all bytes of the input, modulo \<open>2 ^ 32\<close>, whatever the sizes of
  the pieces in which the input is read.
\<close>

theorem wc_counts:
  assumes "\<forall>r \<in> set rs. r \<noteq> None \<and> r \<noteq> Some []"
  defines "xs \<equiv> concat (map the rs)"
  shows "wc rs name = (u_printint (of_nat (count_list xs 10)) 10 True @ [32] @ u_printint (of_nat (length (words xs))) 10 True @ [32]
    @ u_printint (of_nat (length xs)) 10 True @ [32] @ name @ [10], True)"
  using wc_loop_all[OF assms(1), of "(0, 0, 0, False)"] wc_fold[of 0 0 0 False xs]
  unfolding wc_def xs_def[symmetric] str_def by (simp add: of_char_def)

theorem wc_counts_witness:
  "fst (wc [Some [97, 32], Some [98, 99, 10]] [120]) = u_printint 1 10 True @ [32] @ u_printint 2 10 True @ [32]
    @ u_printint 5 10 True @ [32] @ [120] @ [10]"
  using wc_counts[of "[Some [97, 32], Some [98, 99, 10]]" "[120]"] by (simp add: space_def)

section \<open>Commands on names (rm.c, mkdir.c, kill.c, ln.c)\<close>

text \<open>
  The system calls are arguments, functions from the state of the kernel to a result and a new state.
  A program gives what goes to the standard error and the state after it.
\<close>

type_synonym 's call = "byte list \<Rightarrow> 's \<Rightarrow> int \<times> 's"

fun until_fails :: "byte list \<Rightarrow> byte list \<Rightarrow> 's call \<Rightarrow> byte list list \<Rightarrow> 's \<Rightarrow> byte list \<times> 's" where
  "until_fails prog failed call [] s = ([], s)"
| "until_fails prog failed call (a # as) s =
     (let (r, s) = call a s in
      if r < 0 then (prog @ a @ failed, s) else until_fails prog failed call as s)"

definition rm_main :: "'s call \<Rightarrow> byte list list \<Rightarrow> 's \<Rightarrow> byte list \<times> 's" where
  "rm_main unlink args s =
     (if args = [] then (str ''Usage: rm files...'' @ [10], s)
      else until_fails (str ''rm: '') (str '' failed to delete'' @ [10]) unlink args s)"

definition mkdir_main :: "'s call \<Rightarrow> byte list list \<Rightarrow> 's \<Rightarrow> byte list \<times> 's" where
  "mkdir_main mkdir args s =
     (if args = [] then (str ''Usage: mkdir files...'' @ [10], s)
      else until_fails (str ''mkdir: '') (str '' failed to create'' @ [10]) mkdir args s)"

definition kill_main :: "(int \<Rightarrow> 's \<Rightarrow> int \<times> 's) \<Rightarrow> byte list list \<Rightarrow> 's \<Rightarrow> byte list \<times> 's" where
  "kill_main kill args s =
     (if args = [] then (str ''usage: kill pid...'' @ [10], s)
      else ([], foldl (\<lambda>s a. snd (kill (u_atoi a) s)) s args))"

definition ln_main :: "(byte list \<Rightarrow> byte list \<Rightarrow> 's \<Rightarrow> int \<times> 's) \<Rightarrow> byte list list \<Rightarrow> 's \<Rightarrow> byte list \<times> 's" where
  "ln_main link args s =
     (case args of
        [old, new] \<Rightarrow>
          (let (r, s) = link old new s in
           (if r < 0 then str ''link '' @ old @ [32] @ new @ str '': failed'' @ [10] else [], s))
      | _ \<Rightarrow> (str ''Usage: ln old new'' @ [10], s))"

lemma until_fails_all:
  assumes "\<And>a s. a \<in> set as \<Longrightarrow> 0 \<le> fst (call a s)"
  shows "until_fails prog failed call as s = ([], foldl (\<lambda>s a. snd (call a s)) s as)"
  using assms
proof (induction as arbitrary: s)
  case (Cons a as)
  obtain r t where c: "call a s = (r, t)" by force
  then have "0 \<le> r" using Cons.prems[of a s] by simp
  then show ?case using Cons.IH[of t] Cons.prems c by simp
qed simp

section \<open>Listing a directory (ls.c)\<close>

abbreviation (input) DIRSIZ_u :: nat where "DIRSIZ_u \<equiv> 14"

record ustat =
  ust_type :: int
  ust_ino :: uint
  ust_size :: uint

text \<open>
  The text after the last slash, blank-padded.  The static buffer has a zero in its last byte, which
  nothing writes, so the padded name has exactly \<^verbatim>\<open>DIRSIZ\<close> bytes.
\<close>

definition after_slash :: "byte list \<Rightarrow> byte list" where
  "after_slash path = rev (takeWhile (\<lambda>c. c \<noteq> 47) (rev path))"

definition fmtname :: "byte list \<Rightarrow> byte list" where
  "fmtname path =
     (let p = after_slash path in
      if DIRSIZ_u \<le> length p then p else p @ replicate (DIRSIZ_u - length p) 32)"

definition ls_line :: "byte list \<Rightarrow> ustat \<Rightarrow> byte list" where
  "ls_line path st = the (u_printf (str ''%s %d %d %d'' @ [10])
     [UStr (Some (fmtname path)), UInt (of_int (ust_type st)), UInt (ust_ino st), UInt (ust_size st)])"

text \<open>
  The entries that reading the directory delivers, each an inode number and the bytes of the name
  field; \<open>stat\<close> is the user-level call.
\<close>

fun ls_entries :: "(byte list \<Rightarrow> ustat option) \<Rightarrow> byte list \<Rightarrow> (ushort \<times> byte list) list \<Rightarrow> byte list" where
  "ls_entries stat path [] = []"
| "ls_entries stat path ((inum, name) # des) =
     (if inum = 0 then ls_entries stat path des else
      let buf = path @ [47] @ takeWhile (\<lambda>c. c \<noteq> 0) (take DIRSIZ_u name) in
      (case stat buf of
         None \<Rightarrow> str ''ls: cannot stat '' @ buf @ [10]
       | Some st \<Rightarrow> ls_line buf st) @ ls_entries stat path des)"

text \<open>
  What \<^verbatim>\<open>ls\<close> prints; \<open>opened\<close> is what opening the path gives: nothing, or the result of
  \<^verbatim>\<open>fstat\<close> and the entries that the reads deliver.
\<close>

definition ls :: "(byte list \<Rightarrow> (ustat option \<times> (ushort \<times> byte list) list) option) \<Rightarrow> (byte list \<Rightarrow> ustat option) \<Rightarrow> byte list \<Rightarrow> byte list" where
  "ls opened stat path =
     (case opened path of
        None \<Rightarrow> str ''ls: cannot open '' @ path @ [10]
      | Some (None, _) \<Rightarrow> str ''ls: cannot stat '' @ path @ [10]
      | Some (Some st, des) \<Rightarrow>
          if ust_type st = 2 then ls_line path st
          else if ust_type st = 1 then
            (if 512 < length path + 1 + DIRSIZ_u + 1 then str ''ls: path too long'' @ [10]
             else ls_entries stat path des)
          else [])"

definition ls_main :: "(byte list \<Rightarrow> (ustat option \<times> (ushort \<times> byte list) list) option) \<Rightarrow> (byte list \<Rightarrow> ustat option) \<Rightarrow> byte list list \<Rightarrow> byte list" where
  "ls_main opened stat args =
     (if args = [] then ls opened stat (str ''.'') else concat (map (ls opened stat) args))"

lemma length_fmtname: "DIRSIZ_u \<le> length (fmtname path)"
  by (simp add: fmtname_def Let_def)

lemma after_slash_entry: "47 \<notin> set name \<Longrightarrow> after_slash (path @ [47] @ name) = name"
proof -
  assume "47 \<notin> set name"
  then have "takeWhile (\<lambda>c. c \<noteq> 47) (rev name @ 47 # rev path) = rev name"
    by (induction "rev name" arbitrary: name rule: rev_induct) (auto simp: takeWhile_append)
  then show ?thesis by (simp add: after_slash_def)
qed

text \<open>The name of an entry without slashes is printed whole and padded to the width of the field.\<close>

lemma fmtname_entry:
  assumes "47 \<notin> set name" "length name \<le> DIRSIZ_u"
  shows "fmtname (path @ [47] @ name) = name @ replicate (DIRSIZ_u - length name) 32"
  using assms by (simp add: fmtname_def after_slash_entry[OF assms(1), simplified] Let_def)

section \<open>The arguments of grep (grep.c)\<close>

text \<open>The loop of \<^verbatim>\<open>grep\<close> ends at the first read that delivers nothing, an error included.\<close>

definition grep_main :: "reads \<Rightarrow> (byte list \<Rightarrow> reads option) \<Rightarrow> byte list list \<Rightarrow> byte list" where
  "grep_main stdin files args =
     (case args of
        [] \<Rightarrow> str ''usage: grep pattern [file ...]'' @ [10]
      | pattern # names \<Rightarrow>
          let run = (\<lambda>rs. grep pattern [] (map the (takeWhile (\<lambda>r. r \<noteq> None) rs))) in
          if names = [] then run stdin else each_file (str ''grep'') (\<lambda>rs _. (run rs, True)) files names)"

end
