(* ===== verification/Sh.thy ===== *)
theory Sh
  imports Prelude
begin

text \<open>
  The parser of the shell, \<^verbatim>\<open>sh.c\<close>.  The position of the parser in the line is the list
  of the bytes that are left.  A string of a command is its text, so
  \<^verbatim>\<open>nulterminate\<close>, which stores the zeros after the words once the line is parsed, has
  no counterpart.  The lemmas show that the parser returns on every line, that it builds only
  well-formed commands, and that it reads the printed form of every such command back.
\<close>

section \<open>Commands and tokens\<close>

datatype cmd =
    EXEC "byte list list"
  | REDIR cmd "byte list" int int
  | PIPE cmd cmd
  | LIST cmd cmd
  | BACK cmd

abbreviation (input) MAXARGS :: nat where "MAXARGS \<equiv> 10"
abbreviation (input) O_RDONLY :: int where "O_RDONLY \<equiv> 0"
abbreviation (input) O_WRONLY_CREATE :: int where "O_WRONLY_CREATE \<equiv> 0x201"

text \<open>The arrays \<^verbatim>\<open>whitespace\<close> and \<^verbatim>\<open>symbols\<close>.\<close>

definition whitespace :: "byte list" where
  "whitespace = [32, 9, 13, 10, 11]"

definition symbols :: "byte list" where
  "symbols = [60, 124, 62, 38, 59, 40, 41]"

definition skip_ws :: "byte list \<Rightarrow> byte list" where
  "skip_ws s = dropWhile (\<lambda>c. c \<in> set whitespace) s"

definition word_char :: "byte \<Rightarrow> bool" where
  "word_char c \<longleftrightarrow> c \<notin> set whitespace \<and> c \<notin> set symbols"

text \<open>A token is its kind (zero at the end, 97 for a word, 43 for two greater-than signs), its text and the rest.\<close>

definition gettoken :: "byte list \<Rightarrow> byte \<times> byte list \<times> byte list" where
  "gettoken s =
     (let s = skip_ws s in
      case s of
        [] \<Rightarrow> (0, [], [])
      | c # r \<Rightarrow>
          if c \<in> {124, 40, 41, 59, 38, 60} then (c, [c], skip_ws r)
          else if c = 62 then
            (if r \<noteq> [] \<and> hd r = 62 then (43, [62, 62], skip_ws (tl r)) else (62, [62], skip_ws r))
          else (97, takeWhile word_char s, skip_ws (dropWhile word_char s)))"

definition peek :: "byte list \<Rightarrow> byte list \<Rightarrow> byte list \<times> bool" where
  "peek toks s = (let s = skip_ws s in (s, s \<noteq> [] \<and> hd s \<in> set toks))"

section \<open>Parsing\<close>

text \<open>
  A parser succeeds with a result and the rest of the input, or the shell panics with a message,
  or it panics after printing what is left over of the line.
  The last argument bounds the depth of the calls and loop iterations.
\<close>

datatype 'a presult = Parsed 'a "byte list" | Panics string | Leftovers "byte list" | Deep

fun pbind :: "'a presult \<Rightarrow> ('a \<Rightarrow> byte list \<Rightarrow> 'b presult) \<Rightarrow> 'b presult" where
  "pbind (Parsed a s) f = f a s"
| "pbind (Panics msg) f = Panics msg"
| "pbind (Leftovers t) f = Leftovers t"
| "pbind Deep f = Deep"

text \<open>The redirections that \<^verbatim>\<open>parseredirs\<close> wraps around a command, innermost first.\<close>

type_synonym redir = "byte list \<times> int \<times> int"

definition wrap :: "cmd \<Rightarrow> redir list \<Rightarrow> cmd" where
  "wrap c rs = foldl (\<lambda>c (file, mode, fd). REDIR c file mode fd) c rs"

fun parseredirs :: "nat \<Rightarrow> byte list \<Rightarrow> redir list presult" where
  "parseredirs 0 s = Deep"
| "parseredirs (Suc n) s =
     (let (s, more) = peek [60, 62] s in
      if \<not> more then Parsed [] s else
      let (tok, _, s) = gettoken s; (tok2, q, s) = gettoken s in
      if tok2 \<noteq> 97 then Panics ''missing file for redirection'' else
      pbind (parseredirs n s) (\<lambda>rs s.
        Parsed ((if tok = 60 then (q, O_RDONLY, 0) else (q, O_WRONLY_CREATE, 1)) # rs) s))"

text \<open>
  The loop of \<^verbatim>\<open>parseexec\<close>: the command is filled in while redirections are wrapped around
  it, so the arguments and the redirections are collected side by side.
\<close>

fun args_loop :: "nat \<Rightarrow> byte list list \<Rightarrow> redir list \<Rightarrow> byte list \<Rightarrow> cmd presult" where
  "args_loop 0 argv rs s = Deep"
| "args_loop (Suc n) argv rs s =
     (let (s, stop) = peek [124, 41, 38, 59] s in
      if stop then Parsed (wrap (EXEC argv) rs) s else
      let (tok, q, s) = gettoken s in
      if tok = 0 then Parsed (wrap (EXEC argv) rs) s else
      if tok \<noteq> 97 then Panics ''syntax'' else
      if MAXARGS \<le> length argv + 1 then Panics ''too many args'' else
      pbind (parseredirs n s) (\<lambda>rs' s. args_loop n (argv @ [q]) (rs @ rs') s))"

fun back_loop :: "nat \<Rightarrow> cmd \<Rightarrow> byte list \<Rightarrow> cmd presult" where
  "back_loop 0 c s = Deep"
| "back_loop (Suc n) c s =
     (let (s, more) = peek [38] s in
      if more then (let (_, _, s) = gettoken s in back_loop n (BACK c) s) else Parsed c s)"

fun parseline :: "nat \<Rightarrow> byte list \<Rightarrow> cmd presult"
and parsepipe :: "nat \<Rightarrow> byte list \<Rightarrow> cmd presult"
and parseblock :: "nat \<Rightarrow> byte list \<Rightarrow> cmd presult"
and parseexec :: "nat \<Rightarrow> byte list \<Rightarrow> cmd presult" where
  "parseline 0 s = Deep"
| "parseline (Suc n) s =
     pbind (parsepipe n s) (\<lambda>c s.
     pbind (back_loop n c s) (\<lambda>c s.
     let (s, more) = peek [59] s in
     if \<not> more then Parsed c s else
     let (_, _, s) = gettoken s in
     pbind (parseline n s) (\<lambda>c' s. Parsed (LIST c c') s)))"
| "parsepipe 0 s = Deep"
| "parsepipe (Suc n) s =
     pbind (parseexec n s) (\<lambda>c s.
     let (s, more) = peek [124] s in
     if \<not> more then Parsed c s else
     let (_, _, s) = gettoken s in
     pbind (parsepipe n s) (\<lambda>c' s. Parsed (PIPE c c') s))"
| "parseblock 0 s = Deep"
| "parseblock (Suc n) s =
     (let (s, ok) = peek [40] s in
      if \<not> ok then Panics ''parseblock'' else
      let (_, _, s) = gettoken s in
      pbind (parseline n s) (\<lambda>c s.
      let (s, ok) = peek [41] s in
      if \<not> ok then Panics ''syntax - missing )'' else
      let (_, _, s) = gettoken s in
      pbind (parseredirs n s) (\<lambda>rs s. Parsed (wrap c rs) s)))"
| "parseexec 0 s = Deep"
| "parseexec (Suc n) s =
     (let (s, block) = peek [40] s in
      if block then parseblock n s else
      pbind (parseredirs n s) (\<lambda>rs s. args_loop n [] rs s))"

definition parsecmd_fuel :: "nat \<Rightarrow> byte list \<Rightarrow> cmd presult" where
  "parsecmd_fuel n s =
     pbind (parseline n s) (\<lambda>c s.
     let (s, _) = peek [] s in
     if s \<noteq> [] then Leftovers s else Parsed c s)"

text \<open>Four levels for each byte of the input are enough.\<close>

definition parsecmd :: "byte list \<Rightarrow> cmd presult" where
  "parsecmd s = parsecmd_fuel (4 * length s + 4) s"

section \<open>The parser always returns\<close>

lemma skip_ws_length: "length (skip_ws s) \<le> length s"
  by (simp add: skip_ws_def length_dropWhile_le)

lemma skip_ws_idem [simp]: "skip_ws (skip_ws s) = skip_ws s"
  by (simp add: skip_ws_def)

lemma hd_skip_ws: "skip_ws s \<noteq> [] \<Longrightarrow> hd (skip_ws s) \<notin> set whitespace"
  unfolding skip_ws_def by (rule hd_dropWhile)

lemma skip_ws_Cons: "skip_ws (c # s) = (if c \<in> set whitespace then skip_ws s else c # s)"
  by (simp add: skip_ws_def)

lemma skip_ws_word: "w \<noteq> [] \<Longrightarrow> word_char (hd w) \<Longrightarrow> skip_ws (w @ s) = w @ s"
  by (cases w) (auto simp: skip_ws_Cons word_char_def)

lemma peek_eq: "peek toks s = (skip_ws s, skip_ws s \<noteq> [] \<and> hd (skip_ws s) \<in> set toks)"
  by (simp add: peek_def Let_def)

lemma gettoken_shorter:
  assumes "gettoken s = (tok, q, r)"
  shows "length r \<le> length s" "tok \<noteq> 0 \<Longrightarrow> length r < length s" "skip_ws s \<noteq> [] \<Longrightarrow> length r < length s"
proof -
  have "length r < length s" if "skip_ws s = c # t" for c t
  proof -
    have l: "length t < length s" using skip_ws_length[of s] that by simp
    have "word_char c" if "c \<notin> {124, 40, 41, 59, 38, 60}" "c \<noteq> 62"
      using hd_skip_ws[of s] \<open>skip_ws s = c # t\<close> that by (auto simp: word_char_def symbols_def)
    then have "r = skip_ws t \<or> r = skip_ws (tl t) \<or> r = skip_ws (dropWhile word_char t)"
      using assms that by (auto simp: gettoken_def Let_def split: if_splits)
    then show ?thesis
      using l skip_ws_length[of t] skip_ws_length[of "tl t"] skip_ws_length[of "dropWhile word_char t"]
        length_dropWhile_le[of word_char t] by auto
  qed
  then show "length r \<le> length s" "tok \<noteq> 0 \<Longrightarrow> length r < length s" "skip_ws s \<noteq> [] \<Longrightarrow> length r < length s"
    using assms by (cases "skip_ws s"; auto simp: gettoken_def Let_def)+
qed

text \<open>A parser that has not run out of depth and left at most \<open>l\<close> bytes.\<close>

definition within :: "nat \<Rightarrow> 'a presult \<Rightarrow> bool" where
  "within l m \<longleftrightarrow> (case m of Parsed a r \<Rightarrow> length r \<le> l | Deep \<Rightarrow> False | _ \<Rightarrow> True)"

lemma within_simps [simp]:
  "within l (Parsed a r) \<longleftrightarrow> length r \<le> l" "within l (Panics msg)" "within l (Leftovers t)" "\<not> within l Deep"
  by (simp_all add: within_def)

lemma within_bind:
  "within l m \<Longrightarrow> (\<And>a r. length r \<le> l \<Longrightarrow> within k (f a r)) \<Longrightarrow> within k (pbind m f)"
  by (cases m) auto

lemma within_mono: "within l m \<Longrightarrow> l \<le> k \<Longrightarrow> within k m"
  by (cases m) auto

lemma within_peek:
  "within k (let (s, b) = peek toks s in f s b)" if "\<And>s' b. length s' \<le> length s \<Longrightarrow> (b \<Longrightarrow> skip_ws s' \<noteq> []) \<Longrightarrow> within k (f s' b)"
  using that[of "skip_ws s"] skip_ws_length[of s] by (simp add: peek_eq)

lemma within_token:
  "within k (let (t, q, s) = gettoken s in f t q s)"
  if "\<And>t q s'. length s' \<le> length s \<Longrightarrow> (t \<noteq> 0 \<Longrightarrow> length s' < length s) \<Longrightarrow> (skip_ws s \<noteq> [] \<Longrightarrow> length s' < length s) \<Longrightarrow> within k (f t q s')"
proof -
  obtain t q r where "gettoken s = (t, q, r)" by (metis prod_cases3)
  then show ?thesis using that[of r t q] gettoken_shorter[of s t q r] by simp
qed

lemma parseredirs_within: "length s < n \<Longrightarrow> within (length s) (parseredirs n s)"
proof (induction n arbitrary: s)
  case (Suc n)
  show ?case
    unfolding parseredirs.simps
  proof (rule within_peek, goal_cases)
    case (1 s1 b)
    show ?case
    proof (cases b)
      case True
      have "within (length s) (let (tok, _, s) = gettoken s1; (tok2, q, s) = gettoken s in
        if tok2 \<noteq> 97 then Panics ''missing file for redirection'' else
        pbind (parseredirs n s) (\<lambda>rs s.
          Parsed ((if tok = 60 then (q, O_RDONLY, 0) else (q, O_WRONLY_CREATE, 1)) # rs) s))"
      proof (rule within_token, rule within_token, goal_cases)
        case (1 t q s2 t' q' s3)
        have l: "length s3 < n" "length s3 \<le> length s" using 1 \<open>length s1 \<le> length s\<close> \<open>b \<Longrightarrow> skip_ws s1 \<noteq> []\<close> True Suc.prems by auto
        show ?case using l(2) by (auto intro!: within_bind[OF Suc.IH[OF l(1)]])
      qed
      then show ?thesis using True by simp
    qed (use 1 in simp)
  qed
qed simp

lemma args_loop_within: "length s < n \<Longrightarrow> within (length s) (args_loop n argv rs s)"
proof (induction n arbitrary: s argv rs)
  case (Suc n)
  show ?case
    unfolding args_loop.simps
  proof (rule within_peek, goal_cases)
    case (1 s1 b)
    have "within (length s) (let (tok, q, s) = gettoken s1 in
      if tok = 0 then Parsed (wrap (EXEC argv) rs) s else
      if tok \<noteq> 97 then Panics ''syntax'' else
      if MAXARGS \<le> length argv + 1 then Panics ''too many args'' else
      pbind (parseredirs n s) (\<lambda>rs' s. args_loop n (argv @ [q]) (rs @ rs') s))"
    proof (rule within_token, goal_cases)
      case (1 t q s2)
      have l: "length s2 < n" if "t = 97" using 1 \<open>length s1 \<le> length s\<close> Suc.prems that by auto
      show ?case
        using 1 \<open>length s1 \<le> length s\<close> l
        by (auto intro!: within_bind[OF parseredirs_within] within_mono[OF Suc.IH])
    qed
    then show ?case using 1 by simp
  qed
qed simp

lemma back_loop_within: "length s < n \<Longrightarrow> within (length s) (back_loop n c s)"
proof (induction n arbitrary: s c)
  case (Suc n)
  show ?case
    unfolding back_loop.simps
  proof (rule within_peek, goal_cases)
    case (1 s1 b)
    have "within (length s) (let (_, _, s) = gettoken s1 in back_loop n (BACK c) s)" if b
      by (rule within_token) (use 1 Suc.prems that in \<open>auto intro!: within_mono[OF Suc.IH]\<close>)
    then show ?case using 1 by simp
  qed
qed simp

text \<open>Enough depth for a line of \<open>l\<close> bytes; each kind of call needs one level more than those it makes.\<close>

lemma parseline_within:
  assumes n: "4 * length s + 3 \<le> n"
    and line: "\<And>s. 4 * length s + 4 \<le> n \<Longrightarrow> within (length s) (parseline n s)"
    and pip: "\<And>s. 4 * length s + 3 \<le> n \<Longrightarrow> within (length s) (parsepipe n s)"
  shows "within (length s) (parseline (Suc n) s)"
  unfolding parseline.simps
proof (rule within_bind[OF pip[OF n]], rule within_bind[OF back_loop_within], goal_cases)
  case (2 c r c' r')
  show ?case
  proof (rule within_peek, goal_cases)
    case (1 s1 b)
    have "within (length s) (let (_, _, s) = gettoken s1 in pbind (parseline n s) (\<lambda>c'' s. Parsed (LIST c' c'') s))" if b
    proof (rule within_token, rule within_bind[OF line], goal_cases)
      case (1 t q s2)
      then show ?case using \<open>length s1 \<le> length r'\<close> 2 n \<open>b \<Longrightarrow> skip_ws s1 \<noteq> []\<close> that by fastforce
    next
      case (2 t q s2 a r2)
      then show ?case using \<open>length s1 \<le> length r'\<close> \<open>length r \<le> length s\<close> \<open>length r' \<le> length r\<close> by simp
    qed
    then show ?case using 1 2 by simp
  qed
qed (use n in simp)

lemma parsepipe_within:
  assumes n: "4 * length s + 2 \<le> n"
    and pip: "\<And>s. 4 * length s + 3 \<le> n \<Longrightarrow> within (length s) (parsepipe n s)"
    and exe: "\<And>s. 4 * length s + 2 \<le> n \<Longrightarrow> within (length s) (parseexec n s)"
  shows "within (length s) (parsepipe (Suc n) s)"
  unfolding parsepipe.simps
proof (rule within_bind[OF exe[OF n]], rule within_peek, goal_cases)
  case (1 c r s1 b)
  have "within (length s) (let (_, _, s) = gettoken s1 in pbind (parsepipe n s) (\<lambda>c' s. Parsed (PIPE c c') s))" if b
  proof (rule within_token, rule within_bind[OF pip], goal_cases)
    case (1 t q s2)
    then show ?case using \<open>length s1 \<le> length r\<close> \<open>length r \<le> length s\<close> n \<open>b \<Longrightarrow> skip_ws s1 \<noteq> []\<close> that by fastforce
  next
    case (2 t q s2 a r2)
    then show ?case using \<open>length s1 \<le> length r\<close> \<open>length r \<le> length s\<close> by simp
  qed
  then show ?case using 1 by simp
qed

lemma parseblock_within:
  assumes n: "4 * length s \<le> n"
    and line: "\<And>s. 4 * length s + 4 \<le> n \<Longrightarrow> within (length s) (parseline n s)"
  shows "within (length s) (parseblock (Suc n) s)"
  unfolding parseblock.simps
proof (rule within_peek, goal_cases)
  case (1 s1 b)
  have "within (length s) (let (_, _, s) = gettoken s1 in
    pbind (parseline n s) (\<lambda>c s.
    let (s, ok) = peek [41] s in
    if \<not> ok then Panics ''syntax - missing )'' else
    let (_, _, s) = gettoken s in
    pbind (parseredirs n s) (\<lambda>rs s. Parsed (wrap c rs) s)))" if b
  proof (rule within_token, rule within_bind[OF line], goal_cases)
    case (1 t q s2)
    then show ?case using \<open>length s1 \<le> length s\<close> n \<open>b \<Longrightarrow> skip_ws s1 \<noteq> []\<close> that by fastforce
  next
    case (2 t q s2 c r)
    have r: "length r < length s" using 2 \<open>length s1 \<le> length s\<close> \<open>b \<Longrightarrow> skip_ws s1 \<noteq> []\<close> that by fastforce
    show ?case
    proof (rule within_peek, goal_cases)
      case (1 s3 b')
      have "within (length s) (let (_, _, s) = gettoken s3 in pbind (parseredirs n s) (\<lambda>rs s. Parsed (wrap c rs) s))"
        by (rule within_token, rule within_bind[OF parseredirs_within]) (use 1 r n in auto)
      then show ?case by simp
    qed
  qed
  then show ?case by simp
qed

lemma parseexec_within:
  assumes n: "4 * length s + 1 \<le> n"
    and block: "\<And>s. 4 * length s + 1 \<le> n \<Longrightarrow> within (length s) (parseblock n s)"
  shows "within (length s) (parseexec (Suc n) s)"
  unfolding parseexec.simps
proof (rule within_peek, goal_cases)
  case (1 s1 b)
  have "within (length s) (pbind (parseredirs n s1) (\<lambda>rs s. args_loop n [] rs s))"
    by (rule within_bind[OF parseredirs_within]) (use 1 n in \<open>auto intro!: within_mono[OF args_loop_within]\<close>)
  moreover have "within (length s) (parseblock n s1)" by (rule within_mono[OF block]) (use 1 n in auto)
  ultimately show ?case by simp
qed

lemma parse_within:
  "(4 * length s + 4 \<le> n \<longrightarrow> within (length s) (parseline n s))
   \<and> (4 * length s + 3 \<le> n \<longrightarrow> within (length s) (parsepipe n s))
   \<and> (4 * length s + 1 \<le> n \<longrightarrow> within (length s) (parseblock n s))
   \<and> (4 * length s + 2 \<le> n \<longrightarrow> within (length s) (parseexec n s))"
proof (induction n arbitrary: s)
  case (Suc n)
  show ?case
    using parseline_within[of s n] parsepipe_within[of s n] parseblock_within[of s n] parseexec_within[of s n] Suc.IH
    by simp
qed simp

subsection \<open>More depth changes nothing\<close>

definition upto_deep :: "'a presult \<Rightarrow> 'a presult \<Rightarrow> bool" where
  "upto_deep m m' \<longleftrightarrow> m = Deep \<or> m = m'"

lemma upto_deep_refl [simp]: "upto_deep m m" "upto_deep Deep m"
  by (simp_all add: upto_deep_def)

lemma upto_deep_bind:
  "upto_deep m m' \<Longrightarrow> (\<And>a s. upto_deep (f a s) (f' a s)) \<Longrightarrow> upto_deep (pbind m f) (pbind m' f')"
  unfolding upto_deep_def by (cases m; cases m'; simp)

lemma upto_deep_if: "(b \<Longrightarrow> upto_deep m m') \<Longrightarrow> (\<not> b \<Longrightarrow> upto_deep k k') \<Longrightarrow> upto_deep (if b then m else k) (if b then m' else k')"
  by simp

lemma upto_deep_split: "(\<And>a b. upto_deep (f a b) (f' a b)) \<Longrightarrow> upto_deep (case p of (a, b) \<Rightarrow> f a b) (case p of (a, b) \<Rightarrow> f' a b)"
  by (cases p) simp

lemmas upto_deep_rules = upto_deep_bind upto_deep_if upto_deep_split upto_deep_refl

lemma parseredirs_more: "n \<le> m \<Longrightarrow> upto_deep (parseredirs n s) (parseredirs m s)"
proof (induction n arbitrary: m s)
  case (Suc n)
  then obtain k where m: "m = Suc k" "n \<le> k" by (cases m) auto
  show ?case unfolding m(1) parseredirs.simps Let_def by (intro upto_deep_rules Suc.IH m(2))
qed simp

lemma args_loop_more: "n \<le> m \<Longrightarrow> upto_deep (args_loop n argv rs s) (args_loop m argv rs s)"
proof (induction n arbitrary: m argv rs s)
  case (Suc n)
  then obtain k where m: "m = Suc k" "n \<le> k" by (cases m) auto
  show ?case unfolding m(1) args_loop.simps Let_def by (intro upto_deep_rules Suc.IH parseredirs_more m(2))
qed simp

lemma back_loop_more: "n \<le> m \<Longrightarrow> upto_deep (back_loop n c s) (back_loop m c s)"
proof (induction n arbitrary: m c s)
  case (Suc n)
  then obtain k where m: "m = Suc k" "n \<le> k" by (cases m) auto
  show ?case unfolding m(1) back_loop.simps Let_def by (intro upto_deep_rules Suc.IH m(2))
qed simp

lemma parse_more:
  "n \<le> m \<Longrightarrow> upto_deep (parseline n s) (parseline m s) \<and> upto_deep (parsepipe n s) (parsepipe m s)
   \<and> upto_deep (parseblock n s) (parseblock m s) \<and> upto_deep (parseexec n s) (parseexec m s)"
proof (induction n arbitrary: m s)
  case (Suc n)
  then obtain k where m: "m = Suc k" "n \<le> k" by (cases m) auto
  have ih: "upto_deep (parseline n s) (parseline k s)" "upto_deep (parsepipe n s) (parsepipe k s)"
    "upto_deep (parseblock n s) (parseblock k s)" "upto_deep (parseexec n s) (parseexec k s)" for s
    using Suc.IH m(2) by blast+
  show ?case
    unfolding m(1) parseline.simps parsepipe.simps parseblock.simps parseexec.simps Let_def
    by (intro conjI upto_deep_rules ih parseredirs_more args_loop_more back_loop_more m(2))
qed simp

lemma parseline_depth: "parseline (4 * length s + 4 + k) s = parseline (4 * length s + 4) s"
  using parse_within[of s "4 * length s + 4"] parse_more[of "4 * length s + 4" "4 * length s + 4 + k" s]
  by (auto simp: upto_deep_def)

text \<open>
  C13 (the shell's parser returns): on every input line \<^verbatim>\<open>parsecmd\<close> ends, with a command or
  with an error; the depth of calls it needs is at most four times the length of the line plus
  four, and no greater depth gives another result.
\<close>

theorem parse_terminates:
  "parsecmd s \<noteq> Deep \<and> parsecmd_fuel (4 * length s + 4 + k) s = parsecmd s"
proof -
  have "within (length s) (parseline (4 * length s + 4) s)" using parse_within[of s "4 * length s + 4"] by simp
  then have "parsecmd s \<noteq> Deep"
    by (cases "parseline (4 * length s + 4) s") (auto simp: parsecmd_def parsecmd_fuel_def Let_def split: prod.split)
  then show ?thesis using parseline_depth[of s k] by (simp add: parsecmd_def parsecmd_fuel_def)
qed

section \<open>Printing commands and reading them back\<close>

subsection \<open>Runs of the parser\<close>

text \<open>The parser of this kind succeeds from some depth on; the rules follow the grammar.\<close>

definition reads_as :: "(nat \<Rightarrow> byte list \<Rightarrow> 'a presult) \<Rightarrow> byte list \<Rightarrow> 'a \<Rightarrow> byte list \<Rightarrow> bool" where
  "reads_as p s c r \<longleftrightarrow> (\<exists>n. \<forall>m \<ge> n. p m s = Parsed c r)"

lemma reads_asI: "(\<And>m. n \<le> m \<Longrightarrow> p (Suc m) s = Parsed c r) \<Longrightarrow> reads_as p s c r"
  unfolding reads_as_def by (rule exI[of _ "Suc n"]) (metis Suc_le_D Suc_le_mono)

lemma reads_asI2: "(\<And>m. n \<le> m \<Longrightarrow> p (Suc (Suc m)) s = Parsed c r) \<Longrightarrow> reads_as p s c r"
  by (rule reads_asI[of "Suc n"]) (metis Suc_le_D Suc_le_mono)

text \<open>What follows a command: the end, or after white space one of some symbols.\<close>

definition stop :: "byte list \<Rightarrow> byte list \<Rightarrow> bool" where
  "stop toks r \<longleftrightarrow> skip_ws r = [] \<or> hd (skip_ws r) \<in> set toks"

lemma stop_mono: "stop a r \<Longrightarrow> set a \<subseteq> set b \<Longrightarrow> stop b r"
  by (auto simp: stop_def)

lemma stop_peek: "stop a r \<Longrightarrow> set a \<inter> set b = {} \<Longrightarrow> peek b r = (skip_ws r, False)"
  by (auto simp: stop_def peek_eq)

lemma stop_skip [simp]: "stop a (skip_ws r) = stop a r"
  by (simp add: stop_def)

lemma stop_Cons: "c \<in> set a \<Longrightarrow> c \<notin> set whitespace \<Longrightarrow> stop a (c # r)"
  by (simp add: stop_def skip_ws_Cons)

lemma peek_skip [simp]: "peek toks (skip_ws r) = peek toks r"
  by (simp add: peek_eq)

lemma peek_symbol: "c \<notin> set whitespace \<Longrightarrow> peek toks (c # r) = (c # r, c \<in> set toks)"
  by (simp add: peek_eq skip_ws_Cons)

lemma gettoken_symbol: "c \<in> {124, 40, 41, 59, 38, 60} \<Longrightarrow> gettoken (c # r) = (c, [c], skip_ws r)"
  by (auto simp: gettoken_def skip_ws_Cons whitespace_def)

lemma gettoken_greater: "r = [] \<or> hd r \<noteq> 62 \<Longrightarrow> gettoken (62 # r) = (62, [62], skip_ws r)"
  by (auto simp: gettoken_def skip_ws_Cons whitespace_def)

definition is_word :: "byte list \<Rightarrow> bool" where
  "is_word w \<longleftrightarrow> w \<noteq> [] \<and> (\<forall>c \<in> set w. word_char c)"

lemma word_char_no_symbol: "word_char c \<Longrightarrow> c \<notin> {124, 40, 41, 59, 38, 60, 62}"
  by (auto simp: word_char_def symbols_def)

lemma gettoken_word:
  assumes "is_word w"
  shows "gettoken (w @ 32 # r) = (97, w, skip_ws r)" "skip_ws (w @ 32 # r) = w @ 32 # r"
proof -
  have w: "w \<noteq> []" "\<forall>c \<in> set w. word_char c" "word_char (hd w)" using assms by (auto simp: is_word_def)
  show s: "skip_ws (w @ 32 # r) = w @ 32 # r" by (rule skip_ws_word) (use w in auto)
  have n: "\<not> word_char 32" "(32::byte) \<in> set whitespace" by (auto simp: word_char_def whitespace_def)
  then have t: "takeWhile word_char (w @ 32 # r) = w" "dropWhile word_char (w @ 32 # r) = 32 # r" using w(2) by auto
  obtain c v where c: "w = c # v" using w(1) by (cases w) auto
  show "gettoken (w @ 32 # r) = (97, w, skip_ws r)"
    using word_char_no_symbol[of c] w(3) c t n(2) unfolding gettoken_def s by (auto simp: skip_ws_Cons)
qed

lemma peek_word: "is_word w \<Longrightarrow> set toks \<subseteq> set symbols \<Longrightarrow> peek toks (w @ r) = (w @ r, False)"
  by (cases w) (auto simp: is_word_def peek_eq skip_ws_Cons word_char_def)

subsection \<open>Printing\<close>

definition redir_ok :: "redir \<Rightarrow> bool" where
  "redir_ok = (\<lambda>(file, mode, fd). is_word file \<and> (mode, fd) \<in> {(O_RDONLY, 0), (O_WRONLY_CREATE, 1)})"

fun cmd_ok :: "cmd \<Rightarrow> bool" where
  "cmd_ok (EXEC argv) \<longleftrightarrow> length argv < MAXARGS \<and> (\<forall>w \<in> set argv. is_word w)"
| "cmd_ok (REDIR c file mode fd) \<longleftrightarrow> cmd_ok c \<and> redir_ok (file, mode, fd)"
| "cmd_ok (PIPE c d) \<longleftrightarrow> cmd_ok c \<and> cmd_ok d"
| "cmd_ok (LIST c d) \<longleftrightarrow> cmd_ok c \<and> cmd_ok d"
| "cmd_ok (BACK c) \<longleftrightarrow> cmd_ok c"

definition show_redir :: "redir \<Rightarrow> byte list" where
  "show_redir = (\<lambda>(file, mode, fd). (if fd = 0 then 60 else 62) # file @ [32])"

definition parens :: "bool \<Rightarrow> byte list \<Rightarrow> byte list" where
  "parens b s = (if b then 40 # s @ [41] else s)"

text \<open>The text of a command where a line (0), a background command (1), a pipeline (2) or a simple command (3) is expected.\<close>

fun show_cmd :: "nat \<Rightarrow> cmd \<Rightarrow> byte list" where
  "show_cmd k (EXEC argv) = concat (map (\<lambda>w. w @ [32]) argv)"
| "show_cmd k (REDIR c file mode fd) = show_cmd 3 c @ show_redir (file, mode, fd)"
| "show_cmd k (PIPE c d) = parens (2 < k) (show_cmd 3 c @ 124 # show_cmd 2 d)"
| "show_cmd k (BACK c) = parens (1 < k) (show_cmd 1 c @ [38])"
| "show_cmd k (LIST c d) = parens (0 < k) (show_cmd 1 c @ 59 # show_cmd 0 d)"

lemma redirs_read:
  assumes "\<forall>d \<in> set rs. redir_ok d" "stop [124, 41, 38, 59] r \<or> (\<exists>w t. is_word w \<and> r = w @ t)"
  shows "reads_as parseredirs (concat (map show_redir rs) @ r) rs (skip_ws r)"
  using assms(1)
proof (induction rs)
  case Nil
  have "peek [60, 62] r = (skip_ws r, False)"
    using assms(2) stop_peek[of _ r "[60, 62]"] peek_word[of _ "[60, 62]"] by (fastforce simp: peek_eq symbols_def)
  then show ?case by (intro reads_asI[of 0]) simp
next
  case (Cons d rs)
  obtain fl mode fd where d: "d = (fl, mode, fd)" by (cases d)
  let ?r = "concat (map show_redir rs) @ r"
  have f: "is_word fl" "(mode, fd) \<in> {(O_RDONLY, 0), (O_WRONLY_CREATE, 1)}" using Cons.prems d by (auto simp: redir_ok_def)
  obtain n where n: "\<And>m. n \<le> m \<Longrightarrow> parseredirs m ?r = Parsed rs (skip_ws r)" using Cons by (auto simp: reads_as_def)
  have same: "parseredirs m (skip_ws s) = parseredirs m s" for m s by (cases m) simp_all
  let ?c = "if fd = 0 then 60 else 62 :: byte"
  obtain a v where a: "fl = a # v" "word_char a" using f(1) by (cases fl) (auto simp: is_word_def)
  have t: "gettoken (?c # fl @ 32 # ?r) = (?c, [?c], fl @ 32 # ?r)"
    using gettoken_symbol[of 60 "fl @ 32 # ?r"] gettoken_greater[of "fl @ 32 # ?r"] gettoken_word(2)[OF f(1)]
      word_char_no_symbol[OF a(2)] a(1) by auto
  have p: "peek [60, 62] (?c # fl @ 32 # ?r) = (?c # fl @ 32 # ?r, True)"
    by (auto simp: peek_eq skip_ws_Cons whitespace_def)
  have e: "concat (map show_redir (d # rs)) @ r = ?c # fl @ 32 # ?r" by (simp add: d show_redir_def)
  show ?case unfolding e
  proof (rule reads_asI[of n])
    fix m assume "n \<le> m"
    then show "parseredirs (Suc m) (?c # fl @ 32 # ?r) = Parsed (d # rs) (skip_ws r)"
      unfolding parseredirs.simps p using t gettoken_word(1)[OF f(1), of ?r] f(2) n by (auto simp: same d)
  qed
qed

lemma args_read:
  assumes "\<forall>w \<in> set ws. is_word w" "ws \<noteq> []" "length argv + length ws < MAXARGS"
    "\<forall>d \<in> set rs. redir_ok d" "stop [124, 41, 38, 59] r"
  shows "reads_as (\<lambda>n. args_loop n argv rs0) (concat (map (\<lambda>w. w @ [32]) ws) @ concat (map show_redir rs) @ r)
    (wrap (EXEC (argv @ ws)) (rs0 @ rs)) (skip_ws r)"
  using assms(1-3)
proof (induction ws arbitrary: argv rs0)
  case (Cons w ws)
  let ?t = "concat (map (\<lambda>w. w @ [32]) ws) @ concat (map show_redir rs) @ r"
  have w: "is_word w" using Cons.prems by simp
  have p: "peek [124, 41, 38, 59] (w @ 32 # ?t) = (w @ 32 # ?t, False)"
    by (rule peek_word[OF w]) (simp add: symbols_def)
  have same: "parseredirs m (skip_ws s) = parseredirs m s" for m s by (cases m) simp_all
  have same': "args_loop m a b (skip_ws s) = args_loop m a b s" for m a b s by (cases m) simp_all
  have go: "args_loop (Suc m) argv rs0 (w @ 32 # ?t) = pbind (parseredirs m ?t) (\<lambda>rs' s. args_loop m (argv @ [w]) (rs0 @ rs') s)" for m
    unfolding args_loop.simps p using gettoken_word(1)[OF w, of ?t] Cons.prems(3) by (simp add: same)
  show ?case
  proof (cases "ws = []")
    case True
    obtain n where n: "\<And>m. n \<le> m \<Longrightarrow> parseredirs m ?t = Parsed rs (skip_ws r)"
      using redirs_read[OF assms(4), of r] assms(5) True by (auto simp: reads_as_def)
    have "args_loop (Suc m) a b r = Parsed (wrap (EXEC a) b) (skip_ws r)" for m a b
      using assms(5) by (auto simp: peek_eq stop_def gettoken_def)
    then have "args_loop (Suc (Suc m)) argv rs0 (w @ 32 # ?t) = Parsed (wrap (EXEC (argv @ [w])) (rs0 @ rs)) (skip_ws r)" if "n \<le> m" for m
      unfolding go[of "Suc m"] n[OF le_SucI[OF that]] by (simp only: pbind.simps same')
    then show ?thesis using True by (intro reads_asI2[of n]) simp
  next
    case False
    then obtain v vs where "ws = v # vs" by (cases ws) auto
    then have v: "is_word v" "?t = v @ 32 # concat (map (\<lambda>w. w @ [32]) vs) @ concat (map show_redir rs) @ r" using Cons.prems by simp_all
    obtain k where k: "\<And>m. k \<le> m \<Longrightarrow> parseredirs m ?t = Parsed [] (skip_ws ?t)"
      using redirs_read[of "[]" ?t] v by (auto simp: reads_as_def)
    obtain n where n: "\<And>m. n \<le> m \<Longrightarrow> args_loop m (argv @ [w]) rs0 ?t = Parsed (wrap (EXEC (argv @ w # ws)) (rs0 @ rs)) (skip_ws r)"
      using Cons.IH[of "argv @ [w]" rs0] Cons.prems False by (auto simp: reads_as_def)
    show ?thesis
      by (rule reads_asI[of "max k n"]) (use go k n same' in simp)
  qed
qed simp

subsection \<open>The grammar as rules\<close>

lemma skip_first [simp]:
  "parseredirs n (skip_ws s) = parseredirs n s" "args_loop n argv rs (skip_ws s) = args_loop n argv rs s"
  "back_loop n c (skip_ws s) = back_loop n c s" "parseexec n (skip_ws s) = parseexec n s"
  by (cases n; simp)+

lemma skip_first_pipe [simp]: "parsepipe n (skip_ws s) = parsepipe n s"
  by (cases n) simp_all

lemma skip_first_line [simp]: "parseline n (skip_ws s) = parseline n s"
  by (cases n) simp_all

lemma pipe_last:
  assumes "reads_as parseexec s c r" "stop [41, 38, 59] r"
  shows "reads_as parsepipe s c (skip_ws r)"
proof -
  obtain n where "\<And>m. n \<le> m \<Longrightarrow> parseexec m s = Parsed c r" using assms(1) by (auto simp: reads_as_def)
  then show ?thesis using stop_peek[OF assms(2), of "[124]"] by (intro reads_asI[of n]) simp
qed

lemma pipe_more:
  assumes "reads_as parseexec s c (124 # r)" "reads_as parsepipe r d t"
  shows "reads_as parsepipe s (PIPE c d) t"
proof -
  obtain n k where "\<And>m. n \<le> m \<Longrightarrow> parseexec m s = Parsed c (124 # r)" "\<And>m. k \<le> m \<Longrightarrow> parsepipe m r = Parsed d t"
    using assms by (auto simp: reads_as_def)
  then show ?thesis
    by (intro reads_asI[of "max n k"]) (simp add: peek_symbol gettoken_symbol whitespace_def)
qed

lemma back_last: "stop [41, 59] r \<Longrightarrow> reads_as (\<lambda>n. back_loop n c) r c (skip_ws r)"
  using stop_peek[of "[41, 59]" r "[38]"] by (intro reads_asI[of 0]) simp

lemma back_more:
  assumes "reads_as (\<lambda>n. back_loop n (BACK c)) r d t"
  shows "reads_as (\<lambda>n. back_loop n c) (38 # r) d t"
proof -
  obtain n where "\<And>m. n \<le> m \<Longrightarrow> back_loop m (BACK c) r = Parsed d t" using assms by (auto simp: reads_as_def)
  then show ?thesis by (intro reads_asI[of n]) (simp add: peek_symbol gettoken_symbol whitespace_def)
qed

lemma line_last:
  assumes "reads_as parsepipe s c r" "reads_as (\<lambda>n. back_loop n c) r d t" "stop [41] t"
  shows "reads_as parseline s d (skip_ws t)"
proof -
  obtain n k where "\<And>m. n \<le> m \<Longrightarrow> parsepipe m s = Parsed c r" "\<And>m. k \<le> m \<Longrightarrow> back_loop m c r = Parsed d t"
    using assms(1,2) by (auto simp: reads_as_def)
  then show ?thesis using stop_peek[OF assms(3), of "[59]"] by (intro reads_asI[of "max n k"]) simp
qed

lemma line_more:
  assumes "reads_as parsepipe s c r" "reads_as (\<lambda>n. back_loop n c) r d (59 # t)" "reads_as parseline t e u"
  shows "reads_as parseline s (LIST d e) u"
proof -
  obtain n k l where "\<And>m. n \<le> m \<Longrightarrow> parsepipe m s = Parsed c r" "\<And>m. k \<le> m \<Longrightarrow> back_loop m c r = Parsed d (59 # t)"
    "\<And>m. l \<le> m \<Longrightarrow> parseline m t = Parsed e u"
    using assms by (auto simp: reads_as_def)
  then show ?thesis by (intro reads_asI[of "max n (max k l)"]) (simp add: peek_symbol gettoken_symbol whitespace_def)
qed

lemma block_read:
  assumes "reads_as parseline s c (41 # r)" "reads_as parseredirs r rs t"
  shows "reads_as parseexec (40 # s) (wrap c rs) t"
proof -
  obtain n k where n: "\<And>m. n \<le> m \<Longrightarrow> parseline m s = Parsed c (41 # r)" "\<And>m. k \<le> m \<Longrightarrow> parseredirs m r = Parsed rs t"
    using assms by (auto simp: reads_as_def)
  have "parseblock (Suc m) (40 # s) = Parsed (wrap c rs) t" if "max n k \<le> m" for m
    using n that by (simp add: peek_symbol gettoken_symbol whitespace_def)
  then show ?thesis
    by (intro reads_asI2[of "max n k"]) (simp add: peek_symbol whitespace_def del: parseblock.simps)
qed

lemma exec_read:
  assumes "cmd_ok (EXEC argv)" "\<forall>d \<in> set rs. redir_ok d" "stop [124, 41, 38, 59] r"
  shows "reads_as parseexec (show_cmd 3 (EXEC argv) @ concat (map show_redir rs) @ r) (wrap (EXEC argv) rs) (skip_ws r)"
proof (cases "argv = []")
  case True
  let ?s = "concat (map show_redir rs) @ r"
  obtain n where n: "\<And>m. n \<le> m \<Longrightarrow> parseredirs m ?s = Parsed rs (skip_ws r)"
    using redirs_read[OF assms(2), of r] assms(3) by (auto simp: reads_as_def)
  have a: "args_loop (Suc m) [] rs r = Parsed (wrap (EXEC []) rs) (skip_ws r)" for m
    using assms(3) by (auto simp: peek_eq stop_def gettoken_def)
  have p: "peek [40] ?s = (skip_ws ?s, False)"
  proof (cases rs)
    case Nil
    then show ?thesis using stop_peek[OF assms(3), of "[40]"] by simp
  next
    case (Cons d ds)
    then show ?thesis by (cases d) (auto simp: show_redir_def peek_eq skip_ws_Cons whitespace_def)
  qed
  have "parseexec (Suc (Suc m)) ?s = Parsed (wrap (EXEC []) rs) (skip_ws r)" if "n \<le> m" for m
    unfolding parseexec.simps p using n[of "Suc m"] that a[of m] by simp
  then show ?thesis using True by (intro reads_asI2[of n]) (simp del: parseexec.simps)
next
  case False
  then obtain w ws where w: "argv = w # ws" by (cases argv) auto
  let ?s = "show_cmd 3 (EXEC argv) @ concat (map show_redir rs) @ r"
  have s: "?s = w @ 32 # concat (map (\<lambda>w. w @ [32]) ws) @ concat (map show_redir rs) @ r" "is_word w" using w assms(1) by simp_all
  obtain n where n: "\<And>m. n \<le> m \<Longrightarrow> parseredirs m ?s = Parsed [] (skip_ws ?s)"
    using redirs_read[of "[]" ?s] s by (auto simp: reads_as_def)
  obtain k where k: "\<And>m. k \<le> m \<Longrightarrow> args_loop m [] [] ?s = Parsed (wrap (EXEC argv) rs) (skip_ws r)"
    using args_read[of argv "[]" rs r "[]"] assms False by (auto simp: reads_as_def)
  have p: "peek [40] ?s = (?s, False)" unfolding s(1) by (rule peek_word[OF s(2)]) (simp add: symbols_def)
  show ?thesis
    by (rule reads_asI[of "max n k"]) (use n k p in \<open>simp del: show_cmd.simps\<close>)
qed

subsection \<open>The text of a command reads as the command\<close>

definition at_exec :: "cmd \<Rightarrow> bool" where
  "at_exec c \<longleftrightarrow> (\<forall>rs r. (\<forall>d \<in> set rs. redir_ok d) \<longrightarrow> stop [124, 41, 38, 59] r \<longrightarrow>
     reads_as parseexec (show_cmd 3 c @ concat (map show_redir rs) @ r) (wrap c rs) (skip_ws r))"

lemma at_execD:
  "at_exec c \<Longrightarrow> \<forall>d \<in> set rs. redir_ok d \<Longrightarrow> stop [124, 41, 38, 59] r \<Longrightarrow>
    reads_as parseexec (show_cmd 3 c @ concat (map show_redir rs) @ r) (wrap c rs) (skip_ws r)"
  by (simp add: at_exec_def)

definition at_pipe :: "cmd \<Rightarrow> bool" where
  "at_pipe c \<longleftrightarrow> (\<forall>r. stop [41, 38, 59] r \<longrightarrow> reads_as parsepipe (show_cmd 2 c @ r) c (skip_ws r))"

text \<open>A background command reads as a pipeline whose loop over the ampersands reaches the command.\<close>

definition at_back :: "cmd \<Rightarrow> bool" where
  "at_back c \<longleftrightarrow> (\<forall>r. stop [41, 38, 59] r \<longrightarrow> (\<exists>c0 r0. reads_as parsepipe (show_cmd 1 c @ r) c0 r0
     \<and> (\<forall>d t. reads_as (\<lambda>n. back_loop n c) r d t \<longrightarrow> reads_as (\<lambda>n. back_loop n c0) r0 d t)))"

definition at_line :: "cmd \<Rightarrow> bool" where
  "at_line c \<longleftrightarrow> (\<forall>r. stop [41] r \<longrightarrow> reads_as parseline (show_cmd 0 c @ r) c (skip_ws r))"

lemma reads_back_skip [simp]: "reads_as (\<lambda>n. back_loop n c) (skip_ws r) d t = reads_as (\<lambda>n. back_loop n c) r d t"
  by (simp add: reads_as_def)

lemma pipe_from_exec:
  assumes "at_exec c" "show_cmd 2 c = show_cmd 3 c"
  shows "at_pipe c"
  unfolding at_pipe_def
proof (intro allI impI)
  fix r assume r: "stop [41, 38, 59] r"
  have "reads_as parseexec (show_cmd 3 c @ r) c (skip_ws r)"
    using at_execD[OF assms(1), of "[]" r] stop_mono[OF r, of "[124, 41, 38, 59]"] by (simp add: wrap_def)
  from pipe_last[OF this] r show "reads_as parsepipe (show_cmd 2 c @ r) c (skip_ws r)" by (simp add: assms(2))
qed

lemma back_from_pipe: "at_pipe c \<Longrightarrow> show_cmd 1 c = show_cmd 2 c \<Longrightarrow> at_back c"
  by (fastforce simp: at_pipe_def at_back_def)

lemma line_from_back:
  assumes "at_back c" "show_cmd 0 c = show_cmd 1 c"
  shows "at_line c"
  unfolding at_line_def
proof (intro allI impI)
  fix r assume r: "stop [41] r"
  have "reads_as (\<lambda>n. back_loop n c) r c (skip_ws r)" using stop_mono[OF r] by (simp add: back_last)
  then obtain c0 r0 where "reads_as parsepipe (show_cmd 1 c @ r) c0 r0" "reads_as (\<lambda>n. back_loop n c0) r0 c (skip_ws r)"
    using assms(1) stop_mono[OF r, of "[41, 38, 59]"] unfolding at_back_def by auto
  from line_last[OF this] r show "reads_as parseline (show_cmd 0 c @ r) c (skip_ws r)" by (simp add: assms(2))
qed

lemma exec_from_line:
  assumes "at_line c" "show_cmd 3 c = 40 # show_cmd 0 c @ [41]"
  shows "at_exec c"
  unfolding at_exec_def
proof (intro allI impI)
  fix rs r assume r: "\<forall>d \<in> set rs. redir_ok d" "stop [124, 41, 38, 59] r"
  let ?s = "concat (map show_redir rs) @ r"
  have "stop [41] (41 # ?s)" "skip_ws (41 # ?s) = 41 # ?s" by (simp_all add: stop_Cons skip_ws_Cons whitespace_def)
  then have "reads_as parseline (show_cmd 0 c @ 41 # ?s) c (41 # ?s)"
    using assms(1) unfolding at_line_def by fastforce
  from block_read[OF this redirs_read[OF r(1)]] r(2)
  show "reads_as parseexec (show_cmd 3 c @ ?s) (wrap c rs) (skip_ws r)" by (simp add: assms(2))
qed

lemma pipe_pipe:
  assumes "at_exec c" "at_pipe d"
  shows "at_pipe (PIPE c d)"
  unfolding at_pipe_def
proof (intro allI impI)
  fix r assume r: "stop [41, 38, 59] r"
  have s: "skip_ws (124 # s) = 124 # s" "stop [124, 41, 38, 59] (124 # s)" for s
    by (simp_all add: skip_ws_Cons stop_Cons whitespace_def)
  have "reads_as parseexec (show_cmd 3 c @ 124 # show_cmd 2 d @ r) c (124 # show_cmd 2 d @ r)"
    using at_execD[OF assms(1), of "[]", OF _ s(2)] by (simp add: wrap_def s(1))
  moreover have "reads_as parsepipe (show_cmd 2 d @ r) d (skip_ws r)" using assms(2) r by (simp add: at_pipe_def)
  ultimately show "reads_as parsepipe (show_cmd 2 (PIPE c d) @ r) (PIPE c d) (skip_ws r)"
    using pipe_more by (fastforce simp: parens_def)
qed

lemma back_back:
  assumes "at_back c"
  shows "at_back (BACK c)"
  unfolding at_back_def
proof (intro allI impI)
  fix r
  have "stop [41, 38, 59] (38 # r)" by (simp add: stop_Cons whitespace_def)
  then obtain c0 r0 where "reads_as parsepipe (show_cmd 1 c @ 38 # r) c0 r0"
    "\<And>d t. reads_as (\<lambda>n. back_loop n c) (38 # r) d t \<Longrightarrow> reads_as (\<lambda>n. back_loop n c0) r0 d t"
    using assms unfolding at_back_def by blast
  then show "\<exists>c0 r0. reads_as parsepipe (show_cmd 1 (BACK c) @ r) c0 r0 \<and>
      (\<forall>d t. reads_as (\<lambda>n. back_loop n (BACK c)) r d t \<longrightarrow> reads_as (\<lambda>n. back_loop n c0) r0 d t)"
    using back_more by (fastforce simp: parens_def)
qed

lemma line_list:
  assumes "at_back c" "at_line d"
  shows "at_line (LIST c d)"
  unfolding at_line_def
proof (intro allI impI)
  fix r assume r: "stop [41] r"
  let ?s = "59 # show_cmd 0 d @ r"
  have s: "stop [41, 59] ?s" "stop [41, 38, 59] ?s" "skip_ws ?s = ?s" by (simp_all add: stop_Cons skip_ws_Cons whitespace_def)
  obtain c0 r0 where "reads_as parsepipe (show_cmd 1 c @ ?s) c0 r0" "reads_as (\<lambda>n. back_loop n c0) r0 c ?s"
    using assms(1) s(2) back_last[OF s(1), of c] unfolding at_back_def s(3) by blast
  moreover have "reads_as parseline (show_cmd 0 d @ r) d (skip_ws r)" using assms(2) r by (simp add: at_line_def)
  ultimately show "reads_as parseline (show_cmd 0 (LIST c d) @ r) (LIST c d) (skip_ws r)"
    using line_more by (fastforce simp: parens_def)
qed

lemma wrap_redir: "wrap (REDIR c f m fd) rs = wrap c ((f, m, fd) # rs)"
  by (simp add: wrap_def)

lemma exec_exec: "cmd_ok (EXEC argv) \<Longrightarrow> at_exec (EXEC argv)"
  unfolding at_exec_def using exec_read by blast

lemma exec_redir:
  assumes "at_exec c" "redir_ok (f, m, fd)"
  shows "at_exec (REDIR c f m fd)"
  unfolding at_exec_def wrap_redir
proof (intro allI impI)
  fix rs r assume "\<forall>d \<in> set rs. redir_ok d" "stop [124, 41, 38, 59] r"
  then show "reads_as parseexec (show_cmd 3 (REDIR c f m fd) @ concat (map show_redir rs) @ r) (wrap c ((f, m, fd) # rs)) (skip_ws r)"
    using at_execD[OF assms(1), of "(f, m, fd) # rs" r] assms(2) by simp
qed

lemma show_reads: "cmd_ok c \<Longrightarrow> at_exec c \<and> at_pipe c \<and> at_back c \<and> at_line c"
proof (induction c)
  case (EXEC argv)
  then have "at_exec (EXEC argv)" by (rule exec_exec)
  then show ?case using pipe_from_exec back_from_pipe line_from_back by simp
next
  case (REDIR c f m fd)
  then have "at_exec (REDIR c f m fd)" using exec_redir by simp
  then show ?case using pipe_from_exec back_from_pipe line_from_back by simp
next
  case (PIPE c d)
  then have p: "at_pipe (PIPE c d)" using pipe_pipe by simp
  then have "at_back (PIPE c d)" by (rule back_from_pipe) (simp add: parens_def)
  moreover from this have "at_line (PIPE c d)" by (rule line_from_back) (simp add: parens_def)
  moreover from this have "at_exec (PIPE c d)" by (rule exec_from_line) (simp add: parens_def)
  ultimately show ?case using p by simp
next
  case (LIST c d)
  then have l: "at_line (LIST c d)" using line_list by simp
  then have "at_exec (LIST c d)" by (rule exec_from_line) (simp add: parens_def)
  moreover from this have "at_pipe (LIST c d)" by (rule pipe_from_exec) (simp add: parens_def)
  moreover from this have "at_back (LIST c d)" by (rule back_from_pipe) (simp add: parens_def)
  ultimately show ?case using l by simp
next
  case (BACK c)
  then have b: "at_back (BACK c)" using back_back by simp
  then have "at_line (BACK c)" by (rule line_from_back) (simp add: parens_def)
  moreover from this have "at_exec (BACK c)" by (rule exec_from_line) (simp add: parens_def)
  moreover from this have "at_pipe (BACK c)" by (rule pipe_from_exec) (simp add: parens_def)
  ultimately show ?case using b by simp
qed

lemma parsecmd_eq:
  assumes "reads_as parseline s c []"
  shows "parsecmd s = Parsed c []"
proof -
  obtain n where n: "\<And>m. n \<le> m \<Longrightarrow> parseline m s = Parsed c []" using assms by (auto simp: reads_as_def)
  have "parseline (4 * length s + 4) s = Parsed c []" using parseline_depth[of s n] n[of "4 * length s + 4 + n"] by simp
  then show ?thesis by (simp add: parsecmd_def parsecmd_fuel_def peek_eq skip_ws_def)
qed

text \<open>
  C6 (commands printed and parsed): the shell reads the text of a command back as that command,
  for every command built of pipelines, lists, background commands, redirections and simple
  commands, parentheses being printed only where the grammar needs them.
\<close>

theorem parse_show:
  assumes "cmd_ok c"
  shows "parsecmd (show_cmd 0 c) = Parsed c []"
proof (rule parsecmd_eq)
  have "at_line c" using show_reads[OF assms] by blast
  moreover have "stop [41] []" by (simp add: stop_def skip_ws_def)
  ultimately show "reads_as parseline (show_cmd 0 c) c []" unfolding at_line_def by (fastforce simp: skip_ws_def)
qed

theorem parse_show_witness:
  "parsecmd (show_cmd 0 (PIPE (REDIR (EXEC [[99, 97, 116]]) [120] O_RDONLY 0) (LIST (BACK (EXEC [[119, 99], [45]])) (EXEC []))))
    = Parsed (PIPE (REDIR (EXEC [[99, 97, 116]]) [120] O_RDONLY 0) (LIST (BACK (EXEC [[119, 99], [45]])) (EXEC []))) []"
  by (rule parse_show) (simp add: redir_ok_def is_word_def word_char_def whitespace_def symbols_def)

section \<open>What the parser builds\<close>

definition yields :: "('a \<Rightarrow> bool) \<Rightarrow> 'a presult \<Rightarrow> bool" where
  "yields P m \<longleftrightarrow> (case m of Parsed a r \<Rightarrow> P a | _ \<Rightarrow> True)"

lemma yields_simps [simp]: "yields P (Parsed a r) = P a" "yields P (Panics msg)" "yields P (Leftovers t)" "yields P Deep"
  by (simp_all add: yields_def)

lemma yields_bind: "yields P m \<Longrightarrow> (\<And>a r. P a \<Longrightarrow> yields Q (f a r)) \<Longrightarrow> yields Q (pbind m f)"
  by (cases m) auto

lemma yields_if: "(b \<Longrightarrow> yields P m) \<Longrightarrow> (\<not> b \<Longrightarrow> yields P k) \<Longrightarrow> yields P (if b then m else k)"
  by simp

lemma yields_split: "(\<And>a b. p = (a, b) \<Longrightarrow> yields P (f a b)) \<Longrightarrow> yields P (case p of (a, b) \<Rightarrow> f a b)"
  by (cases p) simp

lemmas yields_rules = yields_if yields_split

lemma gettoken_is_word:
  assumes "gettoken s = (97, q, r)"
  shows "is_word q"
proof -
  obtain c t where c: "skip_ws s = c # t" "c \<notin> {124, 40, 41, 59, 38, 60, 62}" "q = takeWhile word_char (c # t)"
    using assms by (auto simp: gettoken_def Let_def split: list.splits if_splits)
  then have "word_char c" using hd_skip_ws[of s] by (auto simp: word_char_def symbols_def)
  then show ?thesis using c(3) by (auto simp: is_word_def dest: set_takeWhileD)
qed

lemma cmd_ok_wrap: "cmd_ok c \<Longrightarrow> \<forall>d \<in> set rs. redir_ok d \<Longrightarrow> cmd_ok (wrap c rs)"
  by (induction rs arbitrary: c) (auto simp: wrap_def)

lemma parseredirs_yields: "yields (\<lambda>rs. \<forall>d \<in> set rs. redir_ok d) (parseredirs n s)"
proof (induction n arbitrary: s)
  case (Suc n)
  show ?case
    unfolding parseredirs.simps Let_def
    by (intro yields_rules yields_bind[OF Suc.IH] yields_simps(1)[THEN iffD2] yields_simps)
      (auto simp: redir_ok_def dest: gettoken_is_word)
qed simp

lemma args_loop_yields:
  "length argv < MAXARGS \<Longrightarrow> \<forall>w \<in> set argv. is_word w \<Longrightarrow> \<forall>d \<in> set rs. redir_ok d \<Longrightarrow>
    yields cmd_ok (args_loop n argv rs s)"
proof (induction n arbitrary: argv rs s)
  case (Suc n)
  show ?case
    unfolding args_loop.simps Let_def
    by (intro yields_rules yields_bind[OF parseredirs_yields] yields_simps yields_simps(1)[THEN iffD2] Suc.IH)
      (use Suc.prems in \<open>auto simp: cmd_ok_wrap dest: gettoken_is_word\<close>)
qed simp

lemma back_loop_yields: "cmd_ok c \<Longrightarrow> yields cmd_ok (back_loop n c s)"
proof (induction n arbitrary: c s)
  case (Suc n)
  show ?case unfolding back_loop.simps Let_def by (intro yields_rules Suc.IH) (use Suc.prems in auto)
qed simp

lemma parse_yields:
  "yields cmd_ok (parseline n s) \<and> yields cmd_ok (parsepipe n s) \<and> yields cmd_ok (parseblock n s) \<and> yields cmd_ok (parseexec n s)"
proof (induction n arbitrary: s)
  case (Suc n)
  have ih: "yields cmd_ok (parseline n s)" "yields cmd_ok (parsepipe n s)"
    "yields cmd_ok (parseblock n s)" "yields cmd_ok (parseexec n s)" for s using Suc.IH by blast+
  have "yields cmd_ok (parseline (Suc n) s)" "yields cmd_ok (parsepipe (Suc n) s)"
    unfolding parseline.simps parsepipe.simps Let_def
    by (intro yields_rules ih yields_bind[OF ih(1)] yields_bind[OF ih(2)] yields_bind[OF ih(4)] yields_bind[OF back_loop_yields]; simp)+
  moreover have "yields cmd_ok (parseblock (Suc n) s)" "yields cmd_ok (parseexec (Suc n) s)"
    unfolding parseblock.simps parseexec.simps Let_def
    by (intro yields_rules ih yields_bind[OF ih(1)] yields_bind[OF parseredirs_yields] args_loop_yields; simp add: cmd_ok_wrap)+
  ultimately show ?case by simp
qed simp

text \<open>
  C26 (well-formed commands): whatever the line, a command that the shell's parser builds has only
  non-empty words without white space and symbols, at most nine arguments for each program, so
  that the terminating null pointer fits the array of ten, and redirections of the standard input for
  reading or of the standard output for writing.
\<close>

theorem parse_well_formed:
  assumes "parsecmd s = Parsed c r"
  shows "cmd_ok c \<and> r = []"
proof -
  obtain t where "parseline (4 * length s + 4) s = Parsed c t" "r = []"
    using assms by (cases "parseline (4 * length s + 4) s") (auto simp: parsecmd_def parsecmd_fuel_def peek_eq split: if_splits)
  then show ?thesis using parse_yields[of "4 * length s + 4" s] by simp
qed

theorem parse_well_formed_witness:
  "\<exists>c. parsecmd (show_cmd 0 (EXEC [[108, 115]])) = Parsed c [] \<and> cmd_ok c"
proof -
  have "reads_as parseline (show_cmd 0 (EXEC [[108, 115]])) (EXEC [[108, 115]]) []"
    using show_reads[of "EXEC [[108, 115]]"] unfolding at_line_def
    by (auto simp: is_word_def word_char_def whitespace_def symbols_def stop_def skip_ws_def dest!: spec[of _ "[]"])
  then show ?thesis using parse_well_formed parsecmd_eq by blast
qed

end
