(* ===== verification/Shrun.thy ===== *)
theory Shrun
  imports Sh Utils
begin

text \<open>
  The shell running commands, \<^verbatim>\<open>sh.c\<close>: \<^verbatim>\<open>runcmd\<close>, the main loop and the
  system calls they make, and which programs run with which descriptors.
\<close>

section \<open>Running commands\<close>

text \<open>
  A program as the tree of the system calls it makes: each call continues with what the kernel
  answers.  \<^verbatim>\<open>fork\<close> answers in both processes, \<^verbatim>\<open>exec\<close> only when it
  fails, and \<^verbatim>\<open>pipe\<close> with its result and the two descriptors.
\<close>

datatype ucall =
    Exec "byte list" "byte list list"
  | Open "byte list" int
  | Close int
  | Pipe
  | Dup int
  | Fork
  | Wait
  | Chdir "byte list"
  | Write int "byte list"

datatype uprog = Exit | Call ucall "int list \<Rightarrow> uprog"

definition sh_panic :: "string \<Rightarrow> uprog" where
  "sh_panic msg = Call (Write 2 (str msg @ [10])) (\<lambda>_. Exit)"

definition fork1 :: "(int \<Rightarrow> uprog) \<Rightarrow> uprog" where
  "fork1 k = Call Fork (\<lambda>r. if hd r = -1 then sh_panic ''fork'' else k (hd r))"

definition then_do :: "ucall \<Rightarrow> uprog \<Rightarrow> uprog" where
  "then_do c p = Call c (\<lambda>_. p)"

primrec runcmd :: "cmd \<Rightarrow> uprog" where
  "runcmd (EXEC argv) =
     (case argv of
        [] \<Rightarrow> Exit
      | a # _ \<Rightarrow> then_do (Exec a argv) (then_do (Write 2 (str ''exec '' @ a @ str '' failed'' @ [10])) Exit))"
| "runcmd (REDIR c file mode fd) =
     then_do (Close fd)
       (Call (Open file mode) (\<lambda>r.
          if hd r < 0 then then_do (Write 2 (str ''open '' @ file @ str '' failed'' @ [10])) Exit
          else runcmd c))"
| "runcmd (LIST c d) = fork1 (\<lambda>pid. if pid = 0 then runcmd c else then_do Wait (runcmd d))"
| "runcmd (PIPE c d) =
     Call Pipe (\<lambda>r.
       if hd r < 0 then sh_panic ''pipe'' else
       let p0 = r ! 1; p1 = r ! 2 in
       fork1 (\<lambda>pid.
         if pid = 0 then
           then_do (Close 1) (then_do (Dup p1) (then_do (Close p0) (then_do (Close p1) (runcmd c))))
         else fork1 (\<lambda>pid.
           if pid = 0 then
             then_do (Close 0) (then_do (Dup p0) (then_do (Close p0) (then_do (Close p1) (runcmd d))))
           else then_do (Close p0) (then_do (Close p1) (then_do Wait (then_do Wait Exit))))))"
| "runcmd (BACK c) = fork1 (\<lambda>pid. if pid = 0 then runcmd c else Exit)"

lemma gets_loop_length: "length (fst (gets_loop n inp)) + length (snd (gets_loop n inp)) = length inp"
  by (induction n inp rule: gets_loop.induct) (auto split: prod.splits)

lemma gets_loop_rest: "(l, r) = gets_loop n inp \<Longrightarrow> l \<noteq> [] \<Longrightarrow> length r < length inp"
  using gets_loop_length[of n inp] by (cases l; cases "gets_loop n inp") auto

text \<open>
  The main loop, on what is left of the standard input: a line of at most ninety-nine bytes at a
  time.  A line ends for the C string functions at its first zero byte.
\<close>

function sh_loop :: "byte list \<Rightarrow> uprog" where
  "sh_loop inp =
     then_do (Write 2 (str ''$ ''))
       (let (line, rest) = u_gets 100 inp; buf = takeWhile (\<lambda>c. c \<noteq> 0) line in
        if line = [] \<or> hd line = 0 then Exit
        else if take 3 buf = [99, 100, 32] then
          (let dir = drop 3 (butlast buf) in
           Call (Chdir dir) (\<lambda>r.
             if hd r < 0 then then_do (Write 2 (str ''cannot cd '' @ dir @ [10])) (sh_loop rest) else sh_loop rest))
        else fork1 (\<lambda>pid.
          if pid = 0 then
            (case parsecmd buf of
               Parsed c _ \<Rightarrow> runcmd c
             | Panics msg \<Rightarrow> sh_panic msg
             | Leftovers t \<Rightarrow> then_do (Write 2 (str ''leftovers: '' @ t @ [10])) (sh_panic ''syntax'')
             | Deep \<Rightarrow> Exit)
          else then_do Wait (sh_loop rest)))"
  by pat_completeness auto

termination
  by (relation "measure length") (auto simp: u_gets_def intro: gets_loop_rest)

declare sh_loop.simps [simp del]

text \<open>
  Opening the console until a descriptor above two comes back.  The kernel hands out distinct
  descriptors, so the fourth call at the latest returns one or fails.
\<close>

fun open_console :: "nat \<Rightarrow> uprog \<Rightarrow> uprog" where
  "open_console 0 p = Exit"
| "open_console (Suc n) p =
     Call (Open (str ''console'') 2) (\<lambda>r.
       if hd r < 0 then p
       else if 3 \<le> hd r then then_do (Close (hd r)) p
       else open_console n p)"

definition sh_main :: "byte list \<Rightarrow> uprog" where
  "sh_main inp = open_console 4 (sh_loop inp)"

section \<open>What the started programs see\<close>

text \<open>
  The descriptors of a process, and the programs that a tree of calls starts together with their
  descriptors, when no call fails.  A new descriptor is the lowest free one.  A pipe is named by its
  place in the tree: the answers at the forks on the way to it.
\<close>

datatype fobj = Inherited nat | FileObj "byte list" int | ReadEnd "nat list" | WriteEnd "nat list"

type_synonym fdtable = "nat \<Rightarrow> fobj option"

definition lowest :: "fdtable \<Rightarrow> nat" where
  "lowest fs = the (find (\<lambda>n. fs n = None) [0..<16])"

primrec started :: "uprog \<Rightarrow> fdtable \<Rightarrow> nat list \<Rightarrow> (byte list list \<times> fdtable) list" where
  "started Exit = (\<lambda>fs at. [])"
| "started (Call c k) = (\<lambda>fs at.
     case c of
       Exec a argv \<Rightarrow> [(argv, fs)]
     | Open f m \<Rightarrow> (let n = lowest fs in started (k [int n]) (fs(n \<mapsto> FileObj f m)) at)
     | Close n \<Rightarrow> started (k [0]) (fs(nat n := None)) at
     | Pipe \<Rightarrow>
         (let n = lowest fs; fs' = fs(n \<mapsto> ReadEnd at); m = lowest fs' in
          started (k [0, int n, int m]) (fs'(m \<mapsto> WriteEnd at)) (at @ [2]))
     | Dup n \<Rightarrow> (let m = lowest fs in started (k [int m]) (fs(m := fs (nat n))) at)
     | Fork \<Rightarrow> started (k [0]) fs (at @ [0]) @ started (k [1]) fs (at @ [1])
     | Wait \<Rightarrow> started (k [1]) fs at
     | Chdir d \<Rightarrow> started (k [0]) fs at
     | Write n s \<Rightarrow> started (k [int (length s)]) fs at)"

text \<open>What a command means: which programs run, and where their input and output go.\<close>

primrec plan :: "cmd \<Rightarrow> fdtable \<Rightarrow> nat list \<Rightarrow> (byte list list \<times> fdtable) list" where
  "plan (EXEC argv) = (\<lambda>fs at. if argv = [] then [] else [(argv, fs)])"
| "plan (REDIR c file mode fd) = (\<lambda>fs at. plan c (fs(nat fd \<mapsto> FileObj file mode)) at)"
| "plan (PIPE c d) = (\<lambda>fs at.
     plan c (fs(1 \<mapsto> WriteEnd at)) (at @ [2, 0]) @ plan d (fs(0 \<mapsto> ReadEnd at)) (at @ [2, 1, 0]))"
| "plan (LIST c d) = (\<lambda>fs at. plan c fs (at @ [0]) @ plan d fs (at @ [1]))"
| "plan (BACK c) = (\<lambda>fs at. plan c fs (at @ [0]))"

text \<open>The three standard descriptors and no other.\<close>

definition std :: "fdtable \<Rightarrow> bool" where
  "std fs \<longleftrightarrow> dom fs = {0, 1, 2}"

lemma lowest_eq: "n < 16 \<Longrightarrow> fs n = None \<Longrightarrow> \<forall>i < n. fs i \<noteq> None \<Longrightarrow> lowest fs = n"
  unfolding lowest_def by (subst find_upt_Some[THEN iffD2, of n]) auto

lemma stdD: "std fs \<Longrightarrow> fs n \<noteq> None \<longleftrightarrow> n < 3"
  by (auto simp: std_def dom_def set_eq_iff)

lemma started_then [simp]:
  "started (then_do (Close n) p) fs at = started p (fs(nat n := None)) at"
  "started (then_do (Dup n) p) fs at = started p (fs(lowest fs := fs (nat n))) at"
  "started (then_do Wait p) fs at = started p fs at"
  "started (then_do (Write n s) p) fs at = started p fs at"
  "started (then_do (Exec a argv) p) fs at = [(argv, fs)]"
  "started (fork1 k) fs at = started (k 0) fs (at @ [0]) @ started (k 1) fs (at @ [1])"
  by (simp_all add: then_do_def fork1_def Let_def)

text \<open>The calls around a pipe, in the two processes that it connects.\<close>

lemma pipe_tables:
  fixes at :: "nat list"
  assumes "std fs"
  defines "t \<equiv> fs(3 \<mapsto> ReadEnd at, 4 \<mapsto> WriteEnd at)"
  shows "lowest fs = 3" "lowest (fs(3 \<mapsto> ReadEnd at)) = 4"
    "lowest (t(1 := None)) = 1" "lowest (t(0 := None)) = 0"
    "(t(1 := None))(1 := t 4, 3 := None, 4 := None) = fs(1 \<mapsto> WriteEnd at)"
    "(t(0 := None))(0 := t 3, 3 := None, 4 := None) = fs(0 \<mapsto> ReadEnd at)"
proof -
  have o: "\<exists>x. fs i = Some x" if "i < 3" for i using stdD[OF assms(1), of i] that by auto
  have n: "fs 3 = None" "fs 4 = None" using stdD[OF assms(1), of 3] stdD[OF assms(1), of 4] by auto
  show "lowest fs = 3" "lowest (fs(3 \<mapsto> ReadEnd at)) = 4" "lowest (t(1 := None)) = 1" "lowest (t(0 := None)) = 0"
    by (rule lowest_eq; use n in \<open>auto simp: t_def o\<close>)+
  show "(t(1 := None))(1 := t 4, 3 := None, 4 := None) = fs(1 \<mapsto> WriteEnd at)"
    "(t(0 := None))(0 := t 3, 3 := None, 4 := None) = fs(0 \<mapsto> ReadEnd at)"
    using n by (auto simp: t_def fun_eq_iff)
qed

lemma redir_table:
  assumes "std fs" "n < 3"
  shows "lowest (fs(n := None)) = n" "std (fs(n \<mapsto> x))"
proof -
  have "\<exists>x. fs i = Some x" if "i < 3" for i using stdD[OF assms(1), of i] that by auto
  then show "lowest (fs(n := None)) = n" using assms(2) by (intro lowest_eq) auto
  show "std (fs(n \<mapsto> x))" using assms by (auto simp: std_def)
qed

lemma started_pipe:
  assumes "std fs"
  shows "started (runcmd (PIPE c d)) fs at =
    started (runcmd c) (fs(1 \<mapsto> WriteEnd at)) (at @ [2, 0]) @ started (runcmd d) (fs(0 \<mapsto> ReadEnd at)) (at @ [2, 1, 0])"
  using pipe_tables[OF assms] by (simp add: Let_def)



end
