(* ===== verification/Spec2Isabelle.thy ===== *)
theory Spec2Isabelle
  imports Prelude Spinlock Cstring Kalloc Proc Vm Pagetab Uspace Bio Bytes Ring Log Fs Fsalloc Fsdata Fswrite Fsname File Lifecycle Syscall Exec Sysfile Kbd Console Trap Grep Ulib Utils Sh Shrun
begin

text \<open>
  Verification of the xv6 kernel with a lottery scheduler.
\<close>

end
